(* ===== verification/Prelude.thy ===== *)
theory Prelude
  imports Main "HOL-Library.Word" "HOL-Library.Multiset"
begin

text \<open>
  What every component shares: the type names, the operations of Rust's standard
  library that the source calls (\<open>Vec::swap_remove\<close>, \<open>VecDeque::remove\<close>,
  \<open>Iterator::position\<close>, \<open>checked_add\<close>, \<open>saturating_sub\<close>, \<open>div_ceil\<close>,
  \<open>Vec::reserve\<close>), sums over finite maps, and the collections of rewrite rules that
  the component theories extend.
\<close>

named_theorems word_simps \<open>machine integers as natural numbers\<close>

declare unat_of_nat [word_simps] take_bit_nat_eq_self [word_simps]

section \<open>Types\<close>

type_synonym byte = "8 word"
type_synonym u64 = "64 word"
type_synonym u32 = "32 word"
type_synonym fd = int
type_synonym addr = nat
type_synonym mem = "addr \<Rightarrow> byte"

text \<open>
  \<open>usize\<close> values that count bytes of memory or entries of a vector are \<^typ>\<open>nat\<close>: an
  allocation never exceeds \<open>isize::MAX\<close>.  Positions and sizes (\<open>u64\<close>), which arrive
  from the caller and can overflow when added to, are \<^typ>\<open>u64\<close>.
\<close>

section \<open>Integers of the standard library\<close>

definition checked_add :: "u64 \<Rightarrow> u64 \<Rightarrow> u64 option" where
  "checked_add a b = (if unat a + unat b < 2 ^ 64 then Some (a + b) else None)"

definition saturating_sub :: "u64 \<Rightarrow> u64 \<Rightarrow> u64" where
  "saturating_sub a b = (if b \<le> a then a - b else 0)"

definition div_ceil :: "nat \<Rightarrow> nat \<Rightarrow> nat" where
  "div_ceil a b = (if a mod b = 0 then a div b else Suc (a div b))"

lemma checked_add_code [code]: "checked_add a b = (if uint a + uint b < 2 ^ 64 then Some (a + b) else None)"
proof -
  have "(unat a + unat b < 2 ^ 64) = (uint a + uint b < 2 ^ 64)"
    by (simp only: uint_nat of_nat_add [symmetric] of_nat_less_numeral_power_cancel_iff)
  then show ?thesis by (simp only: checked_add_def)
qed

lemma checked_add_SomeD:
  "checked_add a b = Some c \<Longrightarrow> unat c = unat a + unat b"
  by (auto simp: checked_add_def unat_word_ariths split: if_splits)

lemma checked_add_NoneD: "checked_add a b = None \<Longrightarrow> 2 ^ 64 \<le> unat a + unat b"
  by (auto simp: checked_add_def split: if_splits)

lemma unat_saturating_sub: "unat (saturating_sub a b) = unat a - unat b"
  by (auto simp: saturating_sub_def unat_sub_if' word_le_nat_alt)

lemma div_ceil_cases:
  assumes "0 < b"
  obtains q r where "a = q * b + r" and "r < b" and "div_ceil a b = (if r = 0 then q else Suc q)"
  using that [of "a div b" "a mod b"] assms by (simp add: div_ceil_def)

lemma div_ceil_mult_ge: "0 < b \<Longrightarrow> a \<le> div_ceil a b * b"
  by (erule div_ceil_cases [of b a]) auto

lemma div_ceil_mult_less: "0 < b \<Longrightarrow> div_ceil a b * b < a + b"
  by (frule div_ceil_cases [of b a]) auto

section \<open>Vectors and queues\<close>

definition swap_remove :: "'a list \<Rightarrow> nat \<Rightarrow> 'a list" where
  "swap_remove xs i = butlast (xs[i := last xs])"

definition remove_at :: "'a list \<Rightarrow> nat \<Rightarrow> 'a list" where
  "remove_at xs i = take i xs @ drop (Suc i) xs"

fun position :: "('a \<Rightarrow> bool) \<Rightarrow> 'a list \<Rightarrow> nat option" where
  "position P [] = None"
| "position P (x # xs) = (if P x then Some 0 else map_option Suc (position P xs))"

lemma position_SomeD: "position P xs = Some i \<Longrightarrow> i < length xs \<and> P (xs ! i)"
  by (induction xs arbitrary: i) (auto split: if_splits)

lemma position_Some_first: "position P xs = Some i \<Longrightarrow> j < i \<Longrightarrow> \<not> P (xs ! j)"
proof (induction xs arbitrary: i j)
  case (Cons x xs)
  then show ?case by (cases j) (auto split: if_splits)
qed simp

lemma position_None_iff: "position P xs = None \<longleftrightarrow> (\<forall>x \<in> set xs. \<not> P x)"
  by (induction xs) auto

lemma mset_remove_at: "i < length xs \<Longrightarrow> mset xs = add_mset (xs ! i) (mset (remove_at xs i))"
  unfolding remove_at_def
  by (subst id_take_nth_drop [of i xs]) simp_all

lemma length_remove_at [simp]: "i < length xs \<Longrightarrow> length (remove_at xs i) = length xs - 1"
  by (simp add: remove_at_def)

lemma set_remove_at: "set (remove_at xs i) \<subseteq> set xs"
  by (auto simp: remove_at_def dest: in_set_takeD in_set_dropD)

lemma length_swap_remove [simp]: "length (swap_remove xs i) = length xs - 1"
  by (simp add: swap_remove_def)

lemma mset_swap_remove:
  assumes "i < length xs"
  shows "mset xs = add_mset (xs ! i) (mset (swap_remove xs i))"
proof -
  let ?ys = "xs[i := last xs]"
  from assms have ne: "?ys \<noteq> []" by auto
  have "last ?ys = last xs"
    using assms by (subst last_list_update) auto
  then have "?ys = butlast ?ys @ [last xs]"
    using ne by (metis append_butlast_last_id)
  then have "mset ?ys = add_mset (last xs) (mset (butlast ?ys))"
    by (metis mset_append mset.simps(1) mset.simps(2) union_mset_add_mset_right add.right_neutral)
  moreover have "mset ?ys = add_mset (last xs) (mset xs - {# xs ! i #})"
    using assms by (simp add: mset_update)
  ultimately have "mset (butlast ?ys) = mset xs - {# xs ! i #}" by simp
  with assms show ?thesis by (simp add: swap_remove_def)
qed

lemma set_swap_remove: "i < length xs \<Longrightarrow> set (swap_remove xs i) \<subseteq> set xs"
  by (metis mset_swap_remove set_mset_mset set_mset_add_mset_insert subset_insertI)

text \<open>
  \<open>Vec::reserve(additional)\<close> of a vector with \<open>len\<close> initialised bytes and capacity
  \<open>cap\<close>: nothing happens while \<open>cap - len\<close> bytes suffice; otherwise the capacity
  doubles, or grows to what is asked for (\<open>RawVec::grow_amortized\<close>, at least 8 for
  bytes).  \<open>Vec::with_capacity n\<close> has capacity \<open>n\<close>.
\<close>

definition vec_reserve :: "nat \<Rightarrow> nat \<Rightarrow> nat \<Rightarrow> nat" where
  "vec_reserve len cap additional =
     (if additional > cap - len then max (max (2 * cap) (len + additional)) 8 else cap)"

lemma vec_reserve_ge: "cap \<le> vec_reserve len cap additional"
  by (auto simp: vec_reserve_def)

section \<open>Sums over a finite map\<close>

text \<open>
  A hash map is a partial function with a finite domain; the order of its entries is
  never observed.  \<open>entries_sum f m\<close> adds up \<open>f\<close> over the entries.
\<close>

definition entries_sum :: "('v \<Rightarrow> 'a::comm_monoid_add) \<Rightarrow> ('k \<Rightarrow> 'v option) \<Rightarrow> 'a" where
  "entries_sum f m = (\<Sum>k \<in> dom m. f (the (m k)))"

lemma entries_sum_empty [simp]: "entries_sum f Map.empty = 0"
  by (simp add: entries_sum_def)

lemma entries_sum_insert:
  "finite (dom m) \<Longrightarrow> m k = None \<Longrightarrow> entries_sum f (m(k \<mapsto> v)) = f v + entries_sum f m"
proof -
  assume fin: "finite (dom m)" and new: "m k = None"
  then have "k \<notin> dom m" by auto
  then have "(\<Sum>j \<in> dom m. f (the ((m(k \<mapsto> v)) j))) = (\<Sum>j \<in> dom m. f (the (m j)))"
    by (intro sum.cong) auto
  with fin \<open>k \<notin> dom m\<close> show ?thesis by (simp add: entries_sum_def)
qed

lemma entries_sum_remove:
  assumes "finite (dom m)" and "m k = Some v"
  shows "entries_sum f m = f v + entries_sum f (m(k := None))"
proof -
  have "entries_sum f ((m(k := None))(k \<mapsto> v)) = f v + entries_sum f (m(k := None))"
    by (rule entries_sum_insert) (use assms in auto)
  moreover have "(m(k := None))(k \<mapsto> v) = m" using assms by auto
  ultimately show ?thesis by simp
qed

lemma entries_sum_update:
  "finite (dom m) \<Longrightarrow> entries_sum f (m(k \<mapsto> v)) = f v + entries_sum f (m(k := None))"
  using entries_sum_insert [of "m(k := None)" k f v] by simp

lemma finite_dom_upd [simp]: "finite (dom (m(k := v))) \<longleftrightarrow> finite (dom m)"
  by (cases v) (auto simp: dom_fun_upd)

end
