(* ===== verification/Core.thy ===== *)
theory Core
  imports Prelude
begin

text \<open>
  The public vocabulary of \<open>crates/turbofile-core/src/lib.rs\<close>: errors, operations and
  replies, the message type of the submission channel, the submitting side of a driver
  (\<open>Driver::submit\<close>, \<open>Driver::cancel\<close>) and \<open>regular_file_size\<close>.

  A callback is a boxed closure that may be invoked once; the model names it by a
  number (\<open>cb\<close>), and an invocation is the pair of that number and the result passed.
  The counters \<open>next_op\<close> and \<open>next_id\<close> are \<open>u64\<close> in the source and \<^typ>\<open>nat\<close> here:
  they only count submissions and opens up from 1.
\<close>

unbundle bit_operations_syntax

section \<open>Errors\<close>

text \<open>
  The numbers behind \<open>libc\<close>'s names differ between platforms; the source only ever
  compares them with these names.
\<close>

datatype errno = EINTR | EAGAIN | EINPROGRESS | ECANCELED | EINVAL | Errno int

datatype io_error =
    Os errno
  | BrokenPipe string
  | InvalidInput string
  | Other string

fun raw_os_error :: "io_error \<Rightarrow> errno option" where
  "raw_os_error (Os e) = Some e"
| "raw_os_error _ = None"

definition cancelled_error :: io_error where
  "cancelled_error = Os ECANCELED"

definition is_cancelled :: "io_error \<Rightarrow> bool" where
  "is_cancelled e \<longleftrightarrow> raw_os_error e = Some ECANCELED"

definition bad_handle :: io_error where
  "bad_handle = InvalidInput ''unknown or closed turbofile handle''"

definition driver_gone :: io_error where
  "driver_gone = BrokenPipe ''turbofile driver thread is gone''"

type_synonym 'a io = "io_error + 'a"

section \<open>Backends\<close>

datatype platform = Macos | Linux | Other_platform

datatype backend_kind = Compio | DarwinAio

definition default_for_platform :: "platform \<Rightarrow> backend_kind" where
  "default_for_platform p = (if p = Macos then DarwinAio else Compio)"

section \<open>Operations and replies\<close>

record open_spec =
  sp_read :: bool
  sp_write :: bool
  sp_append :: bool
  sp_truncate :: bool
  sp_create :: bool
  sp_create_new :: bool

definition default_spec :: open_spec where
  "default_spec = \<lparr>sp_read = False, sp_write = False, sp_append = False,
     sp_truncate = False, sp_create = False, sp_create_new = False\<rparr>"

datatype payload =
    Payload_Owned "byte list"
  | Payload_Borrowed addr nat

text \<open>The borrowed bytes are whatever the submitter's memory holds at that address.\<close>

fun as_slice :: "mem \<Rightarrow> payload \<Rightarrow> byte list" where
  "as_slice m (Payload_Owned data) = data"
| "as_slice m (Payload_Borrowed p n) = map (\<lambda>i. m (p + i)) [0..<n]"

fun payload_len :: "payload \<Rightarrow> nat" where
  "payload_len (Payload_Owned data) = length data"
| "payload_len (Payload_Borrowed p n) = n"

definition payload_is_empty :: "payload \<Rightarrow> bool" where
  "payload_is_empty d \<longleftrightarrow> payload_len d = 0"

datatype dest =
    Dest_Alloc nat
  | Dest_Into addr nat

type_synonym path = string

datatype op =
    Op_Open path open_spec
  | Op_ReadAt nat u64 dest
  | Op_ReadToEnd nat u64
  | Op_WriteAt nat u64 payload bool
  | Op_Close nat
  | Op_Sync nat bool
  | Op_SetLen nat u64
  | Op_Size nat
  | Op_ReadFile path u64
  | Op_WriteFile path payload
  | Op_Nop

text \<open>The handle an operation works on, when it works on one.\<close>

fun on_handle :: "op \<Rightarrow> nat option" where
  "on_handle (Op_ReadAt h pos dst) = Some h"
| "on_handle (Op_ReadToEnd h pos) = Some h"
| "on_handle (Op_WriteAt h pos data app) = Some h"
| "on_handle (Op_Close h) = Some h"
| "on_handle (Op_Sync h data_only) = Some h"
| "on_handle (Op_SetLen h sz) = Some h"
| "on_handle (Op_Size h) = Some h"
| "on_handle _ = None"

datatype reply =
    Reply_Handle nat u64 int
  | Reply_Bytes "byte list"
  | Reply_Read nat
  | Reply_Written nat u64
  | Reply_Size u64
  | Reply_Unit

text \<open>The replies an op may have, as the comments on \<open>Op\<close> and \<open>Dest\<close> have them.\<close>

fun answers :: "op \<Rightarrow> reply \<Rightarrow> bool" where
  "answers (Op_Open path spec) (Reply_Handle i sz f) = True"
| "answers (Op_ReadAt h pos (Dest_Alloc len)) (Reply_Bytes bs) = (length bs \<le> len)"
| "answers (Op_ReadAt h pos (Dest_Into p len)) (Reply_Read n) = (n \<le> len)"
| "answers (Op_ReadToEnd h pos) (Reply_Bytes bs) = True"
| "answers (Op_WriteAt h pos data app) (Reply_Written n e) = (n = payload_len data)"
| "answers (Op_Close h) Reply_Unit = True"
| "answers (Op_Sync h d) Reply_Unit = True"
| "answers (Op_SetLen h n) Reply_Unit = True"
| "answers (Op_Size h) (Reply_Size n) = True"
| "answers (Op_ReadFile path n) (Reply_Bytes bs) = True"
| "answers (Op_ReadFile path n) (Reply_Handle i sz f) = True"
| "answers (Op_WriteFile path data) (Reply_Written n e) = (n = payload_len data)"
| "answers Op_Nop Reply_Unit = True"
| "answers _ _ = False"

type_synonym cb = nat

datatype msg =
    Msg_Submit nat op cb
  | Msg_Cancel nat

section \<open>Channels\<close>

text \<open>
  \<open>flume::unbounded\<close>, by its documentation: an unbounded first-in first-out queue; a
  send fails, handing the message back, when every receiver is gone; a receive takes the
  oldest message, and reports a disconnect only once the queue is empty and every sender
  is gone.
\<close>

record 'a channel =
  pending :: "'a list"
  receivers :: bool
  senders :: bool

definition new_channel :: "'a channel" where
  "new_channel = \<lparr>pending = [], receivers = True, senders = True\<rparr>"

definition send :: "'a \<Rightarrow> 'a channel \<Rightarrow> 'a + 'a channel" where
  "send m c = (if receivers c then Inr (c\<lparr>pending := pending c @ [m]\<rparr>) else Inl m)"

datatype 'a recv = Received 'a | Empty | Disconnected

fun recv_next :: "'a list \<Rightarrow> bool \<Rightarrow> 'a recv" where
  "recv_next (m # ms) alive = Received m"
| "recv_next [] alive = (if alive then Empty else Disconnected)"

definition try_recv :: "'a channel \<Rightarrow> 'a recv \<times> 'a channel" where
  "try_recv c = (recv_next (pending c) (senders c), c\<lparr>pending := tl (pending c)\<rparr>)"

definition channel_is_empty :: "'a channel \<Rightarrow> bool" where
  "channel_is_empty c \<longleftrightarrow> pending c = []"

lemma try_recv_ReceivedD:
  "try_recv c = (Received m, c') \<Longrightarrow> pending c = m # pending c' \<and>
     receivers c' = receivers c \<and> senders c' = senders c"
  by (cases "pending c") (auto simp: try_recv_def split: if_splits)

section \<open>The submitting side of a driver\<close>

record driver =
  next_op :: nat
  label :: string

definition driver_new :: "string \<Rightarrow> driver" where
  "driver_new l = \<lparr>next_op = 1, label = l\<rparr>"

definition backend_label :: "driver \<Rightarrow> string" where
  "backend_label d = label d"

text \<open>
  \<open>Driver::submit\<close>: the op's id, the driver and the channel afterwards, and the
  callbacks it invoked itself (one, with a \<open>BrokenPipe\<close> error, when the driver thread
  is gone).
\<close>

definition submit ::
  "op \<Rightarrow> cb \<Rightarrow> driver \<Rightarrow> msg channel \<Rightarrow> nat \<times> driver \<times> msg channel \<times> (cb \<times> reply io) list" where
  "submit oper cb d tx =
     (let i = next_op d; d' = d\<lparr>next_op := i + 1\<rparr>
      in case send (Msg_Submit i oper cb) tx of
           Inl (Msg_Submit _ _ cb') \<Rightarrow> (i, d', tx, [(cb', Inl driver_gone)])
         | Inl (Msg_Cancel _) \<Rightarrow> (i, d', tx, [])
         | Inr tx' \<Rightarrow> (i, d', tx', []))"

definition cancel :: "nat \<Rightarrow> msg channel \<Rightarrow> msg channel" where
  "cancel i tx = (case send (Msg_Cancel i) tx of Inl _ \<Rightarrow> tx | Inr tx' \<Rightarrow> tx')"

section \<open>The kernel\<close>

text \<open>
  The kernel is a parameter: a record of functions over an unknown state \<open>'k\<close>, one per
  system call the source makes, each returning what the call returns (an errno on
  failure) and the kernel's next state.  A read returns the count the call reports and
  the bytes it put into the buffer; a control block stands for the boxed
  \<open>struct aiocb\<close> and carries the number of its job (at most one block per job is live).
\<close>

datatype aio_opcode = Aio_read | Aio_write | Aio_fsync

datatype buf_ref =
    No_buf
  | To_vec nat
  | To_mem addr
  | From_payload payload nat

record aiocb =
  aio_ident :: nat
  aio_opcode :: aio_opcode
  aio_fildes :: fd
  aio_offset :: u64
  aio_buf :: buf_ref
  aio_nbytes :: nat

record stat =
  st_mode :: u32
  st_size :: u64

record 'k kernel =
  sys_open :: "path \<Rightarrow> u32 \<Rightarrow> 'k \<Rightarrow> (errno + fd) \<times> 'k"
  sys_close :: "fd \<Rightarrow> 'k \<Rightarrow> (errno + unit) \<times> 'k"
  sys_fstat :: "fd \<Rightarrow> 'k \<Rightarrow> (errno + stat) \<times> 'k"
  sys_ftruncate :: "fd \<Rightarrow> u64 \<Rightarrow> 'k \<Rightarrow> (errno + unit) \<times> 'k"
  sys_fsync :: "fd \<Rightarrow> 'k \<Rightarrow> (errno + unit) \<times> 'k"
  sys_pread :: "fd \<Rightarrow> nat \<Rightarrow> u64 \<Rightarrow> 'k \<Rightarrow> (errno + nat \<times> byte list) \<times> 'k"
  sys_pwrite :: "fd \<Rightarrow> payload \<Rightarrow> nat \<Rightarrow> nat \<Rightarrow> u64 \<Rightarrow> 'k \<Rightarrow> (errno + nat) \<times> 'k"
  sys_write :: "fd \<Rightarrow> payload \<Rightarrow> nat \<Rightarrow> nat \<Rightarrow> 'k \<Rightarrow> (errno + nat) \<times> 'k"
  aio_submit :: "aiocb \<Rightarrow> 'k \<Rightarrow> (errno + unit) \<times> 'k"
  aio_error :: "aiocb \<Rightarrow> 'k \<Rightarrow> errno option \<times> 'k"
  aio_return :: "aiocb \<Rightarrow> 'k \<Rightarrow> (nat \<times> byte list) \<times> 'k"
  aio_cancel :: "aiocb \<Rightarrow> 'k \<Rightarrow> 'k"
  aio_suspend :: "aiocb list \<Rightarrow> int \<Rightarrow> 'k \<Rightarrow> 'k"
  sysctl_aioprocmax :: "int option"

text \<open>The type bits of a file mode: the same values on Linux and macOS.\<close>

definition S_IFMT :: u32 where "S_IFMT = 0xF000"

definition S_IFREG :: u32 where "S_IFREG = 0x8000"

definition regular_file_size :: "'k kernel \<Rightarrow> fd \<Rightarrow> 'k \<Rightarrow> u64 option \<times> 'k" where
  "regular_file_size K f w =
     (if f < 0 then (None, w)
      else case sys_fstat K f w of
             (Inl e, w') \<Rightarrow> (None, w')
           | (Inr st, w') \<Rightarrow>
               (if st_mode st AND S_IFMT \<noteq> S_IFREG then (None, w')
                else (Some (if sint (st_size st) < 0 then 0 else st_size st), w')))"

section \<open>Facts about the submitting side\<close>

lemma submit_cases:
  "submit oper cb d tx =
     (next_op d, d\<lparr>next_op := next_op d + 1\<rparr>,
      if receivers tx then tx\<lparr>pending := pending tx @ [Msg_Submit (next_op d) oper cb]\<rparr> else tx,
      if receivers tx then [] else [(cb, Inl driver_gone)])"
  by (simp add: submit_def send_def Let_def)

text \<open>A run of submissions: the ids handed out.\<close>

fun submit_all :: "(op \<times> cb) list \<Rightarrow> driver \<Rightarrow> msg channel \<Rightarrow> nat list \<times> driver \<times> msg channel" where
  "submit_all [] d tx = ([], d, tx)"
| "submit_all ((oper, cb) # rest) d tx =
     (let (i, d', tx', _) = submit oper cb d tx; (ids, r) = submit_all rest d' tx'
      in (i # ids, r))"

lemma upt_length_Suc: "[n..<n + (k + Suc 0)] = n # [n + Suc 0..<n + Suc 0 + k]"
  by (simp add: upt_conv_Cons del: upt_Suc)

lemma submit_all_ids: "fst (submit_all ops d tx) = [next_op d..<next_op d + length ops]"
proof (induction ops arbitrary: d tx)
  case (Cons a ops)
  then show ?case
    by (cases a) (simp add: submit_cases Let_def case_prod_beta upt_length_Suc
        del: upt_Suc add_Suc_right)
qed simp

lemma submit_all_pending:
  "receivers tx \<Longrightarrow> pending (snd (snd (submit_all ops d tx))) =
     pending tx @ map (\<lambda>(i, (oper, cb)). Msg_Submit i oper cb)
       (zip [next_op d..<next_op d + length ops] ops)"
proof (induction ops arbitrary: d tx)
  case (Cons a ops)
  then show ?case
    by (cases a) (simp add: submit_cases Let_def case_prod_beta upt_length_Suc
        del: upt_Suc add_Suc_right)
qed simp

lemma regular_file_size_SomeD:
  assumes "regular_file_size K f w = (Some n, w')"
  shows "0 \<le> f \<and> (\<exists>st. sys_fstat K f w = (Inr st, w') \<and> st_mode st AND S_IFMT = S_IFREG \<and>
           sint n = max 0 (sint (st_size st)))"
  using assms by (auto simp: regular_file_size_def split: if_splits prod.splits sum.splits)

end
