(* ===== verification/Aio_Job.thy ===== *)
theory Aio_Job
  imports Core
begin

text \<open>
  The jobs of the POSIX AIO backend (\<open>crates/turbofile-core/src/darwin_aio.rs\<close>): what
  one read, write or fsync is doing, how it is handed to the kernel chunk by chunk, what
  a completed chunk does to it (\<open>step\<close>), and the plain-syscall fallback that runs a
  whole job (\<open>execute_sync\<close>).  The wrappers around the single system calls
  (\<open>open_raw\<close>, \<open>open_sized\<close>, \<open>close_raw\<close>, \<open>fd_size\<close>) are here too.
\<close>

section \<open>The operating system a driver sees\<close>

text \<open>
  The kernel's state, the process memory that reads are copied to, and a log of what an
  observer sees: descriptors opened and closed, callbacks invoked.  Nothing reads the
  log.
\<close>

datatype event =
    Ev_open fd
  | Ev_close fd
  | Ev_call cb "reply io"

record 'k os =
  world :: 'k
  memory :: mem
  log :: "event list"

definition syscall :: "('k \<Rightarrow> (errno + 'r) \<times> 'k) \<Rightarrow> 'k os \<Rightarrow> 'r io \<times> 'k os" where
  "syscall f s = (case f (world s) of
       (Inl e, w) \<Rightarrow> (Inl (Os e), s\<lparr>world := w\<rparr>)
     | (Inr r, w) \<Rightarrow> (Inr r, s\<lparr>world := w\<rparr>))"

definition emit :: "event \<Rightarrow> 'k os \<Rightarrow> 'k os" where
  "emit ev s = s\<lparr>log := log s @ [ev]\<rparr>"

definition invoke :: "cb \<Rightarrow> reply io \<Rightarrow> 'k os \<Rightarrow> 'k os" where
  "invoke c res s = emit (Ev_call c res) s"

section \<open>System call wrappers\<close>

text \<open>Darwin's values of the \<open>open\<close> flags.\<close>

definition O_RDONLY :: u32 where "O_RDONLY = 0x0"
definition O_WRONLY :: u32 where "O_WRONLY = 0x1"
definition O_RDWR :: u32 where "O_RDWR = 0x2"
definition O_APPEND :: u32 where "O_APPEND = 0x8"
definition O_CREAT :: u32 where "O_CREAT = 0x200"
definition O_TRUNC :: u32 where "O_TRUNC = 0x400"
definition O_EXCL :: u32 where "O_EXCL = 0x800"
definition O_CLOEXEC :: u32 where "O_CLOEXEC = 0x1000000"

definition access_mode :: "open_spec \<Rightarrow> u32 io" where
  "access_mode spec = (case (sp_read spec, sp_write spec \<or> sp_append spec) of
       (True, True) \<Rightarrow> Inr O_RDWR
     | (True, False) \<Rightarrow> Inr O_RDONLY
     | (False, True) \<Rightarrow> Inr O_WRONLY
     | (False, False) \<Rightarrow> Inl (InvalidInput ''open needs read or write access''))"

definition open_flags :: "open_spec \<Rightarrow> u32 \<Rightarrow> u32" where
  "open_flags spec access =
     (let flags = access OR O_CLOEXEC;
          flags = (if sp_append spec then flags OR O_APPEND else flags);
          flags = (if sp_truncate spec then flags OR O_TRUNC else flags);
          flags = (if sp_create spec then flags OR O_CREAT else flags);
          flags = (if sp_create_new spec then flags OR (O_CREAT OR O_EXCL) else flags)
      in flags)"

definition open_raw :: "'k kernel \<Rightarrow> path \<Rightarrow> open_spec \<Rightarrow> 'k os \<Rightarrow> fd io \<times> 'k os" where
  "open_raw K path spec s =
     (if CHR 0x00 \<in> set path then (Inl (InvalidInput ''path contains NUL''), s)
      else case access_mode spec of
          Inl e \<Rightarrow> (Inl e, s)
        | Inr access \<Rightarrow>
            (case syscall (sys_open K path (open_flags spec access)) s of
               (Inl e, s') \<Rightarrow> (Inl e, s')
             | (Inr f, s') \<Rightarrow> (Inr f, emit (Ev_open f) s')))"

definition close_raw :: "'k kernel \<Rightarrow> fd \<Rightarrow> 'k os \<Rightarrow> unit io \<times> 'k os" where
  "close_raw K f s = syscall (sys_close K f) (emit (Ev_close f) s)"

definition fd_size :: "'k kernel \<Rightarrow> fd \<Rightarrow> 'k os \<Rightarrow> u64 io \<times> 'k os" where
  "fd_size K f s = (case syscall (sys_fstat K f) s of
       (Inl e, s') \<Rightarrow> (Inl e, s')
     | (Inr st, s') \<Rightarrow> (Inr (st_size st), s'))"

definition open_sized :: "'k kernel \<Rightarrow> path \<Rightarrow> open_spec \<Rightarrow> 'k os \<Rightarrow> (fd \<times> u64) io \<times> 'k os" where
  "open_sized K path spec s =
     (case open_raw K path spec s of
        (Inl e, s1) \<Rightarrow> (Inl e, s1)
      | (Inr f, s1) \<Rightarrow>
          (case fd_size K f s1 of
             (Inr sz, s2) \<Rightarrow> (Inr (f, sz), s2)
           | (Inl e, s2) \<Rightarrow> (Inl e, snd (close_raw K f s2))))"

definition regular_size :: "'k kernel \<Rightarrow> fd \<Rightarrow> 'k os \<Rightarrow> u64 option \<times> 'k os" where
  "regular_size K f s = (case regular_file_size K f (world s) of (r, w) \<Rightarrow> (r, s\<lparr>world := w\<rparr>))"

section \<open>Jobs\<close>

datatype want = Want_Exact nat | Want_ToEnd

text \<open>
  \<open>ReadBuf::Owned\<close> is a vector under construction: the bytes the kernel has put into
  it and its capacity (its \<open>len\<close> stays 0 until \<open>read_reply\<close>); \<open>External\<close> is
  caller memory.
\<close>

datatype read_buf =
    Buf_Owned "byte list" nat
  | Buf_External addr nat

fun chunk :: "read_buf \<Rightarrow> nat \<Rightarrow> buf_ref \<times> nat" where
  "chunk (Buf_Owned vec cap) filled = (To_vec filled, cap - filled)"
| "chunk (Buf_External p len) filled = (To_mem (p + filled), len - filled)"

record read_job =
  r_handle :: "nat option"
  r_fd :: fd
  r_owned_fd :: bool
  r_pos :: u64
  r_want :: want
  r_buf :: read_buf
  r_filled :: nat

record write_job =
  w_handle :: "nat option"
  w_fd :: fd
  w_owned_fd :: bool
  w_pos :: u64
  w_append :: bool
  w_data :: payload
  w_filled :: nat

record fsync_job =
  f_handle :: nat
  f_fd :: fd

datatype job_kind =
    Job_Read read_job
  | Job_Write write_job
  | Job_Fsync fsync_job

record job =
  j_id :: nat
  j_cancelled :: bool
  j_kind :: job_kind
  j_cb :: cb

fun kind_handle :: "job_kind \<Rightarrow> nat option" where
  "kind_handle (Job_Read r) = r_handle r"
| "kind_handle (Job_Write w) = w_handle w"
| "kind_handle (Job_Fsync f) = Some (f_handle f)"

fun kind_owned_fd :: "job_kind \<Rightarrow> bool" where
  "kind_owned_fd (Job_Read r) = r_owned_fd r"
| "kind_owned_fd (Job_Write w) = w_owned_fd w"
| "kind_owned_fd (Job_Fsync f) = False"

fun kind_fd :: "job_kind \<Rightarrow> fd" where
  "kind_fd (Job_Read r) = r_fd r"
| "kind_fd (Job_Write w) = w_fd w"
| "kind_fd (Job_Fsync f) = f_fd f"

section \<open>One chunk completed\<close>

definition complete :: "'k kernel \<Rightarrow> read_job \<Rightarrow> 'k os \<Rightarrow> bool \<times> 'k os" where
  "complete K r s = (case r_want r of
       Want_Exact len \<Rightarrow> (len \<le> r_filled r, s)
     | Want_ToEnd \<Rightarrow>
         (case regular_size K (r_fd r) s of
            (None, s') \<Rightarrow> (False, s')
          | (Some sz, s') \<Rightarrow> (sz \<le> r_pos r + of_nat (r_filled r), s')))"

fun read_reply :: "read_job \<Rightarrow> reply" where
  "read_reply r = (case r_buf r of
       Buf_Owned vec cap \<Rightarrow> Reply_Bytes (take (r_filled r) vec)
     | Buf_External p len \<Rightarrow> Reply_Read (r_filled r))"

datatype step_result = Step_Done "reply io" | Step_More

definition grow :: "read_job \<Rightarrow> read_job" where
  "grow r = (case r_buf r of
       Buf_Owned vec cap \<Rightarrow>
         (if r_filled r = cap then r\<lparr>r_buf := Buf_Owned vec (vec_reserve 0 cap (max cap 65536))\<rparr>
          else r)
     | Buf_External p len \<Rightarrow> r)"

definition step_read :: "'k kernel \<Rightarrow> read_job \<Rightarrow> nat \<Rightarrow> 'k os \<Rightarrow> step_result \<times> read_job \<times> 'k os" where
  "step_read K r n s =
     (let r = r\<lparr>r_filled := r_filled r + n\<rparr>
      in if n = 0 then (Step_Done (Inr (read_reply r)), r, s)
         else case complete K r s of
             (True, s') \<Rightarrow> (Step_Done (Inr (read_reply r)), r, s')
           | (False, s') \<Rightarrow> (Step_More, grow r, s'))"

definition step_write :: "'k kernel \<Rightarrow> write_job \<Rightarrow> nat \<Rightarrow> 'k os \<Rightarrow> step_result \<times> write_job \<times> 'k os" where
  "step_write K w n s =
     (let w = w\<lparr>w_filled := w_filled w + n\<rparr>
      in if w_filled w < payload_len (w_data w) then (Step_More, w, s)
         else case (if w_append w then fd_size K (w_fd w) s
                    else (Inr (w_pos w + of_nat (payload_len (w_data w))), s)) of
             (Inl e, s') \<Rightarrow> (Step_Done (Inl e), w, s')
           | (Inr end, s') \<Rightarrow> (Step_Done (Inr (Reply_Written (payload_len (w_data w)) end)), w, s'))"

definition step :: "'k kernel \<Rightarrow> job \<Rightarrow> nat \<Rightarrow> 'k os \<Rightarrow> step_result \<times> job \<times> 'k os" where
  "step K j n s = (case j_kind j of
       Job_Read r \<Rightarrow> (case step_read K r n s of (res, r', s') \<Rightarrow> (res, j\<lparr>j_kind := Job_Read r'\<rparr>, s'))
     | Job_Write w \<Rightarrow> (case step_write K w n s of (res, w', s') \<Rightarrow> (res, j\<lparr>j_kind := Job_Write w'\<rparr>, s'))
     | Job_Fsync f \<Rightarrow> (Step_Done (Inr Reply_Unit), j, s))"

section \<open>Handing a chunk to the kernel\<close>

definition control_block :: "job \<Rightarrow> aiocb" where
  "control_block j = (case j_kind j of
       Job_Read r \<Rightarrow>
         (case chunk (r_buf r) (r_filled r) of (buf, remaining) \<Rightarrow>
            \<lparr>aio_ident = j_id j, aio_opcode = Aio_read, aio_fildes = r_fd r,
             aio_offset = r_pos r + of_nat (r_filled r), aio_buf = buf, aio_nbytes = remaining\<rparr>)
     | Job_Write w \<Rightarrow>
         \<lparr>aio_ident = j_id j, aio_opcode = Aio_write, aio_fildes = w_fd w,
          aio_offset = w_pos w + of_nat (w_filled w), aio_buf = From_payload (w_data w) (w_filled w),
          aio_nbytes = payload_len (w_data w) - w_filled w\<rparr>
     | Job_Fsync f \<Rightarrow>
         \<lparr>aio_ident = j_id j, aio_opcode = Aio_fsync, aio_fildes = f_fd f,
          aio_offset = 0, aio_buf = No_buf, aio_nbytes = 0\<rparr>)"

text \<open>
  What the kernel's copy does: the bytes of a read land at the chunk's place, in the
  vector after the bytes it holds or in the caller's memory.
\<close>

definition store :: "addr \<Rightarrow> byte list \<Rightarrow> mem \<Rightarrow> mem" where
  "store p bs m = (\<lambda>a. if p \<le> a \<and> a < p + length bs then bs ! (a - p) else m a)"

definition deliver_read :: "read_job \<Rightarrow> byte list \<Rightarrow> 'k os \<Rightarrow> read_job \<times> 'k os" where
  "deliver_read r bs s = (case r_buf r of
       Buf_Owned vec cap \<Rightarrow> (r\<lparr>r_buf := Buf_Owned (take (r_filled r) vec @ bs) cap\<rparr>, s)
     | Buf_External p len \<Rightarrow> (r, s\<lparr>memory := store (p + r_filled r) bs (memory s)\<rparr>))"

definition deliver_bytes :: "job \<Rightarrow> byte list \<Rightarrow> 'k os \<Rightarrow> job \<times> 'k os" where
  "deliver_bytes j bs s = (case j_kind j of
       Job_Read r \<Rightarrow> (case deliver_read r bs s of (r', s') \<Rightarrow> (j\<lparr>j_kind := Job_Read r'\<rparr>, s'))
     | _ \<Rightarrow> (j, s))"

text \<open>One iteration of \<open>execute_sync\<close>: the plain system call for the current chunk.\<close>

definition sync_chunk :: "'k kernel \<Rightarrow> job \<Rightarrow> 'k os \<Rightarrow> nat io \<times> job \<times> 'k os" where
  "sync_chunk K j s = (case j_kind j of
       Job_Read r \<Rightarrow>
         (case syscall (sys_pread K (r_fd r) (snd (chunk (r_buf r) (r_filled r)))
                          (r_pos r + of_nat (r_filled r))) s of
            (Inl e, s') \<Rightarrow> (Inl e, j, s')
          | (Inr (n, bs), s') \<Rightarrow> (case deliver_bytes j bs s' of (j', s'') \<Rightarrow> (Inr n, j', s'')))
     | Job_Write w \<Rightarrow>
         (let remaining = payload_len (w_data w) - w_filled w
          in case (if w_append w
                   then syscall (sys_write K (w_fd w) (w_data w) (w_filled w) remaining) s
                   else syscall (sys_pwrite K (w_fd w) (w_data w) (w_filled w) remaining
                                   (w_pos w + of_nat (w_filled w))) s) of
            (r, s') \<Rightarrow> (r, j, s'))
     | Job_Fsync f \<Rightarrow>
         (case syscall (sys_fsync K (f_fd f)) s of
            (Inl e, s') \<Rightarrow> (Inl e, j, s')
          | (Inr _, s') \<Rightarrow> (Inr 0, j, s')))"

text \<open>
  The loop of \<open>execute_sync\<close> up to its calls of \<open>finish\<close>: the job and the result it
  finishes with.  \<^const>\<open>None\<close> is a loop that does not end.
\<close>

partial_function (option) sync_loop :: "'k kernel \<Rightarrow> job \<Rightarrow> 'k os \<Rightarrow> (job \<times> reply io \<times> 'k os) option" where
  "sync_loop K j s =
     (case sync_chunk K j s of
        (Inl e, j1, s1) \<Rightarrow> Some (j1, Inl e, s1)
      | (Inr n, j1, s1) \<Rightarrow>
          (case step K j1 n s1 of
             (Step_Done res, j2, s2) \<Rightarrow> Some (j2, res, s2)
           | (Step_More, j2, s2) \<Rightarrow> sync_loop K j2 s2))"

declare sync_loop.simps [code]

end
