(* ===== verification/Aio_Driver.thy ===== *)
theory Aio_Driver
  imports Aio_Job
begin

text \<open>
  The \<open>Driver\<close> of \<open>crates/turbofile-core/src/darwin_aio.rs\<close>: its state and every
  operation it performs on one message, one opened descriptor or one completion.  An
  operation that may run \<open>execute_sync\<close> returns an option, \<^const>\<open>None\<close> when
  that loop does not end.
\<close>

section \<open>State\<close>

datatype after_open =
    After_Handle
  | After_ReadFile u64
  | After_WriteFile payload

record pending_open =
  po_id :: nat
  po_then :: after_open
  po_cb :: cb

datatype helper_job =
    Helper_Open path open_spec pending_open
  | Helper_Close fd

record opened_msg =
  op_pending :: pending_open
  op_result :: "(fd \<times> u64) io"

record file_entry =
  fe_fd :: fd
  fe_ops :: nat
  fe_closing :: "cb option"

record inflight_op =
  in_aiocb :: aiocb
  in_job :: job

definition SUSPEND_MIN_NS :: int where "SUSPEND_MIN_NS = 20000"
definition SUSPEND_MAX_NS :: int where "SUSPEND_MAX_NS = 160000"
definition FALLBACK_MAX_INFLIGHT :: nat where "FALLBACK_MAX_INFLIGHT = 16"
definition MIN_OPEN_THREADS :: nat where "MIN_OPEN_THREADS = 2"
definition MAX_OPEN_THREADS :: nat where "MAX_OPEN_THREADS = 4"

definition helpers_for :: "nat \<Rightarrow> nat" where
  "helpers_for hardware = min (max (hardware div 3) MIN_OPEN_THREADS) MAX_OPEN_THREADS"

text \<open>\<^const>\<open>None\<close> is a system that does not tell its parallelism.\<close>

definition open_threads :: "nat option \<Rightarrow> nat" where
  "open_threads parallelism = (let hardware = (case parallelism of None \<Rightarrow> 1 | Some n \<Rightarrow> n) in helpers_for hardware)"

lemma open_threads_bounds: "2 \<le> open_threads p \<and> open_threads p \<le> 4"
  by (simp add: open_threads_def Let_def helpers_for_def MIN_OPEN_THREADS_def MAX_OPEN_THREADS_def)

definition aio_proc_max :: "'k kernel \<Rightarrow> nat" where
  "aio_proc_max K = (case sysctl_aioprocmax K of
       Some value \<Rightarrow> (if 0 < value then nat value else FALLBACK_MAX_INFLIGHT)
     | None \<Rightarrow> FALLBACK_MAX_INFLIGHT)"

record 'k aio =
  rx :: "msg channel"
  helper_tx :: "helper_job channel"
  back_rx :: "opened_msg channel"
  pending_opens :: "nat set"
  cancelled_opens :: "nat set"
  helpers_gone :: bool
  files :: "nat \<Rightarrow> file_entry option"
  next_id :: nat
  inflight :: "inflight_op list"
  queue :: "job list"
  max_inflight :: nat
  disconnected :: bool
  suspend_ns :: int
  progress :: bool
  os :: "'k os"

definition aio_new ::
  "'k kernel \<Rightarrow> msg channel \<Rightarrow> helper_job channel \<Rightarrow> opened_msg channel \<Rightarrow> 'k os \<Rightarrow> 'k aio" where
  "aio_new K r h b s =
     \<lparr>rx = r, helper_tx = h, back_rx = b, pending_opens = {}, cancelled_opens = {},
      helpers_gone = False, files = Map.empty, next_id = 1, inflight = [], queue = [],
      max_inflight = aio_proc_max K, disconnected = False, suspend_ns = SUSPEND_MIN_NS,
      progress = False, os = s\<rparr>"

section \<open>Opening files for an operation\<close>

definition open_for ::
  "'k kernel \<Rightarrow> path \<Rightarrow> open_spec \<Rightarrow> after_open \<Rightarrow> 'k os \<Rightarrow> (fd \<times> u64) io \<times> 'k os" where
  "open_for K path spec next s = (case next of
       After_WriteFile data \<Rightarrow>
         (case open_raw K path spec s of
            (Inl e, s') \<Rightarrow> (Inl e, s')
          | (Inr f, s') \<Rightarrow> (Inr (f, 0), s'))
     | _ \<Rightarrow> open_sized K path spec s)"

section \<open>Handles, callbacks, closing\<close>

definition with_os :: "('k os \<Rightarrow> 'r \<times> 'k os) \<Rightarrow> 'k aio \<Rightarrow> 'r \<times> 'k aio" where
  "with_os f d = (case f (os d) of (r, s) \<Rightarrow> (r, d\<lparr>os := s\<rparr>))"

definition call_cb :: "cb \<Rightarrow> reply io \<Rightarrow> 'k aio \<Rightarrow> 'k aio" where
  "call_cb c res d = d\<lparr>os := invoke c res (os d)\<rparr>"

definition close_reply :: "unit io \<Rightarrow> reply io" where
  "close_reply r = (case r of Inl e \<Rightarrow> Inl e | Inr _ \<Rightarrow> Inr Reply_Unit)"

definition has_backlog :: "'k aio \<Rightarrow> bool" where
  "has_backlog d \<longleftrightarrow> \<not> channel_is_empty (rx d) \<or> queue d \<noteq> [] \<or> pending_opens d \<noteq> {}"

text \<open>A close handed back by the helpers' channel runs on this thread (\<open>run_here\<close>).\<close>

definition run_close :: "'k kernel \<Rightarrow> fd \<Rightarrow> 'k aio \<Rightarrow> 'k aio" where
  "run_close K f d = snd (with_os (close_raw K f) d)"

definition close_owned :: "'k kernel \<Rightarrow> fd \<Rightarrow> 'k aio \<Rightarrow> 'k aio" where
  "close_owned K f d =
     (if \<not> has_backlog d then run_close K f d
      else case send (Helper_Close f) (helper_tx d) of
          Inr h \<Rightarrow> d\<lparr>helper_tx := h\<rparr>
        | Inl _ \<Rightarrow> run_close K f d)"

definition register :: "fd \<Rightarrow> u64 \<Rightarrow> 'k aio \<Rightarrow> reply \<times> 'k aio" where
  "register f sz d =
     (let i = next_id d
      in (Reply_Handle i sz f,
          d\<lparr>next_id := i + 1,
            files := (files d)(i \<mapsto> \<lparr>fe_fd = f, fe_ops = 0, fe_closing = None\<rparr>)\<rparr>))"

definition close :: "'k kernel \<Rightarrow> nat \<Rightarrow> cb \<Rightarrow> 'k aio \<Rightarrow> 'k aio" where
  "close K handle c d = (case files d handle of
       None \<Rightarrow> call_cb c (Inl bad_handle) d
     | Some entry \<Rightarrow>
         (if fe_closing entry \<noteq> None then call_cb c (Inl bad_handle) d
          else if 0 < fe_ops entry
          then d\<lparr>files := (files d)(handle \<mapsto> entry\<lparr>fe_closing := Some c\<rparr>)\<rparr>
          else case with_os (close_raw K (fe_fd entry)) (d\<lparr>files := (files d)(handle := None)\<rparr>) of
                 (r, d') \<Rightarrow> call_cb c (close_reply r) d'))"

definition with_fd :: "nat \<Rightarrow> 'k aio \<Rightarrow> fd io" where
  "with_fd handle d = (case files d handle of
       None \<Rightarrow> Inl bad_handle
     | Some entry \<Rightarrow>
         (if fe_closing entry \<noteq> None then Inl bad_handle else Inr (fe_fd entry)))"

text \<open>
  \<open>entry.ops -= 1\<close> would panic at 0 in a checked build; the invariant of the
  theory \<open>Aio_Table\<close> shows that it is never 0 there.
\<close>

definition release :: "'k kernel \<Rightarrow> nat \<Rightarrow> 'k aio \<Rightarrow> 'k aio" where
  "release K handle d = (case files d handle of
       None \<Rightarrow> d
     | Some entry \<Rightarrow>
         (let entry = entry\<lparr>fe_ops := fe_ops entry - 1\<rparr>;
              d = d\<lparr>files := (files d)(handle \<mapsto> entry)\<rparr>
          in case fe_closing entry of
               None \<Rightarrow> d
             | Some c \<Rightarrow>
                 (if 0 < fe_ops entry then d
                  else case with_os (close_raw K (fe_fd entry))
                              (d\<lparr>files := (files d)(handle := None)\<rparr>) of
                         (r, d') \<Rightarrow> call_cb c (close_reply r) d')))"

definition finish :: "'k kernel \<Rightarrow> job \<Rightarrow> reply io \<Rightarrow> 'k aio \<Rightarrow> 'k aio" where
  "finish K j res d =
     (let d = (if kind_owned_fd (j_kind j) then close_owned K (kind_fd (j_kind j)) d else d);
          d = call_cb (j_cb j) res d
      in case kind_handle (j_kind j) of
           None \<Rightarrow> d
         | Some handle \<Rightarrow> release K handle d)"

section \<open>Submitting jobs\<close>

datatype submitted = Submitted_Inflight | Submitted_Full job

definition execute_sync :: "'k kernel \<Rightarrow> job \<Rightarrow> 'k aio \<Rightarrow> 'k aio option" where
  "execute_sync K j d = (case sync_loop K j (os d) of
       None \<Rightarrow> None
     | Some (j', res, s) \<Rightarrow> Some (finish K j' res (d\<lparr>os := s\<rparr>)))"

definition submit_job :: "'k kernel \<Rightarrow> job \<Rightarrow> 'k aio \<Rightarrow> (submitted \<times> 'k aio) option" where
  "submit_job K j d =
     (let block = control_block j
      in case with_os (syscall (aio_submit K block)) d of
           (Inr _, d) \<Rightarrow>
             Some (Submitted_Inflight, d\<lparr>inflight := inflight d @ [\<lparr>in_aiocb = block, in_job = j\<rparr>]\<rparr>)
         | (Inl err, d) \<Rightarrow>
             (if raw_os_error err = Some EAGAIN
              then (if inflight d = []
                    then map_option (\<lambda>d. (Submitted_Inflight, d)) (execute_sync K j d)
                    else Some (Submitted_Full j, d))
              else Some (Submitted_Inflight, finish K j (Inl err) d)))"

lemma queue_with_os [simp]: "queue (snd (with_os f d)) = queue d"
  by (simp add: with_os_def case_prod_beta)

lemma queue_with_osD: "with_os f d = (r, d') \<Longrightarrow> queue d' = queue d"
  by (metis queue_with_os snd_conv)

lemma queue_finish [simp]: "queue (finish K j res d) = queue d"
  by (auto simp: finish_def release_def close_owned_def run_close_def call_cb_def Let_def with_os_def
      split: option.splits prod.splits sum.splits)

lemma queue_submit_job:
  "submit_job K j d = Some (r, d') \<Longrightarrow> queue d' = queue d"
  by (auto simp: submit_job_def execute_sync_def Let_def
      split: prod.splits sum.splits if_splits option.splits dest!: queue_with_osD)

text \<open>\<open>submit_ready\<close>: each iteration takes a job off the queue or ends the loop.\<close>

function submit_ready :: "'k kernel \<Rightarrow> 'k aio \<Rightarrow> 'k aio option" where
  "submit_ready K d =
     (if length (inflight d) < max_inflight d
      then (case queue d of
          [] \<Rightarrow> Some d
        | j # rest \<Rightarrow>
            (case submit_job K j (d\<lparr>queue := rest\<rparr>) of
               None \<Rightarrow> None
             | Some (Submitted_Inflight, d') \<Rightarrow> submit_ready K d'
             | Some (Submitted_Full j', d') \<Rightarrow> Some (d'\<lparr>queue := j' # queue d'\<rparr>)))
      else Some d)"
  by pat_completeness auto
termination
  by (relation "measure (\<lambda>(K, d). length (queue d))") (auto dest!: queue_submit_job)

declare submit_ready.simps [simp del]

text \<open>
  A rule for every fact that survives the loop: \<open>P\<close> holds between iterations, \<open>Q j\<close>
  while the job \<open>j\<close> has been taken off the queue.
\<close>

lemma submit_ready_rule:
  assumes "submit_ready K d = Some d'" and "P d"
    and pop: "\<And>e j rest. P e \<Longrightarrow> queue e = j # rest \<Longrightarrow> Q j (e\<lparr>queue := rest\<rparr>)"
    and inflight: "\<And>j e e'. Q j e \<Longrightarrow> length (inflight e) < max_inflight e \<Longrightarrow>
        submit_job K j e = Some (Submitted_Inflight, e') \<Longrightarrow> P e'"
    and full: "\<And>j e j' e'. Q j e \<Longrightarrow> length (inflight e) < max_inflight e \<Longrightarrow>
        submit_job K j e = Some (Submitted_Full j', e') \<Longrightarrow> P (e'\<lparr>queue := j' # queue e'\<rparr>)"
  shows "P d'"
  using assms(1,2)
proof (induction "length (queue d)" arbitrary: d rule: less_induct)
  case less
  show ?case
  proof (cases "length (inflight d) < max_inflight d \<and> queue d \<noteq> []")
    case False
    with less.prems show ?thesis by (subst (asm) submit_ready.simps) (auto split: if_splits list.splits)
  next
    case True
    then obtain j rest where q: "queue d = j # rest" by (cases "queue d") auto
    let ?d = "d\<lparr>queue := rest\<rparr>"
    from less.prems(1) True q obtain r d1 where sub: "submit_job K j ?d = Some (r, d1)"
      by (subst (asm) submit_ready.simps) (auto split: option.splits)
    from less.prems(2) q have "Q j ?d" by (rule pop)
    show ?thesis
    proof (cases r)
      case Submitted_Inflight
      with less.prems(1) True q sub have rec: "submit_ready K d1 = Some d'"
        by (subst (asm) submit_ready.simps) simp
      from queue_submit_job [OF sub] q have "length (queue d1) < length (queue d)" by simp
      moreover from \<open>Q j ?d\<close> True sub Submitted_Inflight have "P d1" by (intro inflight [of j ?d d1]) auto
      ultimately show ?thesis using rec by (intro less.hyps)
    next
      case (Submitted_Full j')
      with less.prems(1) True q sub have "d' = d1\<lparr>queue := j' # queue d1\<rparr>"
        by (subst (asm) submit_ready.simps) simp
      with \<open>Q j ?d\<close> True sub Submitted_Full show ?thesis by (auto intro: full [of j ?d])
    qed
  qed
qed

text \<open>The first lines of \<open>enqueue\<close>: an op on a handle counts in its entry.\<close>

definition retain :: "nat option \<Rightarrow> 'k aio \<Rightarrow> 'k aio" where
  "retain handle d = (case handle of
       None \<Rightarrow> d
     | Some h \<Rightarrow>
         (case files d h of
            None \<Rightarrow> d
          | Some entry \<Rightarrow> d\<lparr>files := (files d)(h \<mapsto> entry\<lparr>fe_ops := fe_ops entry + 1\<rparr>)\<rparr>))"

definition enqueue :: "'k kernel \<Rightarrow> nat \<Rightarrow> job_kind \<Rightarrow> nat option \<Rightarrow> cb \<Rightarrow> 'k aio \<Rightarrow> 'k aio option" where
  "enqueue K i kind handle c d =
     (let d = retain handle d;
          j = \<lparr>j_id = i, j_cancelled = False, j_kind = kind, j_cb = c\<rparr>
      in submit_ready K (d\<lparr>queue := queue d @ [j]\<rparr>))"

text \<open>
  \<open>advance\<close>: a chunk completed with \<open>n\<close> bytes.
\<close>

definition advance :: "'k kernel \<Rightarrow> job \<Rightarrow> nat \<Rightarrow> 'k aio \<Rightarrow> 'k aio option" where
  "advance K j n d =
     (case step K j n (os d) of
        (Step_Done res, j', s) \<Rightarrow> Some (finish K j' res (d\<lparr>os := s\<rparr>))
      | (Step_More, j', s) \<Rightarrow>
          (if j_cancelled j' then Some (finish K j' (Inl cancelled_error) (d\<lparr>os := s\<rparr>))
           else submit_ready K (d\<lparr>os := s, queue := j' # queue d\<rparr>)))"

section \<open>Opened descriptors\<close>

definition opened :: "'k kernel \<Rightarrow> pending_open \<Rightarrow> (fd \<times> u64) io \<Rightarrow> 'k aio \<Rightarrow> 'k aio option" where
  "opened K p result d = (case result of
       Inl e \<Rightarrow> Some (call_cb (po_cb p) (Inl e) d)
     | Inr (f, sz) \<Rightarrow>
         (case po_then p of
            After_Handle \<Rightarrow> (case register f sz d of (r, d') \<Rightarrow> Some (call_cb (po_cb p) (Inr r) d'))
          | After_ReadFile inline_max \<Rightarrow>
              (if inline_max < sz
               then (case register f sz d of (r, d') \<Rightarrow> Some (call_cb (po_cb p) (Inr r) d'))
               else enqueue K (po_id p)
                      (Job_Read \<lparr>r_handle = None, r_fd = f, r_owned_fd = True, r_pos = 0,
                         r_want = Want_ToEnd, r_buf = Buf_Owned [] (max (unat sz) 1), r_filled = 0\<rparr>)
                      None (po_cb p) d)
          | After_WriteFile data \<Rightarrow>
              enqueue K (po_id p)
                (Job_Write \<lparr>w_handle = None, w_fd = f, w_owned_fd = True, w_pos = 0,
                   w_append = False, w_data = data, w_filled = 0\<rparr>)
                None (po_cb p) d))"

definition open_here ::
  "'k kernel \<Rightarrow> path \<Rightarrow> open_spec \<Rightarrow> pending_open \<Rightarrow> 'k aio \<Rightarrow> 'k aio option" where
  "open_here K path spec p d =
     (case with_os (open_for K path spec (po_then p)) d of (result, d') \<Rightarrow> opened K p result d')"

definition run_here :: "'k kernel \<Rightarrow> helper_job \<Rightarrow> 'k aio \<Rightarrow> 'k aio option" where
  "run_here K hj d = (case hj of
       Helper_Open path spec p \<Rightarrow> open_here K path spec p d
     | Helper_Close f \<Rightarrow> Some (run_close K f d))"

definition open_then ::
  "'k kernel \<Rightarrow> nat \<Rightarrow> path \<Rightarrow> open_spec \<Rightarrow> after_open \<Rightarrow> cb \<Rightarrow> 'k aio \<Rightarrow> 'k aio option" where
  "open_then K i path spec next c d =
     (let p = \<lparr>po_id = i, po_then = next, po_cb = c\<rparr>
      in if \<not> has_backlog d then open_here K path spec p d
         else (let d = d\<lparr>pending_opens := insert i (pending_opens d)\<rparr>
               in case send (Helper_Open path spec p) (helper_tx d) of
                    Inr h \<Rightarrow> Some (d\<lparr>helper_tx := h\<rparr>)
                  | Inl hj \<Rightarrow> run_here K hj (d\<lparr>pending_opens := pending_opens d - {i}\<rparr>)))"

definition handle_opened :: "'k kernel \<Rightarrow> opened_msg \<Rightarrow> 'k aio \<Rightarrow> 'k aio option" where
  "handle_opened K om d =
     (let p = op_pending om; i = po_id p;
          d = d\<lparr>progress := True, pending_opens := pending_opens d - {i}\<rparr>
      in if i \<in> cancelled_opens d
         then let d = d\<lparr>cancelled_opens := cancelled_opens d - {i}\<rparr>;
                  d = (case op_result om of Inr (f, _) \<Rightarrow> run_close K f d | Inl _ \<Rightarrow> d)
              in Some (call_cb (po_cb p) (Inl cancelled_error) d)
         else opened K p (op_result om) d)"

section \<open>Cancelling\<close>

definition cancel_op :: "'k kernel \<Rightarrow> nat \<Rightarrow> 'k aio \<Rightarrow> 'k aio" where
  "cancel_op K i d =
     (case position (\<lambda>j. j_id j = i) (queue d) of
        Some pos \<Rightarrow>
          finish K (queue d ! pos) (Inl cancelled_error) (d\<lparr>queue := remove_at (queue d) pos\<rparr>)
      | None \<Rightarrow>
          (case position (\<lambda>entry. j_id (in_job entry) = i) (inflight d) of
             None \<Rightarrow>
               (if i \<in> pending_opens d then d\<lparr>cancelled_opens := insert i (cancelled_opens d)\<rparr> else d)
           | Some k \<Rightarrow>
               (let entry = inflight d ! k;
                    entry' = entry\<lparr>in_job := (in_job entry)\<lparr>j_cancelled := True\<rparr>\<rparr>;
                    s = os d
                in d\<lparr>inflight := (inflight d)[k := entry'],
                     os := s\<lparr>world := aio_cancel K (in_aiocb entry') (world s)\<rparr>\<rparr>)))"

section \<open>Operations\<close>

definition handle_read_at ::
  "'k kernel \<Rightarrow> nat \<Rightarrow> nat \<Rightarrow> u64 \<Rightarrow> dest \<Rightarrow> cb \<Rightarrow> 'k aio \<Rightarrow> 'k aio option" where
  "handle_read_at K i handle pos dst c d = (case with_fd handle d of
       Inl e \<Rightarrow> Some (call_cb c (Inl e) d)
     | Inr f \<Rightarrow>
         (case dst of
            Dest_Alloc len \<Rightarrow>
              (if len = 0 then Some (call_cb c (Inr (Reply_Bytes [])) d)
               else enqueue K i
                 (Job_Read \<lparr>r_handle = Some handle, r_fd = f, r_owned_fd = False, r_pos = pos,
                    r_want = Want_Exact len, r_buf = Buf_Owned [] len, r_filled = 0\<rparr>)
                 (Some handle) c d)
          | Dest_Into p len \<Rightarrow>
              (if len = 0 then Some (call_cb c (Inr (Reply_Read 0)) d)
               else enqueue K i
                 (Job_Read \<lparr>r_handle = Some handle, r_fd = f, r_owned_fd = False, r_pos = pos,
                    r_want = Want_Exact len, r_buf = Buf_External p len, r_filled = 0\<rparr>)
                 (Some handle) c d)))"

definition handle_read_to_end :: "'k kernel \<Rightarrow> nat \<Rightarrow> nat \<Rightarrow> u64 \<Rightarrow> cb \<Rightarrow> 'k aio \<Rightarrow> 'k aio option" where
  "handle_read_to_end K i handle pos c d = (case with_fd handle d of
       Inl e \<Rightarrow> Some (call_cb c (Inl e) d)
     | Inr f \<Rightarrow>
         (case with_os (fd_size K f) d of
            (r, d') \<Rightarrow>
              (let hint = (case r of Inr sz \<Rightarrow> unat (saturating_sub sz pos) | Inl _ \<Rightarrow> 0)
               in enqueue K i
                    (Job_Read \<lparr>r_handle = Some handle, r_fd = f, r_owned_fd = False, r_pos = pos,
                       r_want = Want_ToEnd, r_buf = Buf_Owned [] (max hint 1), r_filled = 0\<rparr>)
                    (Some handle) c d')))"

definition handle_write_at ::
  "'k kernel \<Rightarrow> nat \<Rightarrow> nat \<Rightarrow> u64 \<Rightarrow> payload \<Rightarrow> bool \<Rightarrow> cb \<Rightarrow> 'k aio \<Rightarrow> 'k aio option" where
  "handle_write_at K i handle pos data app c d = (case with_fd handle d of
       Inl e \<Rightarrow> Some (call_cb c (Inl e) d)
     | Inr f \<Rightarrow>
         (if payload_is_empty data
          then (case (if app then with_os (fd_size K f) d else (Inr pos, d)) of
                  (Inl e, d') \<Rightarrow> Some (call_cb c (Inl e) d')
                | (Inr end, d') \<Rightarrow> Some (call_cb c (Inr (Reply_Written 0 end)) d'))
          else enqueue K i
                 (Job_Write \<lparr>w_handle = Some handle, w_fd = f, w_owned_fd = False, w_pos = pos,
                    w_append = app, w_data = data, w_filled = 0\<rparr>)
                 (Some handle) c d))"

definition handle_sync :: "'k kernel \<Rightarrow> nat \<Rightarrow> nat \<Rightarrow> cb \<Rightarrow> 'k aio \<Rightarrow> 'k aio option" where
  "handle_sync K i handle c d = (case with_fd handle d of
       Inl e \<Rightarrow> Some (call_cb c (Inl e) d)
     | Inr f \<Rightarrow> enqueue K i (Job_Fsync \<lparr>f_handle = handle, f_fd = f\<rparr>) (Some handle) c d)"

definition handle_size :: "'k kernel \<Rightarrow> nat \<Rightarrow> cb \<Rightarrow> 'k aio \<Rightarrow> 'k aio" where
  "handle_size K handle c d = (case with_fd handle d of
       Inl e \<Rightarrow> call_cb c (Inl e) d
     | Inr f \<Rightarrow>
         (case with_os (fd_size K f) d of
            (Inl e, d') \<Rightarrow> call_cb c (Inl e) d'
          | (Inr sz, d') \<Rightarrow> call_cb c (Inr (Reply_Size sz)) d'))"

definition handle_set_len :: "'k kernel \<Rightarrow> nat \<Rightarrow> u64 \<Rightarrow> cb \<Rightarrow> 'k aio \<Rightarrow> 'k aio" where
  "handle_set_len K handle sz c d = (case with_fd handle d of
       Inl e \<Rightarrow> call_cb c (Inl e) d
     | Inr f \<Rightarrow>
         (case with_os (syscall (sys_ftruncate K f sz)) d of
            (r, d') \<Rightarrow> call_cb c (close_reply r) d'))"

definition read_spec :: open_spec where
  "read_spec = default_spec\<lparr>sp_read := True\<rparr>"

definition write_spec :: open_spec where
  "write_spec = default_spec\<lparr>sp_write := True, sp_create := True, sp_truncate := True\<rparr>"

fun handle_op :: "'k kernel \<Rightarrow> nat \<Rightarrow> op \<Rightarrow> cb \<Rightarrow> 'k aio \<Rightarrow> 'k aio option" where
  "handle_op K i Op_Nop c d = Some (call_cb c (Inr Reply_Unit) d)"
| "handle_op K i (Op_Open path spec) c d = open_then K i path spec After_Handle c d"
| "handle_op K i (Op_Close handle) c d = Some (close K handle c d)"
| "handle_op K i (Op_Size handle) c d = Some (handle_size K handle c d)"
| "handle_op K i (Op_SetLen handle sz) c d = Some (handle_set_len K handle sz c d)"
| "handle_op K i (Op_Sync handle data_only) c d = handle_sync K i handle c d"
| "handle_op K i (Op_ReadAt handle pos dst) c d = handle_read_at K i handle pos dst c d"
| "handle_op K i (Op_ReadToEnd handle pos) c d = handle_read_to_end K i handle pos c d"
| "handle_op K i (Op_WriteAt handle pos data app) c d = handle_write_at K i handle pos data app c d"
| "handle_op K i (Op_ReadFile path inline_max) c d =
     open_then K i path read_spec (After_ReadFile inline_max) c d"
| "handle_op K i (Op_WriteFile path data) c d =
     open_then K i path write_spec (After_WriteFile data) c d"

fun handle_msg :: "'k kernel \<Rightarrow> msg \<Rightarrow> 'k aio \<Rightarrow> 'k aio option" where
  "handle_msg K (Msg_Submit i oper c) d = handle_op K i oper c (d\<lparr>progress := True\<rparr>)"
| "handle_msg K (Msg_Cancel i) d = Some (cancel_op K i (d\<lparr>progress := True\<rparr>))"

section \<open>Reaping\<close>

text \<open>The \<open>match\<close> at the end of the loop in \<open>reap\<close>: what a finished request does.\<close>

definition settle_reaped ::
  "'k kernel \<Rightarrow> job \<Rightarrow> errno option \<Rightarrow> nat \<Rightarrow> byte list \<Rightarrow> 'k aio \<Rightarrow> 'k aio option" where
  "settle_reaped K j err n bs d = (case err of
       None \<Rightarrow> (case deliver_bytes j bs (os d) of (j', s) \<Rightarrow> advance K j' n (d\<lparr>os := s\<rparr>))
     | Some e \<Rightarrow> Some (finish K j (Inl (Os e)) d))"

text \<open>
  One iteration of the loop in \<open>reap\<close> at \<open>index\<close>, an index of an inflight entry: the
  next index and the driver.
\<close>

definition reap_one :: "'k kernel \<Rightarrow> nat \<Rightarrow> 'k aio \<Rightarrow> (nat \<times> 'k aio) option" where
  "reap_one K index d =
     (let entry = inflight d ! index; s = os d
      in case aio_error K (in_aiocb entry) (world s) of
           (err, w) \<Rightarrow>
             (if err = Some EINPROGRESS then Some (index + 1, d\<lparr>os := s\<lparr>world := w\<rparr>\<rparr>)
              else case aio_return K (in_aiocb entry) w of
                     ((n, bs), w') \<Rightarrow>
                       map_option (\<lambda>d. (index, d))
                         (settle_reaped K (in_job entry) err n bs
                            (d\<lparr>inflight := swap_remove (inflight d) index, progress := True,
                               os := s\<lparr>world := w'\<rparr>\<rparr>))))"

text \<open>The two ways an iteration goes.\<close>

lemma reap_one_cases:
  assumes "reap_one K k d = Some (k', d')"
  obtains (waiting) w where "k' = k + 1" and "d' = d\<lparr>os := (os d)\<lparr>world := w\<rparr>\<rparr>"
  | (settled) err n bs w where "k' = k" and
      "settle_reaped K (in_job (inflight d ! k)) err n bs
         (d\<lparr>inflight := swap_remove (inflight d) k, progress := True, os := (os d)\<lparr>world := w\<rparr>\<rparr>) = Some d'"
  using assms by (auto simp: reap_one_def Let_def split: prod.splits if_splits)

definition suspend :: "'k kernel \<Rightarrow> 'k aio \<Rightarrow> 'k aio" where
  "suspend K d =
     (let s = os d
      in d\<lparr>os := s\<lparr>world := aio_suspend K (map in_aiocb (inflight d)) (suspend_ns d) (world s)\<rparr>\<rparr>)"

definition lose_helpers :: "'k aio \<Rightarrow> 'k aio" where
  "lose_helpers d = d\<lparr>helpers_gone := True, pending_opens := {}\<rparr>"

text \<open>The end of a pass of \<open>run\<close>: the next wait.\<close>

definition adapt :: "'k aio \<Rightarrow> 'k aio" where
  "adapt d = d\<lparr>suspend_ns := (if progress d then SUSPEND_MIN_NS
                                else min (suspend_ns d * 2) SUSPEND_MAX_NS),
               progress := False\<rparr>"

end
