(* ===== verification/Aio_Ledger.thy ===== *)
theory Aio_Ledger
  imports Aio_Driver
begin

text \<open>
  Accounting for what the AIO driver must hand back: every callback it is given is
  invoked exactly once and every descriptor it opens is closed exactly once.  A state's
  \<open>ledger\<close> counts both kinds of token wherever they are: spent (in the log) or held (by
  a queued or inflight job, an entry of the file table, a job waiting for a helper).
  Each operation moves tokens and neither drops nor duplicates one.
\<close>

section \<open>Tokens\<close>

datatype token = T_cb cb | T_fd fd

fun spent_by :: "event \<Rightarrow> token multiset" where
  "spent_by (Ev_open f) = {#}"
| "spent_by (Ev_close f) = {#T_fd f#}"
| "spent_by (Ev_call c res) = {#T_cb c#}"

fun gained_by :: "event \<Rightarrow> token multiset" where
  "gained_by (Ev_open f) = {#T_fd f#}"
| "gained_by (Ev_close f) = {#}"
| "gained_by (Ev_call c res) = {#}"

definition spent :: "event list \<Rightarrow> token multiset" where
  "spent l = sum_list (map spent_by l)"

definition gained :: "event list \<Rightarrow> token multiset" where
  "gained l = sum_list (map gained_by l)"

definition job_tokens :: "job \<Rightarrow> token multiset" where
  "job_tokens j = add_mset (T_cb (j_cb j))
     (if kind_owned_fd (j_kind j) then {#T_fd (kind_fd (j_kind j))#} else {#})"

definition entry_tokens :: "file_entry \<Rightarrow> token multiset" where
  "entry_tokens e = add_mset (T_fd (fe_fd e))
     (case fe_closing e of None \<Rightarrow> {#} | Some c \<Rightarrow> {#T_cb c#})"

fun helper_tokens :: "helper_job \<Rightarrow> token multiset" where
  "helper_tokens (Helper_Open path spec p) = {#T_cb (po_cb p)#}"
| "helper_tokens (Helper_Close f) = {#T_fd f#}"

definition result_tokens :: "(fd \<times> u64) io \<Rightarrow> token multiset" where
  "result_tokens r = (case r of Inl _ \<Rightarrow> {#} | Inr (f, _) \<Rightarrow> {#T_fd f#})"

definition opened_tokens :: "opened_msg \<Rightarrow> token multiset" where
  "opened_tokens om = add_mset (T_cb (po_cb (op_pending om))) (result_tokens (op_result om))"

definition jobs :: "'k aio \<Rightarrow> job list" where
  "jobs d = queue d @ map in_job (inflight d)"

definition held :: "'k aio \<Rightarrow> token multiset" where
  "held d = sum_list (map job_tokens (jobs d)) + entries_sum entry_tokens (files d)
     + sum_list (map helper_tokens (pending (helper_tx d)))"

definition ledger :: "'k aio \<Rightarrow> token multiset" where
  "ledger d = spent (log (os d)) + held d"

text \<open>
  Between two states the tokens gained are the descriptors opened on the way and
  \<open>extra\<close>, what the operation was handed.
\<close>

definition accounts :: "token multiset \<Rightarrow> 'k aio \<Rightarrow> 'k aio \<Rightarrow> bool" where
  "accounts extra d d' \<longleftrightarrow>
     (finite (dom (files d)) \<longrightarrow>
        finite (dom (files d')) \<and>
        ledger d' + gained (log (os d)) = ledger d + gained (log (os d')) + extra)"

lemma spent_append [simp]: "spent (l @ l') = spent l + spent l'"
  by (simp add: spent_def)

lemma spent_simps [simp]: "spent (ev # l) = spent_by ev + spent l" "spent [] = {#}"
  by (simp_all add: spent_def)

lemma gained_append [simp]: "gained (l @ l') = gained l + gained l'"
  by (simp add: gained_def)

lemma gained_simps [simp]: "gained (ev # l) = gained_by ev + gained l" "gained [] = {#}"
  by (simp_all add: gained_def)

lemma accounts_refl [simp]: "accounts {#} d d"
  by (simp add: accounts_def)

lemma accounts_trans:
  assumes "accounts m d1 d2" and "accounts n d2 d3"
  shows "accounts (m + n) d1 d3"
proof -
  have "ledger d3 + gained (log (os d1)) = ledger d1 + gained (log (os d3)) + (m + n)"
    if "finite (dom (files d1))"
  proof -
    from assms that have
      a: "ledger d2 + gained (log (os d1)) = ledger d1 + gained (log (os d2)) + m" and
      b: "ledger d3 + gained (log (os d2)) = ledger d2 + gained (log (os d3)) + n"
      by (auto simp: accounts_def)
    from a b have "ledger d3 + gained (log (os d1)) + (ledger d2 + gained (log (os d2)))
        = ledger d1 + gained (log (os d3)) + (m + n) + (ledger d2 + gained (log (os d2)))"
      by (metis (no_types, opaque_lifting) add.assoc add.commute)
    then show ?thesis by simp
  qed
  with assms show ?thesis by (auto simp: accounts_def)
qed

section \<open>The log and the system calls\<close>

lemma log_syscall [simp]: "log (snd (syscall f s)) = log s"
  by (simp add: syscall_def split: prod.splits sum.splits)

lemma log_emit [simp]: "log (emit ev s) = log s @ [ev]"
  by (simp add: emit_def)

lemma log_invoke [simp]: "log (invoke c res s) = log s @ [Ev_call c res]"
  by (simp add: invoke_def)

lemma log_syscallD: "syscall f s = (r, s') \<Longrightarrow> log s' = log s"
  by (metis log_syscall snd_conv)

lemma log_fd_sizeD: "fd_size K f s = (r, s') \<Longrightarrow> log s' = log s"
  by (auto simp: fd_size_def split: prod.splits sum.splits dest!: log_syscallD)

lemma log_close_raw [simp]: "log (snd (close_raw K f s)) = log s @ [Ev_close f]"
  by (simp add: close_raw_def)

lemma log_regular_sizeD: "regular_size K f s = (r, s') \<Longrightarrow> log s' = log s"
  by (auto simp: regular_size_def split: prod.splits)

lemma log_open_rawD:
  "open_raw K path spec s = (r, s') \<Longrightarrow>
     log s' = log s @ (case r of Inl _ \<Rightarrow> [] | Inr f \<Rightarrow> [Ev_open f])"
  by (auto simp: open_raw_def split: if_splits prod.splits sum.splits dest!: log_syscallD)

lemma open_sized_ledger:
  assumes "open_sized K path spec s = (r, s')"
  shows "spent (log s') + gained (log s) + result_tokens r = spent (log s) + gained (log s')"
proof (cases "open_raw K path spec s")
  case (Pair r1 s1)
  note raw = this
  show ?thesis
  proof (cases r1)
    case (Inl e)
    with raw assms show ?thesis
      by (auto simp: open_sized_def result_tokens_def dest!: log_open_rawD)
  next
    case (Inr f)
    obtain r2 s2 where size: "fd_size K f s1 = (r2, s2)" by (cases "fd_size K f s1")
    from raw Inr size have logs: "log s2 = log s @ [Ev_open f]"
      by (auto dest!: log_open_rawD log_fd_sizeD)
    with raw Inr size assms show ?thesis
      by (cases r2) (auto simp: open_sized_def result_tokens_def)
  qed
qed

lemma open_for_ledger:
  assumes "open_for K path spec next s = (r, s')"
  shows "spent (log s') + gained (log s) + result_tokens r = spent (log s) + gained (log s')"
proof (cases "next")
  case (After_WriteFile data)
  with assms show ?thesis
    by (auto simp: open_for_def result_tokens_def split: prod.splits sum.splits dest!: log_open_rawD)
qed (use assms in \<open>auto simp: open_for_def intro: open_sized_ledger\<close>)

section \<open>What a chunk leaves alone\<close>

definition same_job :: "job \<Rightarrow> job \<Rightarrow> bool" where
  "same_job j j' \<longleftrightarrow> j_id j' = j_id j \<and> j_cb j' = j_cb j \<and> j_cancelled j' = j_cancelled j \<and>
     kind_handle (j_kind j') = kind_handle (j_kind j) \<and>
     kind_owned_fd (j_kind j') = kind_owned_fd (j_kind j) \<and>
     kind_fd (j_kind j') = kind_fd (j_kind j)"

lemma same_job_refl [simp]: "same_job j j"
  by (simp add: same_job_def)

lemma same_job_trans: "same_job i j \<Longrightarrow> same_job j k \<Longrightarrow> same_job i k"
  by (simp add: same_job_def)

lemma same_job_tokens: "same_job j j' \<Longrightarrow> job_tokens j' = job_tokens j"
  by (simp add: same_job_def job_tokens_def)

lemma deliver_bytes_same:
  assumes "deliver_bytes j bs s = (j', s')"
  shows "same_job j j' \<and> log s' = log s"
  using assms
  by (auto simp: deliver_bytes_def deliver_read_def same_job_def
      split: job_kind.splits read_buf.splits prod.splits)

lemma grow_same [simp]: "r_handle (grow r) = r_handle r" "r_owned_fd (grow r) = r_owned_fd r"
  "r_fd (grow r) = r_fd r" "r_filled (grow r) = r_filled r" "r_pos (grow r) = r_pos r"
  "r_want (grow r) = r_want r"
  by (simp_all add: grow_def split: read_buf.splits)

lemma log_completeD: "complete K r s = (b, s') \<Longrightarrow> log s' = log s"
  by (auto simp: complete_def split: want.splits prod.splits option.splits dest!: log_regular_sizeD)

lemma step_read_same:
  assumes "step_read K r n s = (res, r', s')"
  shows "r_handle r' = r_handle r \<and> r_owned_fd r' = r_owned_fd r \<and> r_fd r' = r_fd r \<and> log s' = log s"
  using assms by (auto simp: step_read_def Let_def split: if_splits prod.splits bool.splits dest!: log_completeD)

lemma step_write_same:
  assumes "step_write K w n s = (res, w', s')"
  shows "w_handle w' = w_handle w \<and> w_owned_fd w' = w_owned_fd w \<and> w_fd w' = w_fd w \<and> log s' = log s"
  using assms by (auto simp: step_write_def Let_def split: if_splits prod.splits sum.splits dest!: log_fd_sizeD)

lemma step_same:
  assumes "step K j n s = (res, j', s')"
  shows "same_job j j' \<and> log s' = log s"
  using assms
  by (auto simp: step_def same_job_def split: job_kind.splits prod.splits
      dest: step_read_same step_write_same)

lemma sync_chunk_same:
  assumes "sync_chunk K j s = (r, j', s')"
  shows "same_job j j' \<and> log s' = log s"
  using assms
  by (auto simp: sync_chunk_def Let_def split: job_kind.splits prod.splits sum.splits if_splits
      dest!: log_syscallD deliver_bytes_same)

lemma sync_loop_same:
  assumes "sync_loop K j s = Some (j', res, s')"
  shows "same_job j j' \<and> log s' = log s"
proof -
  let ?P = "\<lambda>K j s out. (case out of (j', res, s') \<Rightarrow> same_job j j' \<and> log s' = log s)"
  have "?P K j s (j', res, s')"
  proof (rule sync_loop.raw_induct [where P = ?P, OF _ assms], goal_cases)
    case (1 loop K j s out)
    then show ?case
      by (auto split: prod.splits sum.splits step_result.splits
          dest!: sync_chunk_same step_same intro: same_job_trans)
  qed
  then show ?thesis by simp
qed


section \<open>The operations keep the books\<close>

lemma with_osD: "with_os f d = (r, d') \<Longrightarrow> \<exists>s. f (os d) = (r, s) \<and> d' = d\<lparr>os := s\<rparr>"
  by (auto simp: with_os_def split: prod.splits)

lemma log_close_rawD: "close_raw K f s = (r, s') \<Longrightarrow> log s' = log s @ [Ev_close f]"
  by (metis log_close_raw snd_conv)

lemma jobs_simps [simp]:
  "jobs (d\<lparr>os := s\<rparr>) = jobs d" "jobs (d\<lparr>files := fs\<rparr>) = jobs d"
  "jobs (d\<lparr>helper_tx := h\<rparr>) = jobs d" "jobs (d\<lparr>progress := b\<rparr>) = jobs d"
  "jobs (d\<lparr>pending_opens := P\<rparr>) = jobs d" "jobs (d\<lparr>cancelled_opens := P\<rparr>) = jobs d"
  "jobs (d\<lparr>next_id := n\<rparr>) = jobs d"
  by (simp_all add: jobs_def)

lemma accounts_frame:
  assumes "files d' = files d" "helper_tx d' = helper_tx d" "jobs d' = jobs d" "log (os d') = log (os d)"
  shows "accounts {#} d d'"
  using assms by (simp add: accounts_def ledger_def held_def)

lemma accounts_cong:
  assumes "accounts m e e'" and "files d = files e" "helper_tx d = helper_tx e" "jobs d = jobs e"
    "log (os d) = log (os e)"
  shows "accounts m d e'"
  using assms by (simp add: accounts_def ledger_def held_def)

lemma accounts_call_cb [simp]: "accounts {#T_cb c#} d (call_cb c res d)"
  by (simp add: accounts_def ledger_def held_def call_cb_def)

lemma accounts_run_close [simp]: "accounts {#T_fd f#} d (run_close K f d)"
  by (simp add: accounts_def ledger_def held_def run_close_def with_os_def case_prod_beta)

lemma accounts_close_owned [simp]: "accounts {#T_fd f#} d (close_owned K f d)"
proof -
  have "accounts {#T_fd f#} d (d\<lparr>helper_tx := (helper_tx d)\<lparr>pending := pending (helper_tx d) @ [Helper_Close f]\<rparr>\<rparr>)"
    by (simp add: accounts_def ledger_def held_def)
  then show ?thesis by (simp add: close_owned_def send_def)
qed

lemma accounts_remove_entry:
  assumes "files d handle = Some e"
    and "log s = log (os d) @ [Ev_close (fe_fd e)]"
    and "fe_closing e = Some c"
  shows "accounts {#} d (call_cb c res (d\<lparr>files := (files d)(handle := None), os := s\<rparr>))"
  using assms entries_sum_remove [of "files d" handle e entry_tokens]
  by (auto simp: accounts_def ledger_def held_def call_cb_def entry_tokens_def)

lemma accounts_update_entry:
  assumes "files d handle = Some e" and "entry_tokens e' = entry_tokens e + m"
  shows "accounts m d (d\<lparr>files := (files d)(handle \<mapsto> e')\<rparr>)"
  using assms entries_sum_remove [of "files d" handle e entry_tokens]
  by (auto simp: accounts_def ledger_def held_def entries_sum_update)

lemma accounts_release [simp]: "accounts {#} d (release K handle d)"
proof (cases "files d handle")
  case (Some e)
  let ?e = "e\<lparr>fe_ops := fe_ops e - 1\<rparr>"
  let ?d = "d\<lparr>files := (files d)(handle \<mapsto> ?e)\<rparr>"
  have upd: "accounts {#} d ?d"
    using Some by (intro accounts_update_entry) (auto simp: entry_tokens_def)
  show ?thesis
  proof (cases "fe_closing e")
    case None
    with Some upd show ?thesis by (simp add: release_def Let_def)
  next
    case (Some c)
    obtain r s where cl: "close_raw K (fe_fd e) (os d) = (r, s)" by (cases "close_raw K (fe_fd e) (os d)")
    have "accounts {#} ?d (call_cb c (close_reply r) (?d\<lparr>files := (files ?d)(handle := None), os := s\<rparr>))"
      by (rule accounts_remove_entry [where e = ?e]) (use Some cl in \<open>auto dest: log_close_rawD\<close>)
    from accounts_trans [OF upd this] show ?thesis
      using upd Some \<open>files d handle = Some e\<close> cl by (simp add: release_def Let_def with_os_def)
  qed
qed (simp add: release_def)

lemma accounts_finish [simp]: "accounts (job_tokens j) d (finish K j res d)"
proof -
  let ?k = "j_kind j"
  let ?d1 = "if kind_owned_fd ?k then close_owned K (kind_fd ?k) d else d"
  let ?d2 = "call_cb (j_cb j) res ?d1"
  have "accounts (if kind_owned_fd ?k then {#T_fd (kind_fd ?k)#} else {#}) d ?d1" by simp
  from accounts_trans [OF this accounts_call_cb]
  have two: "accounts (job_tokens j) d ?d2" by (simp add: job_tokens_def add_mset_commute)
  from accounts_trans [OF two accounts_release] have "accounts (job_tokens j) d (release K h ?d2)" for h
    by simp
  with two show ?thesis by (cases "kind_handle ?k") (simp_all only: finish_def Let_def option.case)
qed

lemma accounts_execute_sync:
  assumes "execute_sync K j d = Some d'"
  shows "accounts (job_tokens j) d d'"
proof -
  from assms obtain j' res s where loop: "sync_loop K j (os d) = Some (j', res, s)"
    and d': "d' = finish K j' res (d\<lparr>os := s\<rparr>)"
    by (auto simp: execute_sync_def split: option.splits)
  from sync_loop_same [OF loop] have "job_tokens j' = job_tokens j" and "log s = log (os d)"
    by (simp_all add: same_job_tokens)
  with d' accounts_finish [of j' "d\<lparr>os := s\<rparr>" K res] show ?thesis
    by (auto intro: accounts_cong)
qed

lemma accounts_submit_job:
  assumes "submit_job K j d = Some (r, d')"
  shows "case r of Submitted_Inflight \<Rightarrow> accounts (job_tokens j) d d'
    | Submitted_Full j' \<Rightarrow> j' = j \<and> accounts {#} d d'"
proof -
  obtain res s where sys: "syscall (aio_submit K (control_block j)) (os d) = (res, s)"
    by (cases "syscall (aio_submit K (control_block j)) (os d)")
  then have logs: "log s = log (os d)" by (rule log_syscallD)
  have base: "accounts {#} d (d\<lparr>os := s\<rparr>)" using logs by (simp add: accounts_frame)
  show ?thesis
  proof (cases res)
    case (Inr u)
    with sys assms logs show ?thesis
      by (auto simp: submit_job_def with_os_def accounts_def ledger_def held_def jobs_def)
  next
    case (Inl e)
    have fin: "accounts (job_tokens j) d (finish K j x (d\<lparr>os := s\<rparr>))" for x
      using accounts_trans [OF base accounts_finish] by simp
    have sync: "accounts (job_tokens j) d d2" if "execute_sync K j (d\<lparr>os := s\<rparr>) = Some d2" for d2
      using accounts_trans [OF base accounts_execute_sync [OF that]] by simp
    from Inl sys assms base fin sync show ?thesis
      by (auto simp: submit_job_def with_os_def split: if_splits)
  qed
qed

lemma accounts_submit_ready:
  assumes "submit_ready K d = Some d'"
  shows "accounts {#} d d'"
proof (rule submit_ready_rule [OF assms, where Q = "\<lambda>j e. \<forall>m d2. accounts (job_tokens j + m) e d2 \<longrightarrow> accounts m d d2"])
  show "accounts {#} d d" by simp
next
  fix e j rest
  assume "accounts {#} d e" and q: "queue e = j # rest"
  moreover have "accounts m e d2" if "accounts (job_tokens j + m) (e\<lparr>queue := rest\<rparr>) d2" for m d2
    using that q by (simp add: accounts_def ledger_def held_def jobs_def algebra_simps)
  ultimately show "\<forall>m d2. accounts (job_tokens j + m) (e\<lparr>queue := rest\<rparr>) d2 \<longrightarrow> accounts m d d2"
    using accounts_trans [of "{#}" d e] by fastforce
next
  fix j and e e' :: "'a aio"
  assume "\<forall>m d2. accounts (job_tokens j + m) e d2 \<longrightarrow> accounts m d d2"
    and sub: "submit_job K j e = Some (Submitted_Inflight, e')"
  then show "accounts {#} d e'" using accounts_submit_job [OF sub] by simp
next
  fix j j' and e e' :: "'a aio"
  assume owed: "\<forall>m d2. accounts (job_tokens j + m) e d2 \<longrightarrow> accounts m d d2"
    and sub: "submit_job K j e = Some (Submitted_Full j', e')"
  from accounts_submit_job [OF sub] have "j' = j" and acc: "accounts {#} e e'" by simp_all
  have "accounts (job_tokens j) e' (e'\<lparr>queue := j' # queue e'\<rparr>)"
    using \<open>j' = j\<close> by (simp add: accounts_def ledger_def held_def jobs_def algebra_simps)
  from accounts_trans [OF acc this] owed show "accounts {#} d (e'\<lparr>queue := j' # queue e'\<rparr>)" by simp
qed

lemma accounts_push_back:
  "accounts (job_tokens j) d (d\<lparr>queue := queue d @ [j]\<rparr>)"
  by (simp add: accounts_def ledger_def held_def jobs_def algebra_simps)

lemma accounts_push_front:
  "accounts (job_tokens j) d (d\<lparr>queue := j # queue d\<rparr>)"
  by (simp add: accounts_def ledger_def held_def jobs_def algebra_simps)

lemma accounts_set_ops:
  "files d h = Some e \<Longrightarrow> accounts {#} d (d\<lparr>files := (files d)(h \<mapsto> e\<lparr>fe_ops := n\<rparr>)\<rparr>)"
  by (rule accounts_update_entry) (auto simp: entry_tokens_def)

lemma accounts_retain: "accounts {#} d (retain handle d)"
  by (auto simp: retain_def intro: accounts_set_ops split: option.split)

lemma accounts_enqueue:
  assumes "enqueue K i kind handle c d = Some d'"
  shows "accounts (job_tokens \<lparr>j_id = i, j_cancelled = False, j_kind = kind, j_cb = c\<rparr>) d d'"
proof -
  let ?d = "retain handle d" and ?j = "\<lparr>j_id = i, j_cancelled = False, j_kind = kind, j_cb = c\<rparr>"
  from assms have run: "submit_ready K (?d\<lparr>queue := queue ?d @ [?j]\<rparr>) = Some d'"
    by (simp add: enqueue_def Let_def)
  from accounts_trans [OF accounts_trans [OF accounts_retain accounts_push_back] accounts_submit_ready [OF run]]
  show ?thesis by simp
qed

lemma accounts_advance:
  assumes "advance K j n d = Some d'"
  shows "accounts (job_tokens j) d d'"
proof -
  obtain res j' s where st: "step K j n (os d) = (res, j', s)" by (cases "step K j n (os d)")
  from step_same [OF st] have tok: "job_tokens j' = job_tokens j" and logs: "log s = log (os d)"
    by (simp_all add: same_job_tokens)
  have base: "accounts {#} d (d\<lparr>os := s\<rparr>)" using logs by (simp add: accounts_frame)
  have fin: "accounts (job_tokens j) d (finish K j' x (d\<lparr>os := s\<rparr>))" for x
    using accounts_trans [OF base accounts_finish, of j' K x] tok by simp
  have more: "accounts (job_tokens j) d d'" if "submit_ready K (d\<lparr>os := s, queue := j' # queue d\<rparr>) = Some d'"
    using accounts_trans [OF accounts_trans [OF base accounts_push_front [of j']] accounts_submit_ready, of K d'] that tok
    by simp
  from assms st fin more show ?thesis
    by (auto simp: advance_def split: step_result.splits if_splits)
qed

lemma accounts_register:
  assumes "register f sz d = (r, d')" and "files d (next_id d) = None"
  shows "accounts {#T_fd f#} d d'"
  using assms
  by (auto simp: register_def Let_def accounts_def ledger_def held_def entries_sum_insert entry_tokens_def)

definition fresh_id :: "'k aio \<Rightarrow> bool" where
  "fresh_id d \<longleftrightarrow> (\<forall>h. next_id d \<le> h \<longrightarrow> files d h = None)"

lemma accounts_opened:
  assumes "opened K p result d = Some d'" and "fresh_id d"
  shows "accounts (add_mset (T_cb (po_cb p)) (result_tokens result)) d d'"
proof (cases result)
  case (Inl e)
  with assms show ?thesis by (auto simp: opened_def result_tokens_def)
next
  case (Inr fs)
  obtain f sz where fs: "fs = (f, sz)" by (cases fs)
  obtain r d1 where reg: "register f sz d = (r, d1)" by (cases "register f sz d")
  have "accounts {#T_fd f#} d d1"
    by (rule accounts_register [OF reg]) (use assms(2) in \<open>simp add: fresh_id_def\<close>)
  from accounts_trans [OF this accounts_call_cb]
  have handle: "accounts {#T_cb (po_cb p), T_fd f#} d (call_cb (po_cb p) (Inr r) d1)"
    by (metis add_mset_commute add_mset_add_single)
  have enq: "accounts {#T_cb (po_cb p), T_fd f#} d d'"
    if "enqueue K (po_id p) kind None (po_cb p) d = Some d'" "kind_owned_fd kind" "kind_fd kind = f" for kind
    using accounts_enqueue [OF that(1)] that(2,3) by (simp add: job_tokens_def)
  show ?thesis
  proof (cases "po_then p")
    case After_Handle
    with assms(1) Inr fs reg handle show ?thesis by (simp add: opened_def result_tokens_def)
  next
    case (After_ReadFile m)
    with assms(1) Inr fs reg handle enq show ?thesis
      by (auto simp: opened_def result_tokens_def split: if_splits)
  next
    case (After_WriteFile data)
    with assms(1) Inr fs enq show ?thesis by (auto simp: opened_def result_tokens_def)
  qed
qed

text \<open>Swapping one state for another with the same holdings, under a balanced log.\<close>

lemma ledger_shift:
  fixes s s' g g' g2 L H R T :: "token multiset"
  assumes "s' + g + R = s + g'" and "L + g' = s' + H + g2 + (T + R)"
  shows "L + g = s + H + g2 + T"
proof -
  have "(L + g) + g' = (L + g') + g" by (simp add: ac_simps)
  also have "\<dots> = (s' + g + R) + (H + g2 + T)" by (simp add: assms(2) ac_simps)
  also have "\<dots> = (s + H + g2 + T) + g'" by (simp only: assms(1)) (simp add: ac_simps)
  finally show ?thesis by simp
qed

lemma accounts_swap_log:
  assumes "accounts (T + R) (d\<lparr>os := s\<rparr>) d'"
    and "spent (log s) + gained (log (os d)) + R = spent (log (os d)) + gained (log s)"
  shows "accounts T d d'"
  using assms(1) ledger_shift [OF assms(2)] by (auto simp: accounts_def ledger_def held_def)

lemma accounts_open_here:
  assumes "open_here K path spec p d = Some d'" and "fresh_id d"
  shows "accounts {#T_cb (po_cb p)#} d d'"
proof -
  obtain r s where op: "open_for K path spec (po_then p) (os d) = (r, s)"
    by (cases "open_for K path spec (po_then p) (os d)")
  with assms(1) have "opened K p r (d\<lparr>os := s\<rparr>) = Some d'" by (simp add: open_here_def with_os_def)
  moreover from assms(2) have "fresh_id (d\<lparr>os := s\<rparr>)" by (simp add: fresh_id_def)
  ultimately have "accounts (add_mset (T_cb (po_cb p)) (result_tokens r)) (d\<lparr>os := s\<rparr>) d'"
    by (rule accounts_opened)
  then have "accounts ({#T_cb (po_cb p)#} + result_tokens r) (d\<lparr>os := s\<rparr>) d'" by simp
  then show ?thesis using open_for_ledger [OF op] by (rule accounts_swap_log)
qed

lemma accounts_open_then:
  assumes "open_then K i path spec thn c d = Some d'" and "fresh_id d"
  shows "accounts {#T_cb c#} d d'"
proof (cases "has_backlog d \<and> receivers (helper_tx d)")
  case True
  with assms(1) show ?thesis
    by (auto simp: open_then_def Let_def send_def accounts_def ledger_def held_def)
next
  case False
  let ?p = "\<lparr>po_id = i, po_then = thn, po_cb = c\<rparr>"
  obtain P where run: "open_here K path spec ?p (d\<lparr>pending_opens := P\<rparr>) = Some d'"
  proof (cases "has_backlog d")
    case True
    with False assms(1) show ?thesis
      using that by (auto simp: open_then_def Let_def send_def run_here_def)
  next
    case False
    with assms(1) show ?thesis
      using that [of "pending_opens d"] by (simp add: open_then_def Let_def)
  qed
  have "accounts {#T_cb c#} (d\<lparr>pending_opens := P\<rparr>) d'"
    using accounts_open_here [OF run] assms(2) by (simp add: fresh_id_def)
  then show ?thesis by (rule accounts_cong) simp_all
qed

lemma accounts_handle_opened:
  assumes "handle_opened K om d = Some d'" and "fresh_id d"
  shows "accounts (opened_tokens om) d d'"
proof -
  let ?p = "op_pending om"
  let ?d = "d\<lparr>progress := True, pending_opens := pending_opens d - {po_id ?p}\<rparr>"
  show ?thesis
  proof (cases "po_id ?p \<in> cancelled_opens d")
    case True
    let ?e = "?d\<lparr>cancelled_opens := cancelled_opens d - {po_id ?p}\<rparr>"
    let ?f = "case op_result om of Inr (f, _) \<Rightarrow> run_close K f ?e | Inl _ \<Rightarrow> ?e"
    have "accounts (result_tokens (op_result om)) d ?f"
      by (rule accounts_cong [where e = ?e]) (auto simp: result_tokens_def split: sum.split prod.split)
    from accounts_trans [OF this accounts_call_cb] True assms(1) show ?thesis
      by (auto simp: handle_opened_def Let_def opened_tokens_def)
  next
    case False
    with assms(1) have "opened K ?p (op_result om) ?d = Some d'"
      by (simp add: handle_opened_def Let_def)
    moreover from assms(2) have "fresh_id ?d" by (simp add: fresh_id_def)
    ultimately have "accounts (opened_tokens om) ?d d'"
      unfolding opened_tokens_def by (rule accounts_opened)
    then show ?thesis by (rule accounts_cong) simp_all
  qed
qed


lemma accounts_remove_job:
  assumes "pos < length (queue d)"
  shows "accounts (job_tokens (queue d ! pos) + m) (d\<lparr>queue := remove_at (queue d) pos\<rparr>) d' \<Longrightarrow> accounts m d d'"
proof -
  have "sum_mset (image_mset job_tokens (mset (queue d))) =
      job_tokens (queue d ! pos) + sum_mset (image_mset job_tokens (mset (remove_at (queue d) pos)))"
    by (subst mset_remove_at [OF assms]) simp
  then have "sum_list (map job_tokens (queue d)) =
      job_tokens (queue d ! pos) + sum_list (map job_tokens (remove_at (queue d) pos))"
    by (metis mset_map sum_mset_sum_list)
  then show "accounts (job_tokens (queue d ! pos) + m) (d\<lparr>queue := remove_at (queue d) pos\<rparr>) d' \<Longrightarrow> accounts m d d'"
    by (simp add: accounts_def ledger_def held_def jobs_def algebra_simps)
qed

lemma accounts_remove_inflight:
  assumes "k < length (inflight d)"
  shows "accounts (job_tokens (in_job (inflight d ! k)) + m) (d\<lparr>inflight := swap_remove (inflight d) k\<rparr>) d'
    \<Longrightarrow> accounts m d d'"
proof -
  let ?f = "\<lambda>e. job_tokens (in_job e)"
  have "sum_mset (image_mset ?f (mset (inflight d))) =
      ?f (inflight d ! k) + sum_mset (image_mset ?f (mset (swap_remove (inflight d) k)))"
    by (subst mset_swap_remove [OF assms]) simp
  then have "sum_list (map ?f (inflight d)) =
      ?f (inflight d ! k) + sum_list (map ?f (swap_remove (inflight d) k))"
    by (metis mset_map sum_mset_sum_list)
  then show "accounts (?f (inflight d ! k) + m) (d\<lparr>inflight := swap_remove (inflight d) k\<rparr>) d' \<Longrightarrow> accounts m d d'"
    by (simp add: accounts_def ledger_def held_def jobs_def comp_def algebra_simps)
qed

lemma accounts_update_inflight:
  assumes "k < length (inflight d)" and "job_tokens (in_job e) = job_tokens (in_job (inflight d ! k))"
    and "log s = log (os d)"
  shows "accounts {#} d (d\<lparr>inflight := (inflight d)[k := e], os := s\<rparr>)"
proof -
  have "map (\<lambda>e. job_tokens (in_job e)) ((inflight d)[k := e]) = map (\<lambda>e. job_tokens (in_job e)) (inflight d)"
    using assms by (simp add: map_update list_update_same_conv)
  then show ?thesis using assms(3) by (simp add: accounts_def ledger_def held_def jobs_def comp_def)
qed

lemma accounts_cancel_op: "accounts {#} d (cancel_op K i d)"
proof (cases "position (\<lambda>j. j_id j = i) (queue d)")
  case (Some pos)
  then have "pos < length (queue d)" by (simp add: position_SomeD)
  then show ?thesis by (rule accounts_remove_job) (simp add: cancel_op_def Some)
next
  case None
  note queue_none = None
  show ?thesis
  proof (cases "position (\<lambda>entry. j_id (in_job entry) = i) (inflight d)")
    case None
    have "accounts {#} d (d\<lparr>cancelled_opens := P\<rparr>)" for P by (simp add: accounts_frame)
    then show ?thesis by (simp add: cancel_op_def queue_none None)
  next
    case (Some k)
    then have "k < length (inflight d)" by (simp add: position_SomeD)
    then show ?thesis
      by (auto simp: cancel_op_def queue_none Some Let_def job_tokens_def intro!: accounts_update_inflight)
  qed
qed

lemma accounts_fd_size: "with_os (fd_size K f) d = (r, d') \<Longrightarrow> accounts {#} d d'"
  by (auto dest!: with_osD log_fd_sizeD intro: accounts_frame)

lemma accounts_syscall: "with_os (syscall f) d = (r, d') \<Longrightarrow> accounts {#} d d'"
  by (auto dest!: with_osD log_syscallD intro: accounts_frame)

lemma accounts_close:
  "accounts {#T_cb c#} d (close K handle c d)"
proof (cases "files d handle")
  case (Some e)
  show ?thesis
  proof (cases "fe_closing e = None \<and> fe_ops e = 0")
    case True
    obtain r s where cl: "close_raw K (fe_fd e) (os d) = (r, s)" by (cases "close_raw K (fe_fd e) (os d)")
    let ?d = "d\<lparr>files := (files d)(handle \<mapsto> e\<lparr>fe_closing := Some c\<rparr>)\<rparr>"
    have "accounts {#T_cb c#} d ?d"
      using True Some by (intro accounts_update_entry) (auto simp: entry_tokens_def)
    moreover have "accounts {#} ?d (call_cb c (close_reply r) (?d\<lparr>files := (files ?d)(handle := None), os := s\<rparr>))"
      by (rule accounts_remove_entry [where e = "e\<lparr>fe_closing := Some c\<rparr>"])
         (use cl in \<open>auto dest: log_close_rawD\<close>)
    ultimately have "accounts ({#T_cb c#} + {#}) d (call_cb c (close_reply r) (?d\<lparr>files := (files ?d)(handle := None), os := s\<rparr>))"
      by (rule accounts_trans)
    with True Some cl show ?thesis by (simp add: close_def with_os_def)
  next
    case False
    have "accounts {#T_cb c#} d (d\<lparr>files := (files d)(handle \<mapsto> e\<lparr>fe_closing := Some c\<rparr>)\<rparr>)"
      if "fe_closing e = None"
      using that Some by (intro accounts_update_entry) (auto simp: entry_tokens_def)
    with False Some show ?thesis by (auto simp: close_def)
  qed
qed (simp add: close_def)

lemma accounts_enqueue_handle:
  assumes "enqueue K i kind handle c d = Some d'" and "\<not> kind_owned_fd kind"
  shows "accounts {#T_cb c#} d d'"
  using accounts_enqueue [OF assms(1)] assms(2) by (simp add: job_tokens_def)

lemma accounts_then_call:
  assumes "accounts {#} d d1"
  shows "accounts {#T_cb c#} d (call_cb c res d1)"
  using accounts_trans [OF assms accounts_call_cb] by simp

lemma accounts_then_enqueue:
  assumes "accounts {#} d d1" and "enqueue K i kind handle c d1 = Some d'" and "\<not> kind_owned_fd kind"
  shows "accounts {#T_cb c#} d d'"
  using accounts_trans [OF assms(1) accounts_enqueue_handle [OF assms(2,3)]] by simp

lemma accounts_handle_op:
  assumes "handle_op K i oper c d = Some d'" and "fresh_id d"
  shows "accounts {#T_cb c#} d d'"
proof (cases oper)
  case (Op_ReadAt h pos dst)
  with assms show ?thesis
    by (auto simp: handle_read_at_def split: sum.splits dest.splits if_splits dest: accounts_enqueue_handle)
next
  case (Op_ReadToEnd h pos)
  with assms show ?thesis
    by (auto simp: handle_read_to_end_def Let_def split: sum.splits prod.splits
        dest!: accounts_fd_size intro: accounts_then_enqueue)
next
  case (Op_WriteAt h pos data app)
  with assms show ?thesis
    by (auto simp: handle_write_at_def split: sum.splits prod.splits if_splits
        dest: accounts_fd_size accounts_enqueue_handle intro: accounts_then_call)
next
  case (Op_Sync h data_only)
  with assms show ?thesis
    by (auto simp: handle_sync_def split: sum.splits dest: accounts_enqueue_handle)
next
  case (Op_Size h)
  with assms show ?thesis
    by (auto simp: handle_size_def split: sum.splits prod.splits dest: accounts_fd_size intro: accounts_then_call)
next
  case (Op_SetLen h sz)
  with assms show ?thesis
    by (auto simp: handle_set_len_def split: sum.splits prod.splits dest: accounts_syscall intro: accounts_then_call)
qed (use assms in \<open>auto simp: accounts_close intro: accounts_open_then\<close>)

fun msg_tokens :: "msg \<Rightarrow> token multiset" where
  "msg_tokens (Msg_Submit i oper c) = {#T_cb c#}"
| "msg_tokens (Msg_Cancel i) = {#}"

lemma accounts_handle_msg:
  assumes "handle_msg K m d = Some d'" and "fresh_id d"
  shows "accounts (msg_tokens m) d d'"
proof -
  have "accounts (msg_tokens m) (d\<lparr>progress := True\<rparr>) d'"
    using assms by (cases m) (auto intro: accounts_handle_op accounts_cancel_op simp: fresh_id_def)
  then show ?thesis by (rule accounts_cong) simp_all
qed

lemma accounts_settle_reaped:
  assumes "settle_reaped K j err n bs d = Some d'"
  shows "accounts (job_tokens j) d d'"
proof (cases err)
  case (Some e)
  with assms show ?thesis by (auto simp: settle_reaped_def)
next
  case None
  obtain j' s where del: "deliver_bytes j bs (os d) = (j', s)" by (cases "deliver_bytes j bs (os d)")
  with None assms have adv: "advance K j' n (d\<lparr>os := s\<rparr>) = Some d'" by (simp add: settle_reaped_def)
  from deliver_bytes_same [OF del] have "job_tokens j' = job_tokens j" and "log s = log (os d)"
    by (simp_all add: same_job_tokens)
  with accounts_advance [OF adv] show ?thesis by (auto intro: accounts_cong)
qed

lemma accounts_reap_one:
  assumes "reap_one K k d = Some (k', d')" and "k < length (inflight d)"
  shows "accounts {#} d d'"
  using assms(1)
proof (cases rule: reap_one_cases)
  case (waiting w)
  then show ?thesis by (simp add: accounts_frame)
next
  case (settled err n bs w)
  let ?j = "in_job (inflight d ! k)"
  from accounts_settle_reaped [OF settled(2)]
  have "accounts (job_tokens ?j + {#}) (d\<lparr>inflight := swap_remove (inflight d) k\<rparr>) d'"
    by (auto simp: jobs_def intro: accounts_cong)
  with assms(2) show ?thesis by (rule accounts_remove_inflight)
qed

end
