(* ===== verification/Aio_Table.thy ===== *)
theory Aio_Table
  imports Aio_Ledger
begin

text \<open>
  The file table of the AIO driver agrees with its jobs: an entry's \<open>ops\<close> counts the
  queued and inflight jobs on its handle, a job on a handle carries that handle's
  descriptor, a handle whose close is waiting has a job to wait for, and no number at or
  past \<open>next_id\<close> names a file.  Every operation keeps it.
\<close>

section \<open>The invariant\<close>

text \<open>What the table has to know of a job: its handle, who owns its descriptor, and which.\<close>

type_synonym job_key = "nat option \<times> bool \<times> fd"

definition kind_key :: "job_kind \<Rightarrow> job_key" where
  "kind_key k = (kind_handle k, kind_owned_fd k, kind_fd k)"

definition keys :: "'k aio \<Rightarrow> job_key multiset" where
  "keys d = image_mset (\<lambda>j. kind_key (j_kind j)) (mset (jobs d))"

definition ops_on :: "nat \<Rightarrow> job_key multiset \<Rightarrow> nat" where
  "ops_on h Ks = size (filter_mset (\<lambda>k. fst k = Some h) Ks)"

definition key_ok :: "(nat \<Rightarrow> file_entry option) \<Rightarrow> job_key \<Rightarrow> bool" where
  "key_ok fs k = (case k of
       (None, owned, f) \<Rightarrow> owned
     | (Some h, owned, f) \<Rightarrow> \<not> owned \<and> (\<exists>e. fs h = Some e \<and> fe_fd e = f))"

definition entry_ok :: "file_entry \<Rightarrow> nat \<Rightarrow> bool" where
  "entry_ok e n \<longleftrightarrow> fe_ops e = n \<and> (fe_closing e \<noteq> None \<longrightarrow> 0 < n)"

definition table_inv :: "(nat \<Rightarrow> file_entry option) \<Rightarrow> nat \<Rightarrow> job_key multiset \<Rightarrow> bool" where
  "table_inv fs n Ks \<longleftrightarrow>
     (\<forall>h. n \<le> h \<longrightarrow> fs h = None) \<and>
     (\<forall>h e. fs h = Some e \<longrightarrow> entry_ok e (ops_on h Ks)) \<and>
     (\<forall>k \<in># Ks. key_ok fs k)"

text \<open>\<open>Ks\<close> are the keys of jobs an operation holds in its hands.\<close>

definition tinv :: "job_key multiset \<Rightarrow> 'k aio \<Rightarrow> bool" where
  "tinv Ks d \<longleftrightarrow> table_inv (files d) (next_id d) (Ks + keys d)"

lemma tinv_fresh: "tinv Ks d \<Longrightarrow> fresh_id d"
  by (simp add: tinv_def table_inv_def fresh_id_def)

lemma tinv_finite: "tinv Ks d \<Longrightarrow> finite (dom (files d))"
proof -
  assume "tinv Ks d"
  then have "dom (files d) \<subseteq> {..<next_id d}"
    by (auto simp: tinv_def table_inv_def) (metis not_le option.distinct(1))
  then show ?thesis by (rule finite_subset) simp
qed

lemma tinv_frame:
  assumes "tinv Ks d" and "files d' = files d" "next_id d' = next_id d" "keys d' = keys d"
  shows "tinv Ks d'"
  using assms by (simp add: tinv_def)

lemma keys_simps [simp]:
  "keys (d\<lparr>os := s\<rparr>) = keys d" "keys (d\<lparr>files := fs\<rparr>) = keys d"
  "keys (d\<lparr>helper_tx := h\<rparr>) = keys d" "keys (d\<lparr>progress := b\<rparr>) = keys d"
  "keys (d\<lparr>pending_opens := P\<rparr>) = keys d" "keys (d\<lparr>cancelled_opens := P\<rparr>) = keys d"
  "keys (d\<lparr>next_id := n\<rparr>) = keys d"
  "keys (d\<lparr>queue := j # q\<rparr>) = add_mset (kind_key (j_kind j)) (keys (d\<lparr>queue := q\<rparr>))"
  "keys (d\<lparr>queue := q @ [j]\<rparr>) = add_mset (kind_key (j_kind j)) (keys (d\<lparr>queue := q\<rparr>))"
  "keys (d\<lparr>inflight := l @ [e]\<rparr>) = add_mset (kind_key (j_kind (in_job e))) (keys (d\<lparr>inflight := l\<rparr>))"
  by (simp_all add: keys_def) (simp_all add: jobs_def)

lemma same_job_key: "same_job j j' \<Longrightarrow> kind_key (j_kind j') = kind_key (j_kind j)"
  by (simp add: same_job_def kind_key_def)

lemma ops_on_add [simp]: "ops_on h (add_mset k Ks) = (if fst k = Some h then Suc (ops_on h Ks) else ops_on h Ks)"
  by (simp add: ops_on_def)

lemma ops_on_zero_iff: "ops_on h Ks = 0 \<longleftrightarrow> (\<forall>k \<in># Ks. fst k \<noteq> Some h)"
  unfolding ops_on_def size_eq_0_iff_empty filter_mset_eq_mempty_iff by blast

lemma key_ok_handle: "key_ok fs k \<Longrightarrow> fst k = Some h \<Longrightarrow> \<exists>e. fs h = Some e"
  by (auto simp: key_ok_def)

lemma key_ok_other:
  "key_ok fs k \<Longrightarrow> fst k \<noteq> Some h \<Longrightarrow> key_ok (fs(h := v)) k"
  by (auto simp: key_ok_def split: prod.splits option.splits)

section \<open>The table's own operations\<close>

lemma tinv_os [simp]: "tinv Ks (d\<lparr>os := s\<rparr>) = tinv Ks d"
  by (simp add: tinv_def)

lemma tinv_call_cb [simp]: "tinv Ks (call_cb c res d) = tinv Ks d"
  by (simp add: call_cb_def)

lemma tinv_run_close [simp]: "tinv Ks (run_close K f d) = tinv Ks d"
  by (simp add: run_close_def with_os_def case_prod_beta)

lemma tinv_helper_tx [simp]: "tinv Ks (d\<lparr>helper_tx := h\<rparr>) = tinv Ks d"
  by (simp add: tinv_def)

lemma tinv_close_owned [simp]: "tinv Ks (close_owned K f d) = tinv Ks d"
  by (simp add: close_owned_def send_def)

lemma table_inv_other:
  assumes "table_inv fs n Ks" and "fs h = Some e" and "fe_fd e' = fe_fd e"
    and "entry_ok e' (ops_on h Ks')" and "\<And>h'. h' \<noteq> h \<Longrightarrow> ops_on h' Ks' = ops_on h' Ks"
    and "\<And>k. k \<in># Ks' \<Longrightarrow> k \<in># Ks \<or> key_ok fs k"
  shows "table_inv (fs(h \<mapsto> e')) n Ks'"
proof -
  have keep: "key_ok (fs(h \<mapsto> e')) k" if "key_ok fs k" for k
    using that assms(2,3) by (auto simp: key_ok_def split: prod.splits option.splits)
  show ?thesis
    using assms keep unfolding table_inv_def by (auto split: if_splits) (metis keep)+
qed

lemma table_inv_drop:
  assumes "table_inv fs n Ks'" and "Ks \<subseteq># Ks'" and "ops_on h Ks = 0"
    and "\<And>h'. h' \<noteq> h \<Longrightarrow> ops_on h' Ks = ops_on h' Ks'"
  shows "table_inv (fs(h := None)) n Ks"
proof -
  have "key_ok (fs(h := None)) k" if "k \<in># Ks" for k
    using that assms by (auto simp: ops_on_zero_iff table_inv_def intro!: key_ok_other dest: mset_subset_eqD)
  with assms(1,4) show ?thesis by (auto simp: table_inv_def)
qed

lemma tinv_release:
  assumes "tinv (add_mset (Some h, ow, f) Ks) d"
  shows "tinv Ks (release K h d)"
proof -
  let ?Ks = "Ks + keys d"
  from assms have inv: "table_inv (files d) (next_id d) (add_mset (Some h, ow, f) ?Ks)"
    by (simp add: tinv_def)
  then obtain e where e: "files d h = Some e" and ok: "entry_ok e (Suc (ops_on h ?Ks))"
    by (fastforce simp: table_inv_def key_ok_def)
  let ?e = "e\<lparr>fe_ops := fe_ops e - 1\<rparr>" and ?fs = "(files d)(h \<mapsto> e\<lparr>fe_ops := fe_ops e - 1\<rparr>)"
  from ok have ops: "fe_ops ?e = ops_on h ?Ks" by (simp add: entry_ok_def)
  show ?thesis
  proof (cases "fe_closing e = None \<or> 0 < fe_ops ?e")
    case True
    with inv e ops have "table_inv ?fs (next_id d) ?Ks"
      by (intro table_inv_other [OF inv e]) (auto simp: entry_ok_def)
    with True e show ?thesis
      by (auto simp: release_def Let_def tinv_def with_os_def split: option.splits)
  next
    case False
    with ops have zero: "ops_on h ?Ks = 0" by simp
    have "table_inv ((files d)(h := None)) (next_id d) ?Ks"
      by (rule table_inv_drop [OF inv _ zero]) auto
    with False e ops show ?thesis
      by (auto simp: release_def Let_def tinv_def with_os_def call_cb_def split: option.splits prod.splits)
  qed
qed

lemma tinv_finish:
  assumes "tinv (add_mset (kind_key (j_kind j)) Ks) d"
  shows "tinv Ks (finish K j res d)"
proof (cases "kind_handle (j_kind j)")
  case None
  let ?d = "call_cb (j_cb j) res (if kind_owned_fd (j_kind j) then close_owned K (kind_fd (j_kind j)) d else d)"
  from None assms have "tinv Ks d"
    by (auto simp: tinv_def table_inv_def kind_key_def)
  with None show ?thesis by (simp add: finish_def Let_def)
next
  case (Some h)
  then have "kind_key (j_kind j) = (Some h, kind_owned_fd (j_kind j), kind_fd (j_kind j))"
    by (simp add: kind_key_def)
  with assms Some show ?thesis
    by (simp add: finish_def Let_def) (metis (full_types) tinv_call_cb tinv_close_owned tinv_release)
qed

lemma tinv_retain:
  assumes "tinv Ks d" and "with_fd h d = Inr f"
  shows "tinv (add_mset (Some h, False, f) Ks) (retain (Some h) d)"
proof -
  from assms(2) obtain e where e: "files d h = Some e" "fe_closing e = None" "fe_fd e = f"
    by (auto simp: with_fd_def split: option.splits if_splits)
  from assms(1) have inv: "table_inv (files d) (next_id d) (Ks + keys d)" by (simp add: tinv_def)
  with e(1) have "entry_ok e (ops_on h (Ks + keys d))" by (simp add: table_inv_def)
  with e have "table_inv ((files d)(h \<mapsto> e\<lparr>fe_ops := fe_ops e + 1\<rparr>)) (next_id d)
      (add_mset (Some h, False, f) (Ks + keys d))"
    by (intro table_inv_other [OF inv e(1)]) (auto simp: entry_ok_def key_ok_def)
  with e show ?thesis by (simp add: retain_def tinv_def)
qed

lemma tinv_register:
  assumes "tinv Ks d" and "register f sz d = (r, d')"
  shows "tinv Ks d'"
proof -
  let ?h = "next_id d" and ?Ks = "Ks + keys d"
  from assms(1) have inv: "table_inv (files d) ?h ?Ks" by (simp add: tinv_def)
  then have new: "files d ?h = None" by (simp add: table_inv_def)
  have none: "fst k \<noteq> Some ?h" if "k \<in># ?Ks" for k
    using that inv new key_ok_handle unfolding table_inv_def by fastforce
  then have "ops_on ?h ?Ks = 0" unfolding ops_on_zero_iff by blast
  moreover have "key_ok ((files d)(?h \<mapsto> e)) k" if "k \<in># ?Ks" for k e
    using that inv none by (intro key_ok_other) (auto simp: table_inv_def)
  ultimately have "table_inv ((files d)(?h \<mapsto> \<lparr>fe_fd = f, fe_ops = 0, fe_closing = None\<rparr>)) (?h + 1) ?Ks"
    using inv by (auto simp: table_inv_def entry_ok_def)
  with assms(2) show ?thesis by (auto simp: register_def Let_def tinv_def)
qed

lemma tinv_close:
  assumes "tinv Ks d"
  shows "tinv Ks (close K h c d)"
proof (cases "files d h")
  case (Some e)
  from assms have inv: "table_inv (files d) (next_id d) (Ks + keys d)" by (simp add: tinv_def)
  with Some have ok: "entry_ok e (ops_on h (Ks + keys d))" by (simp add: table_inv_def)
  then have wait: "table_inv ((files d)(h \<mapsto> e\<lparr>fe_closing := Some c\<rparr>)) (next_id d) (Ks + keys d)"
    if "0 < fe_ops e"
    using that by (intro table_inv_other [OF inv Some]) (auto simp: entry_ok_def)
  have gone: "table_inv ((files d)(h := None)) (next_id d) (Ks + keys d)" if "fe_ops e = 0"
    using that ok by (intro table_inv_drop [OF inv]) (auto simp: entry_ok_def)
  show ?thesis
    using Some assms wait gone
    by (auto simp: close_def tinv_def with_os_def call_cb_def split: prod.splits)
qed (use assms in \<open>simp add: close_def\<close>)

section \<open>Submitting\<close>

lemma tinv_execute_sync:
  assumes "tinv (add_mset (kind_key (j_kind j)) Ks) d" and "execute_sync K j d = Some d'"
  shows "tinv Ks d'"
  using assms
  by (auto simp: execute_sync_def split: option.splits dest!: sync_loop_same intro!: tinv_finish
      simp: same_job_key)

lemma tinv_submit_job:
  assumes "tinv (add_mset (kind_key (j_kind j)) Ks) d" and "submit_job K j d = Some (r, d')"
  shows "case r of Submitted_Inflight \<Rightarrow> tinv Ks d'
    | Submitted_Full j' \<Rightarrow> j' = j \<and> tinv (add_mset (kind_key (j_kind j)) Ks) d'"
proof -
  obtain res s where sys: "syscall (aio_submit K (control_block j)) (os d) = (res, s)"
    by (cases "syscall (aio_submit K (control_block j)) (os d)")
  have "tinv Ks (d\<lparr>os := s, inflight := inflight d @ [\<lparr>in_aiocb = b, in_job = j\<rparr>]\<rparr>)" for b
    using assms(1) by (simp add: tinv_def)
  with sys assms show ?thesis
    by (auto simp: submit_job_def with_os_def split: sum.splits if_splits
        intro: tinv_finish tinv_execute_sync [where d = "d\<lparr>os := s\<rparr>"])
qed

lemma tinv_submit_ready:
  assumes "submit_ready K d = Some d'" and "tinv Ks d"
  shows "tinv Ks d'"
  using assms
proof (rule submit_ready_rule [where Q = "\<lambda>j. tinv (add_mset (kind_key (j_kind j)) Ks)"])
  fix e j rest
  assume "tinv Ks e" and "queue e = j # rest"
  then show "tinv (add_mset (kind_key (j_kind j)) Ks) (e\<lparr>queue := rest\<rparr>)"
    by (simp add: tinv_def keys_def jobs_def)
next
  fix j j' and e e' :: "'a aio"
  assume "tinv (add_mset (kind_key (j_kind j)) Ks) e"
    and "submit_job K j e = Some (Submitted_Full j', e')"
  then have "j' = j \<and> tinv (add_mset (kind_key (j_kind j)) Ks) e'"
    by (blast dest: tinv_submit_job [where r = "Submitted_Full _", simplified])
  then show "tinv Ks (e'\<lparr>queue := j' # queue e'\<rparr>)" by (simp add: tinv_def)
qed (auto dest: tinv_submit_job)


lemma tinv_enqueue:
  assumes "enqueue K i kind handle c d = Some d'"
    and "tinv (add_mset (kind_key kind) Ks) (retain handle d)"
  shows "tinv Ks d'"
proof -
  let ?j = "\<lparr>j_id = i, j_cancelled = False, j_kind = kind, j_cb = c\<rparr>" and ?d = "retain handle d"
  from assms(1) have "submit_ready K (?d\<lparr>queue := queue ?d @ [?j]\<rparr>) = Some d'"
    by (simp add: enqueue_def Let_def)
  moreover from assms(2) have "tinv Ks (?d\<lparr>queue := queue ?d @ [?j]\<rparr>)" by (simp add: tinv_def)
  ultimately show ?thesis by (rule tinv_submit_ready)
qed

lemma tinv_enqueue_handle:
  assumes "enqueue K i kind (Some h) c d = Some d'" and "tinv Ks d" and "with_fd h d = Inr f"
    and "kind_key kind = (Some h, False, f)"
  shows "tinv Ks d'"
  using assms(1) by (rule tinv_enqueue) (use tinv_retain [OF assms(2,3)] assms(4) in simp)

lemma tinv_enqueue_owned:
  assumes "enqueue K i kind None c d = Some d'" and "tinv Ks d" and "kind_handle kind = None"
    and "kind_owned_fd kind"
  shows "tinv Ks d'"
proof (rule tinv_enqueue [OF assms(1)])
  from assms(2-4) show "tinv (add_mset (kind_key kind) Ks) (retain None d)"
    by (auto simp: retain_def tinv_def table_inv_def kind_key_def key_ok_def)
qed

lemma tinv_advance:
  assumes "advance K j n d = Some d'" and "tinv (add_mset (kind_key (j_kind j)) Ks) d"
  shows "tinv Ks d'"
proof -
  obtain res j' s where st: "step K j n (os d) = (res, j', s)" by (cases "step K j n (os d)")
  from step_same [OF st] have key: "kind_key (j_kind j') = kind_key (j_kind j)" by (simp add: same_job_key)
  have "tinv Ks (d\<lparr>os := s, queue := j' # queue d\<rparr>)" using assms(2) key by (simp add: tinv_def)
  with assms st key show ?thesis
    by (auto simp: advance_def split: step_result.splits if_splits intro: tinv_finish tinv_submit_ready)
qed

section \<open>Messages and completions\<close>

lemma tinv_opened:
  assumes "opened K p result d = Some d'" and "tinv Ks d"
  shows "tinv Ks d'"
  using assms
  by (auto simp: opened_def split: sum.splits prod.splits after_open.splits if_splits
      dest: tinv_register tinv_enqueue_owned)

lemma tinv_open_here:
  assumes "open_here K path spec p d = Some d'" and "tinv Ks d"
  shows "tinv Ks d'"
  using assms by (auto simp: open_here_def with_os_def split: prod.splits intro: tinv_opened)

lemma tinv_pending_opens [simp]: "tinv Ks (d\<lparr>pending_opens := P\<rparr>) = tinv Ks d"
  by (simp add: tinv_def)

lemma tinv_cancelled_opens [simp]: "tinv Ks (d\<lparr>cancelled_opens := P\<rparr>) = tinv Ks d"
  by (simp add: tinv_def)

lemma tinv_progress [simp]: "tinv Ks (d\<lparr>progress := b\<rparr>) = tinv Ks d"
  by (simp add: tinv_def)

lemma tinv_open_then:
  assumes "open_then K i path spec thn c d = Some d'" and "tinv Ks d"
  shows "tinv Ks d'"
  using assms
  by (auto simp: open_then_def Let_def send_def run_here_def split: if_splits intro: tinv_open_here)

lemma tinv_handle_opened:
  assumes "handle_opened K om d = Some d'" and "tinv Ks d"
  shows "tinv Ks d'"
  using assms
  by (auto simp: handle_opened_def Let_def split: if_splits sum.splits prod.splits intro: tinv_opened)

lemma tinv_take_queue:
  assumes "tinv Ks d" and "pos < length (queue d)"
  shows "tinv (add_mset (kind_key (j_kind (queue d ! pos))) Ks) (d\<lparr>queue := remove_at (queue d) pos\<rparr>)"
proof -
  have "keys d = add_mset (kind_key (j_kind (queue d ! pos))) (keys (d\<lparr>queue := remove_at (queue d) pos\<rparr>))"
    using mset_remove_at [OF assms(2)] by (simp add: keys_def jobs_def)
  with assms(1) show ?thesis by (simp add: tinv_def)
qed

lemma tinv_take_inflight:
  assumes "tinv Ks d" and "k < length (inflight d)"
  shows "tinv (add_mset (kind_key (j_kind (in_job (inflight d ! k)))) Ks)
    (d\<lparr>inflight := swap_remove (inflight d) k\<rparr>)"
proof -
  have "keys d = add_mset (kind_key (j_kind (in_job (inflight d ! k))))
      (keys (d\<lparr>inflight := swap_remove (inflight d) k\<rparr>))"
    using mset_swap_remove [OF assms(2)] by (simp add: keys_def jobs_def)
  with assms(1) show ?thesis by (simp add: tinv_def)
qed

lemma tinv_cancel_op:
  assumes "tinv Ks d"
  shows "tinv Ks (cancel_op K i d)"
proof -
  have flag: "keys (d\<lparr>inflight := (inflight d)[k := e], os := s\<rparr>) = keys d"
    if "k < length (inflight d)" "kind_key (j_kind (in_job e)) = kind_key (j_kind (in_job (inflight d ! k)))" for k e s
  proof -
    have "map (\<lambda>e. kind_key (j_kind (in_job e))) ((inflight d)[k := e]) =
        map (\<lambda>e. kind_key (j_kind (in_job e))) (inflight d)"
      using that by (simp add: map_update list_update_same_conv)
    then have "mset (map (\<lambda>e. kind_key (j_kind (in_job e))) ((inflight d)[k := e])) =
        mset (map (\<lambda>e. kind_key (j_kind (in_job e))) (inflight d))" by simp
    then show ?thesis by (simp add: keys_def jobs_def image_mset.compositionality comp_def)
  qed
  show ?thesis
    using assms flag
    by (auto simp: cancel_op_def Let_def tinv_frame split: option.splits
        dest!: position_SomeD intro: tinv_finish tinv_take_queue)
qed

lemma tinv_handle_op:
  assumes "handle_op K i oper c d = Some d'" and "tinv Ks d"
  shows "tinv Ks d'"
proof -
  have os: "with_fd h (d\<lparr>os := s\<rparr>) = with_fd h d" for h s by (simp add: with_fd_def)
  show ?thesis
  proof (cases oper)
    case (Op_ReadAt h pos dst)
    with assms show ?thesis
      by (auto simp: handle_read_at_def kind_key_def split: sum.splits dest.splits if_splits
          dest: tinv_enqueue_handle)
  next
    case (Op_ReadToEnd h pos)
    with assms show ?thesis
      by (auto simp: handle_read_to_end_def Let_def kind_key_def os split: sum.splits prod.splits
          dest!: with_osD dest: tinv_enqueue_handle)
  next
    case (Op_WriteAt h pos data app)
    with assms show ?thesis
      by (auto simp: handle_write_at_def kind_key_def split: sum.splits prod.splits if_splits
          dest: with_osD tinv_enqueue_handle)
  next
    case (Op_Sync h data_only)
    with assms show ?thesis
      by (auto simp: handle_sync_def kind_key_def split: sum.splits dest: tinv_enqueue_handle)
  next
    case (Op_Size h)
    with assms show ?thesis
      by (auto simp: handle_size_def split: sum.splits prod.splits dest!: with_osD)
  next
    case (Op_SetLen h sz)
    with assms show ?thesis
      by (auto simp: handle_set_len_def split: sum.splits prod.splits dest!: with_osD)
  qed (use assms in \<open>auto intro: tinv_open_then tinv_close\<close>)
qed

lemma tinv_handle_msg:
  "handle_msg K m d = Some d' \<Longrightarrow> tinv Ks d \<Longrightarrow> tinv Ks d'"
  by (cases m) (auto intro: tinv_handle_op [where d = "d\<lparr>progress := True\<rparr>"] tinv_cancel_op)

lemma tinv_settle_reaped:
  assumes "settle_reaped K j err n bs d = Some d'" and "tinv (add_mset (kind_key (j_kind j)) Ks) d"
  shows "tinv Ks d'"
  using assms
  by (auto simp: settle_reaped_def split: option.splits prod.splits dest!: deliver_bytes_same
      intro: tinv_finish tinv_advance simp: same_job_key)

lemma tinv_reap_one:
  assumes "reap_one K k d = Some (k', d')" and "k < length (inflight d)" and "tinv Ks d"
  shows "tinv Ks d'"
  using assms(1)
proof (cases rule: reap_one_cases)
  case (waiting w)
  with assms(3) show ?thesis by simp
next
  case (settled err n bs w)
  from settled(2) show ?thesis
    by (rule tinv_settle_reaped) (use tinv_take_inflight [OF assms(3,2)] in \<open>simp add: tinv_def keys_def jobs_def\<close>)
qed

lemma tinv_suspend [simp]: "tinv Ks (suspend K d) = tinv Ks d"
  by (simp add: suspend_def Let_def)

lemma tinv_lose_helpers: "tinv Ks d \<Longrightarrow> tinv Ks (lose_helpers d)"
  by (simp add: lose_helpers_def tinv_def keys_def jobs_def)

lemma tinv_adapt: "tinv Ks d \<Longrightarrow> tinv Ks (adapt d)"
  by (simp add: adapt_def tinv_def keys_def jobs_def)

end
