(* ===== verification/Aio_Frame.thy ===== *)
theory Aio_Frame
  imports Aio_Ledger
begin

text \<open>
  What the driver's operations change, proved once.  A relation between driver states
  that is reflexive and transitive and holds across each single update the operations
  are made of (the kernel's state and a log that only grows, the queue, the inflight list, a close
  handed to the helpers, an entry of the file table counted, marked, removed or added)
  holds across every operation that ends in those updates.
\<close>

text \<open>The log only grows.\<close>

definition grows :: "'k os \<Rightarrow> 'k os \<Rightarrow> bool" where
  "grows s s' \<longleftrightarrow> (\<exists>es. log s' = log s @ es)"

lemma grows_same: "log s' = log s \<Longrightarrow> grows s s'"
  by (simp add: grows_def)

lemma grows_trans: "grows s s1 \<Longrightarrow> grows s1 s2 \<Longrightarrow> grows s s2"
  by (auto simp: grows_def)

lemma grows_updates [simp]: "grows s s" "grows s (s\<lparr>world := w\<rparr>)" "grows s (s\<lparr>memory := m\<rparr>)" "grows s (emit ev s)"
  "grows s (invoke c res s)"
  by (simp_all add: grows_def)

lemma grows_calls:
  "syscall f s = (r, s') \<Longrightarrow> grows s s'" "fd_size K fd s = (q, s') \<Longrightarrow> grows s s'"
  "regular_size K fd s = (p, s') \<Longrightarrow> grows s s'" "close_raw K fd s = (u, s') \<Longrightarrow> grows s s'"
  by (auto simp: grows_def dest: log_syscallD log_fd_sizeD log_regular_sizeD log_close_rawD)

lemma grows_open_raw: "open_raw K path spec s = (r, s') \<Longrightarrow> grows s s'"
  by (auto simp: grows_def dest: log_open_rawD)

lemma grows_open_sized: "open_sized K path spec s = (r, s') \<Longrightarrow> grows s s'"
proof -
  assume run: "open_sized K path spec s = (r, s')"
  obtain q s1 where raw: "open_raw K path spec s = (q, s1)" by (cases "open_raw K path spec s")
  show "grows s s'"
  proof (cases q)
    case (Inr f)
    obtain z s2 where size: "fd_size K f s1 = (z, s2)" by (cases "fd_size K f s1")
    have "grows s s2" using grows_open_raw [OF raw] grows_calls(2) [OF size] by (rule grows_trans)
    moreover have "grows s2 (snd (close_raw K f s2))" by (simp add: grows_def)
    ultimately show ?thesis
      using run raw Inr size by (auto simp: open_sized_def split: sum.splits intro: grows_trans)
  qed (use run raw grows_open_raw [OF raw] in \<open>auto simp: open_sized_def\<close>)
qed

lemma grows_open_for: "open_for K path spec thn s = (r, s') \<Longrightarrow> grows s s'"
  by (auto simp: open_for_def split: after_open.splits sum.splits prod.splits
      dest: grows_open_raw grows_open_sized)

locale driver_frame =
  fixes R :: "'k aio \<Rightarrow> 'k aio \<Rightarrow> bool"
  assumes keep: "R d d"
    and chain: "R d1 d2 \<Longrightarrow> R d2 d3 \<Longrightarrow> R d1 d3"
    and set_os: "grows (os d) s \<Longrightarrow> R d (d\<lparr>os := s\<rparr>)"
    and set_queue: "R d (d\<lparr>queue := q\<rparr>)"
    and set_inflight: "R d (d\<lparr>inflight := l\<rparr>)"
    and send_close:
      "R d (d\<lparr>helper_tx := (helper_tx d)\<lparr>pending := pending (helper_tx d) @ [Helper_Close f]\<rparr>\<rparr>)"
    and count_ops: "files d h = Some e \<Longrightarrow> R d (d\<lparr>files := (files d)(h \<mapsto> e\<lparr>fe_ops := n\<rparr>)\<rparr>)"
    and mark_closing:
      "files d h = Some e \<Longrightarrow> R d (d\<lparr>files := (files d)(h \<mapsto> e\<lparr>fe_closing := Some c\<rparr>)\<rparr>)"
    and drop_entry: "R d (d\<lparr>files := (files d)(h := None)\<rparr>)"
    and add_entry: "R d (d\<lparr>next_id := next_id d + 1, files := (files d)(next_id d \<mapsto> e)\<rparr>)"
begin

lemma os_then: "grows (os d) s \<Longrightarrow> R (d\<lparr>os := s\<rparr>) d' \<Longrightarrow> R d d'"
  by (rule chain [OF set_os])

lemma call_cb: "R d (call_cb c res d)"
  unfolding call_cb_def by (rule set_os) simp

lemma then_call_cb: "R d d' \<Longrightarrow> R d (call_cb c res d')"
  by (rule chain [OF _ call_cb])

lemma with_os:
  assumes "with_os f d = (r, d')" and "\<And>r s. f (os d) = (r, s) \<Longrightarrow> grows (os d) s"
  shows "R d d'"
  using assms by (auto simp: with_os_def intro: set_os split: prod.splits)

lemmas with_syscall = with_os [OF _ grows_calls(1)]
lemmas with_fd_size = with_os [OF _ grows_calls(2)]
lemmas with_close_raw = with_os [OF _ grows_calls(4)]
lemmas with_open_for = with_os [OF _ grows_open_for]

lemma run_close: "R d (run_close K f d)"
  by (cases "with_os (close_raw K f) d") (simp add: run_close_def with_close_raw)

lemma close_owned: "R d (close_owned K f d)"
  by (simp add: close_owned_def send_def run_close send_close)

lemma release: "R d (release K h d)"
proof (cases "files d h")
  case (Some e)
  let ?d = "d\<lparr>files := (files d)(h \<mapsto> e\<lparr>fe_ops := fe_ops e - 1\<rparr>)\<rparr>"
  have one: "R d ?d" using Some by (rule count_ops)
  have "R d (call_cb c r d2)"
    if "with_os (close_raw K f) (?d\<lparr>files := (files ?d)(h := None)\<rparr>) = (res, d2)" for c r f res d2
    by (rule then_call_cb [OF chain [OF one chain [OF drop_entry with_close_raw [OF that]]]])
  with Some one show ?thesis
    by (auto simp: release_def Let_def split: option.split prod.split)
qed (simp add: release_def keep)

lemma finish: "R d (finish K j res d)"
proof -
  let ?d = "call_cb (j_cb j) res (if kind_owned_fd (j_kind j) then close_owned K (kind_fd (j_kind j)) d else d)"
  have "R d ?d" by (auto intro: then_call_cb close_owned keep)
  moreover from this have "R d (release K h ?d)" for h by (rule chain [OF _ release])
  ultimately show ?thesis unfolding finish_def Let_def by (auto split: option.split)
qed

lemma close: "R d (close K h c d)"
proof (cases "files d h")
  case (Some e)
  have "R d (call_cb c r d2)"
    if "with_os (close_raw K f) (d\<lparr>files := (files d)(h := None)\<rparr>) = (res, d2)" for r f res d2
    by (rule then_call_cb [OF chain [OF drop_entry with_close_raw [OF that]]])
  with Some show ?thesis
    by (auto simp: close_def call_cb mark_closing split: prod.split)
qed (simp add: close_def call_cb)

lemma execute_sync:
  assumes "execute_sync K j d = Some d'"
  shows "R d d'"
  using assms
  by (auto simp: execute_sync_def split: option.splits dest!: sync_loop_same intro: os_then [OF grows_same finish])

lemma submit_job:
  assumes "submit_job K j d = Some (r, d')"
  shows "R d d'"
proof -
  obtain res s where sys: "syscall (aio_submit K (control_block j)) (os d) = (res, s)"
    by (cases "syscall (aio_submit K (control_block j)) (os d)")
  from grows_calls(1) [OF sys] have os: "R d (d\<lparr>os := s\<rparr>)" by (rule set_os)
  then have "R d (d\<lparr>os := s, inflight := l\<rparr>)" for l by (rule chain [OF _ set_inflight])
  with sys assms os show ?thesis
    by (auto simp: submit_job_def with_os_def split: sum.splits if_splits
        intro: chain [OF os] finish execute_sync)
qed

lemma submit_ready:
  assumes "submit_ready K d = Some d'"
  shows "R d d'"
  by (rule submit_ready_rule [OF assms, where P = "R d" and Q = "\<lambda>_. R d"])
     (auto intro: keep chain [OF _ set_queue] chain [OF _ submit_job] chain [OF chain [OF _ submit_job] set_queue])

lemma retain: "R d (retain handle d)"
  by (auto simp: retain_def keep count_ops split: option.split)

lemma enqueue:
  assumes "enqueue K i kind handle c d = Some d'"
  shows "R d d'"
  using assms unfolding enqueue_def Let_def
  by (blast intro: chain [OF retain] chain [OF set_queue] submit_ready)

lemma advance:
  assumes "advance K j n d = Some d'"
  shows "R d d'"
proof -
  obtain res j' s where st: "step K j n (os d) = (res, j', s)" by (cases "step K j n (os d)")
  from step_same [OF st] have os: "R d (d\<lparr>os := s\<rparr>)" by (intro set_os grows_same) simp
  have "R d d'" if "submit_ready K (d\<lparr>os := s, queue := q\<rparr>) = Some d'" for q
    by (rule chain [OF chain [OF os set_queue] submit_ready [OF that]])
  with assms st show ?thesis
    by (auto simp: advance_def split: step_result.splits if_splits intro: chain [OF os finish])
qed

lemma register: "register f sz d = (r, d') \<Longrightarrow> R d d'"
  using add_entry [of d] by (auto simp: register_def Let_def)

lemma opened:
  assumes "opened K p result d = Some d'"
  shows "R d d'"
  using assms
  by (auto simp: opened_def split: sum.splits prod.splits after_open.splits if_splits
      intro: enqueue call_cb then_call_cb register)

lemma open_here:
  assumes "open_here K path spec p d = Some d'"
  shows "R d d'"
  using assms
  by (auto simp: open_here_def split: prod.splits intro: chain [OF with_open_for opened])

lemma settle_reaped:
  assumes "settle_reaped K j err n bs d = Some d'"
  shows "R d d'"
  using assms
  by (auto simp: settle_reaped_def split: option.splits prod.splits dest!: deliver_bytes_same
      intro: finish os_then [OF grows_same advance])

lemma cancel_queued: "R d (finish K j res (d\<lparr>queue := q\<rparr>))"
  by (rule chain [OF set_queue finish])

text \<open>An operation on a handle opens nothing.\<close>

lemma handle_op:
  assumes "handle_op K i oper c d = Some d'" and "on_handle oper = Some h"
  shows "R d d'"
proof (cases oper)
  case (Op_ReadAt h pos dst)
  with assms(1) show ?thesis
    by (auto simp: handle_read_at_def call_cb split: sum.splits dest.splits if_splits intro: enqueue)
next
  case (Op_ReadToEnd h pos)
  with assms(1) show ?thesis
    by (auto simp: handle_read_to_end_def Let_def call_cb split: sum.splits prod.splits
        intro: chain [OF with_fd_size enqueue])
next
  case (Op_WriteAt h pos data app)
  with assms(1) show ?thesis
    by (auto simp: handle_write_at_def call_cb split: sum.splits prod.splits if_splits
        intro: enqueue then_call_cb with_fd_size)
next
  case (Op_Sync h data_only)
  with assms(1) show ?thesis by (auto simp: handle_sync_def call_cb split: sum.splits intro: enqueue)
next
  case (Op_Size h)
  with assms(1) show ?thesis
    by (auto simp: handle_size_def call_cb split: sum.splits prod.splits intro: then_call_cb with_fd_size)
next
  case (Op_SetLen h sz)
  with assms(1) show ?thesis
    by (auto simp: handle_set_len_def call_cb split: sum.splits prod.splits intro: then_call_cb with_syscall)
qed (use assms in \<open>auto intro: close\<close>)

end

end
