(* ===== verification/Aio_Slots.thy ===== *)
theory Aio_Slots
  imports Aio_Table Aio_Frame
begin

text \<open>
  The AIO slots of the driver: never more than \<open>max_inflight\<close> requests are with the
  kernel, each inflight entry's control block is the one its job was submitted with, a
  cancelled job is never queued, and after \<open>submit_ready\<close> a queued job always waits
  behind an inflight one, so the driver cannot fall asleep with work left.
\<close>

section \<open>Frames\<close>

lemma call_cb_frame [simp]:
  "inflight (call_cb c res d) = inflight d" "max_inflight (call_cb c res d) = max_inflight d"
  "queue (call_cb c res d) = queue d" "rx (call_cb c res d) = rx d"
  "pending_opens (call_cb c res d) = pending_opens d" "disconnected (call_cb c res d) = disconnected d"
  "helpers_gone (call_cb c res d) = helpers_gone d" "back_rx (call_cb c res d) = back_rx d"
  "suspend_ns (call_cb c res d) = suspend_ns d" "cancelled_opens (call_cb c res d) = cancelled_opens d"
  "progress (call_cb c res d) = progress d" "helper_tx (call_cb c res d) = helper_tx d"
  "files (call_cb c res d) = files d"
  by (simp_all add: call_cb_def)

lemma finish_frame [simp]:
  "inflight (finish K j res d) = inflight d" "max_inflight (finish K j res d) = max_inflight d"
  "rx (finish K j res d) = rx d" "pending_opens (finish K j res d) = pending_opens d"
  "disconnected (finish K j res d) = disconnected d" "helpers_gone (finish K j res d) = helpers_gone d"
  "back_rx (finish K j res d) = back_rx d" "suspend_ns (finish K j res d) = suspend_ns d"
  "cancelled_opens (finish K j res d) = cancelled_opens d" "progress (finish K j res d) = progress d"
  by (auto simp: finish_def release_def close_owned_def run_close_def Let_def with_os_def call_cb_def
      split: option.splits prod.splits sum.splits)

text \<open>The opens waiting for a helper; closes may be added behind them at any time.\<close>

fun is_open :: "helper_job \<Rightarrow> bool" where
  "is_open (Helper_Open path spec p) = True"
| "is_open (Helper_Close f) = False"

definition helper_opens :: "'k aio \<Rightarrow> helper_job list" where
  "helper_opens d = filter is_open (pending (helper_tx d))"

text \<open>What submitting never touches.\<close>

definition same_links :: "'k aio \<Rightarrow> 'k aio \<Rightarrow> bool" where
  "same_links d d' \<longleftrightarrow> max_inflight d' = max_inflight d \<and> rx d' = rx d \<and>
     pending_opens d' = pending_opens d \<and> disconnected d' = disconnected d \<and>
     helpers_gone d' = helpers_gone d \<and> back_rx d' = back_rx d \<and> suspend_ns d' = suspend_ns d \<and>
     cancelled_opens d' = cancelled_opens d \<and> progress d' = progress d \<and>
     helper_opens d' = helper_opens d \<and> receivers (helper_tx d') = receivers (helper_tx d) \<and>
     senders (helper_tx d') = senders (helper_tx d)"

lemma same_links_refl [simp]: "same_links d d"
  by (simp add: same_links_def)

lemma same_links_trans [trans]: "same_links a b \<Longrightarrow> same_links b c \<Longrightarrow> same_links a c"
  by (simp add: same_links_def)

interpretation links: driver_frame "same_links :: 'k aio \<Rightarrow> 'k aio \<Rightarrow> bool"
  by unfold_locales (auto simp: same_links_def helper_opens_def)

section \<open>The slot invariant\<close>

definition slots_inv :: "'k aio \<Rightarrow> bool" where
  "slots_inv d \<longleftrightarrow> 0 < max_inflight d \<and> length (inflight d) \<le> max_inflight d \<and>
     (\<forall>j \<in> set (queue d). \<not> j_cancelled j) \<and>
     (\<forall>e \<in> set (inflight d). in_aiocb e = control_block (in_job e))"

lemma slots_finish [simp]: "slots_inv (finish K j res d) = slots_inv d"
  by (simp add: slots_inv_def)

lemma slots_call_cb [simp]: "slots_inv (call_cb c res d) = slots_inv d"
  by (simp add: slots_inv_def)

lemma slots_updates [simp]:
  "slots_inv (d\<lparr>os := s\<rparr>) = slots_inv d" "slots_inv (d\<lparr>files := fs\<rparr>) = slots_inv d"
  "slots_inv (d\<lparr>progress := b\<rparr>) = slots_inv d" "slots_inv (d\<lparr>helper_tx := h\<rparr>) = slots_inv d"
  "slots_inv (d\<lparr>pending_opens := P\<rparr>) = slots_inv d" "slots_inv (d\<lparr>cancelled_opens := P\<rparr>) = slots_inv d"
  "slots_inv (d\<lparr>next_id := n\<rparr>) = slots_inv d"
  by (simp_all add: slots_inv_def)

lemma slots_submit_job:
  assumes "submit_job K j d = Some (r, d')" and "slots_inv d" and "length (inflight d) < max_inflight d"
  shows "slots_inv d'"
  using assms
  by (auto simp: submit_job_def execute_sync_def Let_def with_os_def slots_inv_def
      split: prod.splits sum.splits if_splits option.splits)

lemma submit_job_Full:
  assumes "submit_job K j d = Some (Submitted_Full j', d')"
  shows "j' = j \<and> inflight d' = inflight d \<and> inflight d \<noteq> []"
  using assms
  by (auto simp: submit_job_def with_os_def Let_def split: prod.splits sum.splits if_splits)

lemma slots_submit_ready:
  assumes "submit_ready K d = Some d'" and "slots_inv d"
  shows "slots_inv d'"
  using assms
proof (rule submit_ready_rule [where Q = "\<lambda>j e. slots_inv e \<and> \<not> j_cancelled j"])
  fix j j' and e e' :: "'a aio"
  assume Q: "slots_inv e \<and> \<not> j_cancelled j" and lt: "length (inflight e) < max_inflight e"
    and sub: "submit_job K j e = Some (Submitted_Full j', e')"
  then have "slots_inv e'" by (blast intro: slots_submit_job)
  with Q submit_job_Full [OF sub] show "slots_inv (e'\<lparr>queue := j' # queue e'\<rparr>)"
    by (simp add: slots_inv_def)
qed (auto simp: slots_inv_def dest: slots_submit_job [unfolded slots_inv_def])

text \<open>No stall: a job left in the queue waits behind an inflight one.\<close>

lemma submit_ready_busy:
  assumes "submit_ready K d = Some d'" and "0 < max_inflight d"
  shows "queue d' = [] \<or> inflight d' \<noteq> []"
  using assms
proof (induction "length (queue d)" arbitrary: d rule: less_induct)
  case less
  show ?case
  proof (cases "length (inflight d) < max_inflight d \<and> queue d \<noteq> []")
    case False
    with less.prems show ?thesis by (subst (asm) submit_ready.simps) (auto split: if_splits list.splits)
  next
    case True
    then obtain j rest where q: "queue d = j # rest" by (cases "queue d") auto
    from less.prems(1) True q obtain r d1 where sub: "submit_job K j (d\<lparr>queue := rest\<rparr>) = Some (r, d1)"
      by (subst (asm) submit_ready.simps) (auto split: option.splits)
    show ?thesis
    proof (cases r)
      case Submitted_Inflight
      with less.prems(1) True q sub have "submit_ready K d1 = Some d'"
        by (subst (asm) submit_ready.simps) simp
      moreover from queue_submit_job [OF sub] q have "length (queue d1) < length (queue d)" by simp
      moreover from links.submit_job [OF sub] less.prems(2) have "0 < max_inflight d1"
        by (simp add: same_links_def)
      ultimately show ?thesis using less.hyps by blast
    next
      case (Submitted_Full j')
      with less.prems(1) True q sub submit_job_Full show ?thesis
        by (subst (asm) submit_ready.simps) fastforce
    qed
  qed
qed

lemma slots_enqueue:
  assumes "enqueue K i kind handle c d = Some d'" and "slots_inv d"
  shows "slots_inv d'"
proof -
  let ?j = "\<lparr>j_id = i, j_cancelled = False, j_kind = kind, j_cb = c\<rparr>" and ?d = "retain handle d"
  from assms(1) have "submit_ready K (?d\<lparr>queue := queue ?d @ [?j]\<rparr>) = Some d'"
    by (simp add: enqueue_def Let_def)
  moreover have "slots_inv (?d\<lparr>queue := queue ?d @ [?j]\<rparr>)"
    using assms(2) by (auto simp: retain_def slots_inv_def split: option.split)
  ultimately show ?thesis by (rule slots_submit_ready)
qed

lemma slots_advance:
  assumes "advance K j n d = Some d'" and "slots_inv d"
  shows "slots_inv d'"
  using assms
  by (auto simp: advance_def split: prod.splits step_result.splits if_splits
      elim!: slots_submit_ready) (auto simp: slots_inv_def)

section \<open>Messages and completions\<close>

lemma slots_run_close [simp]: "slots_inv (run_close K f d) = slots_inv d"
  by (simp add: run_close_def with_os_def case_prod_beta)

lemma slots_register: "register f sz d = (r, d') \<Longrightarrow> slots_inv d' = slots_inv d"
  by (auto simp: register_def Let_def slots_inv_def)

lemma slots_opened:
  assumes "opened K p result d = Some d'" and "slots_inv d"
  shows "slots_inv d'"
  using assms
  by (auto simp: opened_def slots_register split: sum.splits prod.splits after_open.splits if_splits
      dest: slots_enqueue)

lemma slots_open_here:
  "open_here K path spec p d = Some d' \<Longrightarrow> slots_inv d \<Longrightarrow> slots_inv d'"
  by (auto simp: open_here_def with_os_def split: prod.splits intro: slots_opened)

lemma slots_open_then:
  "open_then K i path spec thn c d = Some d' \<Longrightarrow> slots_inv d \<Longrightarrow> slots_inv d'"
  by (auto simp: open_then_def Let_def send_def run_here_def split: if_splits intro: slots_open_here)

lemma slots_handle_opened:
  "handle_opened K om d = Some d' \<Longrightarrow> slots_inv d \<Longrightarrow> slots_inv d'"
  by (auto simp: handle_opened_def Let_def split: if_splits sum.splits prod.splits intro: slots_opened)

lemma slots_close: "slots_inv d \<Longrightarrow> slots_inv (close K h c d)"
  by (auto simp: close_def with_os_def split: option.splits prod.splits)

lemma slots_cancel_op: "slots_inv d \<Longrightarrow> slots_inv (cancel_op K i d)"
proof -
  assume inv: "slots_inv d"
  have "slots_inv (d\<lparr>queue := remove_at (queue d) pos\<rparr>)" for pos
    using inv set_remove_at [of "queue d" pos] by (auto simp: slots_inv_def)
  moreover have "slots_inv (d\<lparr>inflight := (inflight d)[k := (inflight d ! k)\<lparr>in_job := (in_job (inflight d ! k))\<lparr>j_cancelled := True\<rparr>\<rparr>]\<rparr>)"
    if "k < length (inflight d)" for k
  proof -
    have "control_block (j\<lparr>j_cancelled := True\<rparr>) = control_block j" for j
      by (simp add: control_block_def split: job_kind.split)
    with inv that show ?thesis
      by (auto simp: slots_inv_def dest!: set_update_subset_insert [THEN subsetD])
  qed
  ultimately show ?thesis
    using inv by (auto simp: cancel_op_def Let_def split: option.splits dest: position_SomeD)
qed

lemma slots_handle_op:
  assumes "handle_op K i oper c d = Some d'" and "slots_inv d"
  shows "slots_inv d'"
  using assms
  by (cases oper)
     (auto simp: handle_read_at_def handle_read_to_end_def handle_write_at_def handle_sync_def
        handle_size_def handle_set_len_def Let_def slots_close
        split: sum.splits prod.splits dest.splits if_splits
        dest!: with_osD dest: slots_enqueue slots_open_then)

lemma slots_handle_msg:
  "handle_msg K m d = Some d' \<Longrightarrow> slots_inv d \<Longrightarrow> slots_inv d'"
  by (cases m) (auto intro: slots_handle_op [where d = "d\<lparr>progress := True\<rparr>"] slots_cancel_op)

lemma slots_settle_reaped:
  "settle_reaped K j err n bs d = Some d' \<Longrightarrow> slots_inv d \<Longrightarrow> slots_inv d'"
  by (auto simp: settle_reaped_def split: option.splits prod.splits intro: slots_advance)

lemma slots_reap_one:
  assumes "reap_one K k d = Some (k', d')" and "k < length (inflight d)" and "slots_inv d"
  shows "slots_inv d'"
  using assms(1)
proof (cases rule: reap_one_cases)
  case (settled err n bs w)
  have "slots_inv (d\<lparr>inflight := swap_remove (inflight d) k\<rparr>)"
    using assms(2,3) set_swap_remove [OF assms(2)] by (auto simp: slots_inv_def)
  then show ?thesis by (intro slots_settle_reaped [OF settled(2)]) (simp add: slots_inv_def)
qed (use assms(3) in simp)

end
