(* ===== verification/Aio_Run.thy ===== *)
theory Aio_Run
  imports Aio_Slots
begin

text \<open>
  The whole AIO backend as a transition system: the submitting threads, the driver
  thread's \<open>run\<close> loop and the helper threads (\<open>spawn\<close>, \<open>helper_loop\<close>), interleaved in
  any order at the points where the driver looks at a channel or at one inflight entry.
\<close>

section \<open>The driver thread\<close>

text \<open>
  Where \<open>run\<close> is: at the top of its loop, past the idle wait, at an index of \<open>reap\<close>'s
  loop, in one of \<open>drain_channel\<close>'s two loops, before \<open>submit_ready\<close>, or returned.
\<close>

datatype pc = Top | Waited | Reap nat | Drain_rx | Drain_back | Submitting | Halted

text \<open>
  \<open>wait_idle\<close> blocks until one of the channels it listens to has something; the
  relation holds of each way it can return.
\<close>

inductive wait_idle :: "'k kernel \<Rightarrow> 'k aio \<Rightarrow> 'k aio \<Rightarrow> bool" for K where
  only_back: "disconnected d \<Longrightarrow> try_recv (back_rx d) = (Received om, b) \<Longrightarrow>
    handle_opened K om (d\<lparr>back_rx := b\<rparr>) = Some d' \<Longrightarrow> wait_idle K d d'"
| only_back_gone: "disconnected d \<Longrightarrow> try_recv (back_rx d) = (Disconnected, b) \<Longrightarrow>
    wait_idle K d (lose_helpers d)"
| only_rx: "\<not> disconnected d \<Longrightarrow> helpers_gone d \<Longrightarrow> try_recv (rx d) = (Received m, r) \<Longrightarrow>
    handle_msg K m (d\<lparr>rx := r\<rparr>) = Some d' \<Longrightarrow> wait_idle K d d'"
| only_rx_gone: "\<not> disconnected d \<Longrightarrow> helpers_gone d \<Longrightarrow> try_recv (rx d) = (Disconnected, r) \<Longrightarrow>
    wait_idle K d (d\<lparr>disconnected := True\<rparr>)"
| select_rx: "\<not> disconnected d \<Longrightarrow> \<not> helpers_gone d \<Longrightarrow> try_recv (rx d) = (Received m, r) \<Longrightarrow>
    handle_msg K m (d\<lparr>rx := r\<rparr>) = Some d' \<Longrightarrow> wait_idle K d d'"
| select_back: "\<not> disconnected d \<Longrightarrow> \<not> helpers_gone d \<Longrightarrow> try_recv (back_rx d) = (Received om, b) \<Longrightarrow>
    handle_opened K om (d\<lparr>back_rx := b\<rparr>) = Some d' \<Longrightarrow> wait_idle K d d'"
| select_rx_gone: "\<not> disconnected d \<Longrightarrow> \<not> helpers_gone d \<Longrightarrow> try_recv (rx d) = (Disconnected, r) \<Longrightarrow>
    wait_idle K d (d\<lparr>disconnected := True\<rparr>)"
| select_back_gone: "\<not> disconnected d \<Longrightarrow> \<not> helpers_gone d \<Longrightarrow> try_recv (back_rx d) = (Disconnected, b) \<Longrightarrow>
    wait_idle K d (lose_helpers d)"

text \<open>One turn of each of \<open>drain_channel\<close>'s loops: where it continues, and with what.\<close>

definition drain_submissions :: "'k kernel \<Rightarrow> 'k aio \<Rightarrow> (pc \<times> 'k aio) option" where
  "drain_submissions K d = (case try_recv (rx d) of
       (Received m, r) \<Rightarrow> map_option (Pair Drain_rx) (handle_msg K m (d\<lparr>rx := r\<rparr>))
     | (Empty, r) \<Rightarrow> Some (Drain_back, d)
     | (Disconnected, r) \<Rightarrow> Some (Drain_back, d\<lparr>disconnected := True\<rparr>))"

definition drain_opened :: "'k kernel \<Rightarrow> 'k aio \<Rightarrow> (pc \<times> 'k aio) option" where
  "drain_opened K d = (case try_recv (back_rx d) of
       (Received om, b) \<Rightarrow> map_option (Pair Drain_back) (handle_opened K om (d\<lparr>back_rx := b\<rparr>))
     | (Empty, b) \<Rightarrow> Some (Submitting, d)
     | (Disconnected, b) \<Rightarrow> Some (Submitting, lose_helpers d))"

lemma drain_submissionsE [elim!, consumes 1, case_names msg empty gone]:
  assumes "drain_submissions K d = Some (p, d')"
  obtains m r where "try_recv (rx d) = (Received m, r)" "handle_msg K m (d\<lparr>rx := r\<rparr>) = Some d'" "p = Drain_rx"
    | r where "try_recv (rx d) = (Empty, r)" "p = Drain_back" "d' = d"
    | r where "try_recv (rx d) = (Disconnected, r)" "p = Drain_back" "d' = d\<lparr>disconnected := True\<rparr>"
  using assms by (auto simp: drain_submissions_def split: prod.splits recv.splits)

lemma drain_openedE [elim!, consumes 1, case_names msg empty gone]:
  assumes "drain_opened K d = Some (p, d')"
  obtains om b where "try_recv (back_rx d) = (Received om, b)" "handle_opened K om (d\<lparr>back_rx := b\<rparr>) = Some d'"
      "p = Drain_back"
    | b where "try_recv (back_rx d) = (Empty, b)" "p = Submitting" "d' = d"
    | b where "try_recv (back_rx d) = (Disconnected, b)" "p = Submitting" "d' = lose_helpers d"
  using assms by (auto simp: drain_opened_def split: prod.splits recv.splits)

text \<open>Returning from \<open>run\<close> drops the driver and with it its ends of the channels.\<close>

definition drop_driver :: "'k aio \<Rightarrow> 'k aio" where
  "drop_driver d = d\<lparr>rx := (rx d)\<lparr>receivers := False\<rparr>,
                     helper_tx := (helper_tx d)\<lparr>senders := False\<rparr>,
                     back_rx := (back_rx d)\<lparr>receivers := False\<rparr>\<rparr>"

definition idle :: "'k aio \<Rightarrow> bool" where
  "idle d \<longleftrightarrow> inflight d = [] \<and> queue d = []"

inductive run_step :: "'k kernel \<Rightarrow> pc \<times> 'k aio \<Rightarrow> pc \<times> 'k aio \<Rightarrow> bool" for K where
  top_busy: "\<not> idle d \<Longrightarrow> run_step K (Top, d) (Waited, d)"
| top_return: "idle d \<Longrightarrow> disconnected d \<Longrightarrow> pending_opens d = {} \<Longrightarrow>
    run_step K (Top, d) (Halted, drop_driver d)"
| top_idle: "idle d \<Longrightarrow> \<not> (disconnected d \<and> pending_opens d = {}) \<Longrightarrow> wait_idle K d d' \<Longrightarrow>
    run_step K (Top, d) (Waited, d')"
| wait_inflight: "inflight d \<noteq> [] \<Longrightarrow> run_step K (Waited, d) (Reap 0, suspend K d)"
| wait_nothing: "inflight d = [] \<Longrightarrow> run_step K (Waited, d) (Drain_rx, d)"
| reap_next: "k < length (inflight d) \<Longrightarrow> reap_one K k d = Some (k', d') \<Longrightarrow>
    run_step K (Reap k, d) (Reap k', d')"
| reap_end: "\<not> k < length (inflight d) \<Longrightarrow> run_step K (Reap k, d) (Drain_rx, d)"
| drain_rx: "drain_submissions K d = Some (p, d') \<Longrightarrow> run_step K (Drain_rx, d) (p, d')"
| drain_back: "drain_opened K d = Some (p, d') \<Longrightarrow> run_step K (Drain_back, d) (p, d')"
| submitting: "submit_ready K d = Some d' \<Longrightarrow> run_step K (Submitting, d) (Top, adapt d')"

section \<open>A helper thread\<close>

text \<open>The body of \<open>helper_loop\<close> for one job.\<close>

definition helper_body :: "'k kernel \<Rightarrow> helper_job \<Rightarrow> 'k aio \<Rightarrow> 'k aio" where
  "helper_body K hj d = (case hj of
       Helper_Close f \<Rightarrow> run_close K f d
     | Helper_Open path spec p \<Rightarrow>
         (case with_os (open_for K path spec (po_then p)) d of
            (result, d1) \<Rightarrow>
              (case send \<lparr>op_pending = p, op_result = result\<rparr> (back_rx d1) of
                 Inr b \<Rightarrow> d1\<lparr>back_rx := b\<rparr>
               | Inl om \<Rightarrow>
                   (let d2 = (case op_result om of Inr (f, _) \<Rightarrow> run_close K f d1 | Inl _ \<Rightarrow> d1)
                    in call_cb (po_cb (op_pending om)) (Inl driver_gone) d2))))"

section \<open>The system\<close>

text \<open>
  \<open>busy\<close> are the jobs the helper threads have taken and not finished; \<open>asked\<close> records
  the ops handed to \<open>submit\<close> so far, with their callbacks.
\<close>

record 'k system =
  front :: driver
  drv :: "'k aio"
  at :: pc
  busy :: "helper_job list"
  asked :: "(cb \<times> op) list"

text \<open>
  The state \<open>spawn\<close> leaves behind, with its channels; what the kernel has seen before is none
  of the log's business.  How many helper threads \<open>spawn\<close> starts is no part of the state
  but the parameter \<open>n\<close> of \<open>sys_step\<close> below: the source starts \<open>open_threads\<close> of them, between
  two and four, and the theorems hold for every number.
\<close>

definition start_system :: "'k kernel \<Rightarrow> 'k os \<Rightarrow> 'k system" where
  "start_system K s =
     \<lparr>front = driver_new ''darwin-aio'',
      drv = aio_new K new_channel new_channel new_channel (s\<lparr>log := []\<rparr>),
      at = Top, busy = [], asked = []\<rparr>"

definition log_calls :: "(cb \<times> reply io) list \<Rightarrow> 'k os \<Rightarrow> 'k os" where
  "log_calls calls s = s\<lparr>log := log s @ map (\<lambda>(c, r). Ev_call c r) calls\<rparr>"

text \<open>\<open>n\<close> is the number of helper threads that may be busy at a time.\<close>

inductive sys_step :: "'k kernel \<Rightarrow> nat \<Rightarrow> 'k system \<Rightarrow> 'k system \<Rightarrow> bool" for K n where
  submits: "senders (rx (drv s)) \<Longrightarrow> submit oper c (front s) (rx (drv s)) = (i, fr, tx, calls) \<Longrightarrow>
    sys_step K n s (s\<lparr>front := fr, asked := asked s @ [(c, oper)],
                      drv := (drv s)\<lparr>rx := tx, os := log_calls calls (os (drv s))\<rparr>\<rparr>)"
| cancels: "senders (rx (drv s)) \<Longrightarrow>
    sys_step K n s (s\<lparr>drv := (drv s)\<lparr>rx := cancel i (rx (drv s))\<rparr>\<rparr>)"
| drops: "sys_step K n s (s\<lparr>drv := (drv s)\<lparr>rx := (rx (drv s))\<lparr>senders := False\<rparr>\<rparr>\<rparr>)"
| drives: "run_step K (at s, drv s) (p, d) \<Longrightarrow> sys_step K n s (s\<lparr>at := p, drv := d\<rparr>)"
| takes: "length (busy s) < n \<Longrightarrow> try_recv (helper_tx (drv s)) = (Received hj, h) \<Longrightarrow>
    sys_step K n s (s\<lparr>busy := busy s @ [hj], drv := (drv s)\<lparr>helper_tx := h\<rparr>\<rparr>)"
| helps: "k < length (busy s) \<Longrightarrow>
    sys_step K n s (s\<lparr>busy := remove_at (busy s) k, drv := helper_body K (busy s ! k) (drv s)\<rparr>)"

inductive reachable :: "'k kernel \<Rightarrow> nat \<Rightarrow> 'k system \<Rightarrow> bool" for K n where
  init: "reachable K n (start_system K s)"
| step: "reachable K n s \<Longrightarrow> sys_step K n s s' \<Longrightarrow> reachable K n s'"

section \<open>The driver's invariants in every reachable state\<close>

lemma try_recv_D: "try_recv c = (Received m, c') \<Longrightarrow> pending c = m # pending c'"
  by (simp add: try_recv_ReceivedD)

lemma tinv_channels [simp]: "tinv Ks (d\<lparr>rx := r\<rparr>) = tinv Ks d" "tinv Ks (d\<lparr>back_rx := b\<rparr>) = tinv Ks d"
  "tinv Ks (d\<lparr>disconnected := x\<rparr>) = tinv Ks d"
  by (simp_all add: tinv_def keys_def jobs_def)

lemma slots_channels [simp]: "slots_inv (d\<lparr>rx := r\<rparr>) = slots_inv d"
  "slots_inv (d\<lparr>back_rx := b\<rparr>) = slots_inv d" "slots_inv (d\<lparr>disconnected := x\<rparr>) = slots_inv d"
  by (simp_all add: slots_inv_def)

definition drv_inv :: "'k aio \<Rightarrow> bool" where
  "drv_inv d \<longleftrightarrow> tinv {#} d \<and> slots_inv d"

lemma drv_inv_channels [simp]: "drv_inv (d\<lparr>rx := r\<rparr>) = drv_inv d"
  "drv_inv (d\<lparr>back_rx := b\<rparr>) = drv_inv d" "drv_inv (d\<lparr>disconnected := x\<rparr>) = drv_inv d"
  "drv_inv (d\<lparr>helper_tx := h\<rparr>) = drv_inv d" "drv_inv (d\<lparr>os := s\<rparr>) = drv_inv d"
  by (simp_all add: drv_inv_def)

lemma drv_inv_handle_msg: "handle_msg K m d = Some d' \<Longrightarrow> drv_inv d \<Longrightarrow> drv_inv d'"
  by (auto simp: drv_inv_def intro: tinv_handle_msg slots_handle_msg)

lemma drv_inv_handle_opened: "handle_opened K om d = Some d' \<Longrightarrow> drv_inv d \<Longrightarrow> drv_inv d'"
  by (auto simp: drv_inv_def intro: tinv_handle_opened slots_handle_opened)

lemma drv_inv_lose_helpers: "drv_inv d \<Longrightarrow> drv_inv (lose_helpers d)"
  by (auto simp: drv_inv_def intro: tinv_lose_helpers) (simp add: lose_helpers_def slots_inv_def)

lemma drv_inv_wait_idle: "wait_idle K d d' \<Longrightarrow> drv_inv d \<Longrightarrow> drv_inv d'"
  by (induction rule: wait_idle.induct)
     (auto intro: drv_inv_handle_msg drv_inv_handle_opened drv_inv_lose_helpers)

lemma drv_inv_run_step:
  assumes "run_step K (p, d) (p', d')" and "drv_inv d"
  shows "drv_inv d'"
  using assms
proof (cases rule: run_step.cases)
  case (reap_next k k')
  with assms(2) show ?thesis by (auto simp: drv_inv_def intro: tinv_reap_one slots_reap_one)
next
  case (submitting d1)
  with assms(2) show ?thesis
    by (auto simp: drv_inv_def intro!: tinv_adapt dest: tinv_submit_ready slots_submit_ready)
       (auto simp: adapt_def slots_inv_def dest: slots_submit_ready [unfolded slots_inv_def])
qed (auto simp: drop_driver_def suspend_def Let_def
      intro: drv_inv_handle_msg drv_inv_handle_opened drv_inv_lose_helpers drv_inv_wait_idle)

lemma drv_inv_call_cb [simp]: "drv_inv (call_cb c res d) = drv_inv d"
  by (simp add: drv_inv_def)

lemma drv_inv_run_close [simp]: "drv_inv (run_close K f d) = drv_inv d"
  by (simp add: drv_inv_def)

lemma drv_inv_helper_body: "drv_inv d \<Longrightarrow> drv_inv (helper_body K hj d)"
  by (auto simp: helper_body_def with_os_def Let_def split: helper_job.split prod.split sum.split)

lemma drv_inv_reachable: "reachable K n s \<Longrightarrow> drv_inv (drv s)"
proof (induction rule: reachable.induct)
  case (init s)
  have "0 < aio_proc_max K"
    by (simp add: aio_proc_max_def FALLBACK_MAX_INFLIGHT_def split: option.split)
  then show ?case
    by (simp add: start_system_def aio_new_def drv_inv_def tinv_def table_inv_def slots_inv_def
        keys_def jobs_def)
next
  case (step s s')
  from step.hyps(2) step.IH show ?case
    by (cases rule: sys_step.cases)
       (auto intro: drv_inv_run_step drv_inv_helper_body)
qed

end
