(* ===== verification/Aio_System.thy ===== *)
theory Aio_System
  imports Aio_Run
begin

text \<open>
  What the AIO backend as a whole guarantees, whatever the kernel answers and however
  the threads interleave: every callback is invoked exactly once, every descriptor is
  closed exactly once or still held, no request is with the kernel on a closed
  descriptor, and the driver neither stops nor sleeps with work outstanding.
\<close>

section \<open>What handling a message does to the channels\<close>

definition same_channels :: "'k aio \<Rightarrow> 'k aio \<Rightarrow> bool" where
  "same_channels d d' \<longleftrightarrow> rx d' = rx d \<and> back_rx d' = back_rx d \<and>
     receivers (helper_tx d') = receivers (helper_tx d) \<and> senders (helper_tx d') = senders (helper_tx d) \<and>
     disconnected d' = disconnected d \<and> helpers_gone d' = helpers_gone d"

lemma same_channels_links: "same_links d d' \<Longrightarrow> same_channels d d'"
  by (simp add: same_links_def same_channels_def)

text \<open>The opens out at the helpers, by op id.\<close>

fun job_op_id :: "helper_job \<Rightarrow> nat" where
  "job_op_id (Helper_Open path spec p) = po_id p"
| "job_op_id (Helper_Close f) = 0"

definition open_ids :: "helper_job list \<Rightarrow> nat list" where
  "open_ids hs = map job_op_id (filter is_open hs)"

lemma open_ids_simps [simp]:
  "open_ids [] = []" "open_ids (hs @ hs') = open_ids hs @ open_ids hs'"
  "open_ids (Helper_Open path spec p # hs) = po_id p # open_ids hs"
  "open_ids (Helper_Close f # hs) = open_ids hs"
  by (simp_all add: open_ids_def)

definition out_ids :: "'k aio \<Rightarrow> nat list" where
  "out_ids d = open_ids (pending (helper_tx d))"

lemma out_ids_links: "same_links d d' \<Longrightarrow> out_ids d' = out_ids d"
  by (simp add: same_links_def out_ids_def open_ids_def helper_opens_def)

text \<open>How a handled message moves the opens that are out.\<close>

definition opens_moved :: "nat set \<Rightarrow> 'k aio \<Rightarrow> 'k aio \<Rightarrow> bool" where
  "opens_moved new d d' \<longleftrightarrow>
     (out_ids d' = out_ids d \<and> pending_opens d' = pending_opens d \<or>
      (\<exists>i \<in> new. out_ids d' = out_ids d @ [i] \<and> pending_opens d' = insert i (pending_opens d))) \<and>
     cancelled_opens d' \<subseteq> cancelled_opens d \<union> pending_opens d \<and> cancelled_opens d \<subseteq> cancelled_opens d'"

lemma opens_moved_links: "same_links d d' \<Longrightarrow> opens_moved N d d'"
  using out_ids_links by (auto simp: opens_moved_def same_links_def)

lemma open_then_moves:
  assumes "open_then K i path spec thn c d = Some d'" and "receivers (helper_tx d)"
  shows "same_channels d d' \<and> opens_moved {i} d d'"
proof (cases "has_backlog d")
  case True
  let ?p = "\<lparr>po_id = i, po_then = thn, po_cb = c\<rparr>"
  from True assms have "d' = d\<lparr>pending_opens := insert i (pending_opens d),
      helper_tx := (helper_tx d)\<lparr>pending := pending (helper_tx d) @ [Helper_Open path spec ?p]\<rparr>\<rparr>"
    by (simp add: open_then_def Let_def send_def)
  then show ?thesis by (simp add: same_channels_def opens_moved_def out_ids_def)
next
  case False
  with assms(1) have "same_links d d'" by (auto simp: open_then_def Let_def intro: links.open_here)
  then show ?thesis by (simp add: same_channels_links opens_moved_links)
qed

lemma handle_op_moves:
  assumes "handle_op K i oper c d = Some d'" and "receivers (helper_tx d)"
  shows "same_channels d d' \<and> opens_moved {i} d d'"
proof (cases "on_handle oper")
  case None
  then show ?thesis
  proof (cases oper)
    case Op_Nop
    with assms have "same_links d d'" by (auto intro: links.call_cb)
    then show ?thesis by (simp add: same_channels_links opens_moved_links)
  qed (use assms in \<open>auto dest: open_then_moves\<close>)
next
  case (Some h)
  with assms(1) have "same_links d d'" by (rule links.handle_op)
  then show ?thesis by (simp add: same_channels_links opens_moved_links)
qed

lemma cancel_op_moves: "same_channels d (cancel_op K i d) \<and> opens_moved {} d (cancel_op K i d)"
proof -
  have queued: "same_links d (finish K j res (d\<lparr>queue := q\<rparr>))" for j res q
    using links.finish [of "d\<lparr>queue := q\<rparr>" K j res] by (simp add: same_links_def helper_opens_def)
  show ?thesis
    by (auto simp: cancel_op_def Let_def split: option.split intro: same_channels_links opens_moved_links queued)
       (auto simp: same_channels_def opens_moved_def out_ids_def)
qed

fun submit_ids :: "msg \<Rightarrow> nat set" where
  "submit_ids (Msg_Submit i oper c) = {i}"
| "submit_ids (Msg_Cancel i) = {}"

lemma handle_msg_moves:
  assumes "handle_msg K m d = Some d'" and "receivers (helper_tx d)"
  shows "same_channels d d' \<and> opens_moved (submit_ids m) d d'"
proof -
  have "same_channels (d\<lparr>progress := True\<rparr>) d' \<and> opens_moved (submit_ids m) (d\<lparr>progress := True\<rparr>) d'"
    using assms by (cases m) (auto dest: handle_op_moves simp: cancel_op_moves)
  then show ?thesis by (simp add: same_channels_def opens_moved_def out_ids_def)
qed

lemma handle_opened_moves:
  assumes "handle_opened K om d = Some d'"
  shows "same_channels d d' \<and> out_ids d' = out_ids d \<and>
    pending_opens d' = pending_opens d - {po_id (op_pending om)} \<and>
    cancelled_opens d' = cancelled_opens d - {po_id (op_pending om)}"
proof -
  let ?i = "po_id (op_pending om)"
  let ?d = "d\<lparr>progress := True, pending_opens := pending_opens d - {?i}\<rparr>"
  show ?thesis
  proof (cases "?i \<in> cancelled_opens d")
    case True
    with assms show ?thesis
      by (auto simp: handle_opened_def Let_def same_channels_def out_ids_def run_close_def with_os_def
          split: sum.splits prod.splits)
  next
    case False
    with assms have "same_links ?d d'" by (auto simp: handle_opened_def Let_def intro: links.opened)
    with False out_ids_links [OF this] show ?thesis
      by (auto simp: same_links_def same_channels_def out_ids_def)
  qed
qed


section \<open>Opens that are out\<close>

fun msg_ids :: "msg \<Rightarrow> nat list" where
  "msg_ids (Msg_Submit i oper c) = [i]"
| "msg_ids (Msg_Cancel i) = []"

definition rx_ids :: "'k aio \<Rightarrow> nat list" where
  "rx_ids d = concat (map msg_ids (pending (rx d)))"

definition back_ids :: "'k aio \<Rightarrow> nat list" where
  "back_ids d = map (\<lambda>om. po_id (op_pending om)) (pending (back_rx d))"

text \<open>
  With \<open>B\<close> the jobs the helpers are busy with and \<open>N\<close> the next op id: op ids are
  distinct, \<open>pending_opens\<close> is exactly the set of opens that are out, and only such an
  open is marked as cancelled.
\<close>

definition outs_ok :: "helper_job list \<Rightarrow> nat \<Rightarrow> 'k aio \<Rightarrow> bool" where
  "outs_ok B N d \<longleftrightarrow>
     distinct (rx_ids d @ out_ids d @ open_ids B @ back_ids d) \<and>
     (\<forall>i \<in> set (rx_ids d @ out_ids d @ open_ids B @ back_ids d). i < N) \<and>
     pending_opens d = set (out_ids d @ open_ids B @ back_ids d) \<and>
     cancelled_opens d \<subseteq> pending_opens d"

text \<open>The channels' ends: nobody but the submitters ever lets go while the driver runs.\<close>

definition ends_ok :: "'k aio \<Rightarrow> bool" where
  "ends_ok d \<longleftrightarrow> receivers (helper_tx d) \<and> senders (back_rx d) \<and> \<not> helpers_gone d \<and>
     (disconnected d \<longrightarrow> pending (rx d) = [] \<and> \<not> senders (rx d))"

lemma outs_ok_moved:
  assumes "outs_ok B N d" and "rx d' = rx d" "back_rx d' = back_rx d"
    and "opens_moved {} d d'"
  shows "outs_ok B N d'"
  using assms by (auto simp: outs_ok_def opens_moved_def rx_ids_def back_ids_def)

lemma outs_ok_handle_msg:
  assumes "outs_ok B N d" and "try_recv (rx d) = (Received m, r)" and "receivers (helper_tx d)"
    and "handle_msg K m (d\<lparr>rx := r\<rparr>) = Some d'"
  shows "outs_ok B N d'"
proof -
  let ?d = "d\<lparr>rx := r\<rparr>"
  have same: "same_channels ?d d'" and moved: "opens_moved (submit_ids m) ?d d'"
    using handle_msg_moves [OF assms(4)] assms(3) by simp_all
  from assms(2) have rx: "pending (rx d) = m # pending r" by (rule try_recv_D)
  from same have bk: "back_ids d' = back_ids d" and rx': "rx_ids d' = concat (map msg_ids (pending r))"
    by (simp_all add: same_channels_def back_ids_def rx_ids_def)
  have ids: "rx_ids d = msg_ids m @ rx_ids d'" using rx rx' by (simp add: rx_ids_def)
  have out: "out_ids ?d = out_ids d" by (simp add: out_ids_def)
  have msg: "set (msg_ids m) = submit_ids m" by (cases m) auto
  from moved assms(1) show ?thesis
    unfolding outs_ok_def opens_moved_def out bk ids using msg
    by (elim conjE disjE bexE) (auto simp: out_ids_def)
qed

lemma outs_ok_handle_opened:
  assumes "outs_ok B N d" and "try_recv (back_rx d) = (Received om, b)"
    and "handle_opened K om (d\<lparr>back_rx := b\<rparr>) = Some d'"
  shows "outs_ok B N d'"
proof -
  let ?d = "d\<lparr>back_rx := b\<rparr>" and ?i = "po_id (op_pending om)"
  have same: "same_channels ?d d'" and out: "out_ids d' = out_ids d"
    and pend: "pending_opens d' = pending_opens d - {?i}"
    and canc: "cancelled_opens d' = cancelled_opens d - {?i}"
    using handle_opened_moves [OF assms(3)] by (simp_all add: out_ids_def)
  from assms(2) have "pending (back_rx d) = om # pending b" by (rule try_recv_D)
  with same have bk: "back_ids d = ?i # back_ids d'" and rx: "rx_ids d' = rx_ids d"
    by (simp_all add: same_channels_def back_ids_def rx_ids_def)
  from assms(1) show ?thesis
    unfolding outs_ok_def out pend canc bk rx by auto
qed

lemma ends_ok_channels:
  assumes "ends_ok d" and "same_channels d' d''"
    and "helper_tx d' = helper_tx d" "senders (back_rx d') = senders (back_rx d)"
    "helpers_gone d' = helpers_gone d" "disconnected d' = disconnected d"
    "senders (rx d') = senders (rx d)" "pending (rx d) = [] \<Longrightarrow> pending (rx d') = []"
  shows "ends_ok d''"
  using assms by (simp add: ends_ok_def same_channels_def)

lemma reap_one_moves:
  assumes "reap_one K k d = Some (k', d')"
  shows "same_channels d d' \<and> opens_moved {} d d'"
  using assms
proof (cases rule: reap_one_cases)
  case (waiting w)
  then show ?thesis by (simp add: same_channels_def opens_moved_def out_ids_def)
next
  case (settled err n bs w)
  from links.settle_reaped [OF settled(2)]
  show ?thesis
    by (auto simp: same_channels_def opens_moved_def out_ids_def same_links_def helper_opens_def open_ids_def)
qed

definition run_ok :: "helper_job list \<Rightarrow> nat \<Rightarrow> 'k aio \<Rightarrow> bool" where
  "run_ok B N d \<longleftrightarrow> outs_ok B N d \<and> ends_ok d"

lemma run_ok_handle_msg:
  assumes "run_ok B N d" and "try_recv (rx d) = (Received m, r)"
    and "handle_msg K m (d\<lparr>rx := r\<rparr>) = Some d'"
  shows "run_ok B N d'"
proof -
  from assms(1) have rec: "receivers (helper_tx d)" by (simp add: run_ok_def ends_ok_def)
  then have "same_channels (d\<lparr>rx := r\<rparr>) d'" using handle_msg_moves [OF assms(3)] by simp
  with assms(1,2) have "ends_ok d'"
    by (auto simp: run_ok_def intro!: ends_ok_channels [where d = d] dest: try_recv_ReceivedD)
  with assms rec show ?thesis by (auto simp: run_ok_def intro: outs_ok_handle_msg)
qed

lemma run_ok_handle_opened:
  assumes "run_ok B N d" and "try_recv (back_rx d) = (Received om, b)"
    and "handle_opened K om (d\<lparr>back_rx := b\<rparr>) = Some d'"
  shows "run_ok B N d'"
proof -
  have "same_channels (d\<lparr>back_rx := b\<rparr>) d'" using handle_opened_moves [OF assms(3)] by simp
  with assms(1,2) have "ends_ok d'"
    by (auto simp: run_ok_def intro!: ends_ok_channels [where d = d] dest: try_recv_ReceivedD)
  with assms show ?thesis by (auto simp: run_ok_def intro: outs_ok_handle_opened)
qed

lemma run_ok_moved:
  assumes "run_ok B N d" and "same_channels d d'" and "opens_moved {} d d'"
  shows "run_ok B N d'"
  using assms by (auto simp: run_ok_def ends_ok_def same_channels_def intro: outs_ok_moved)

lemma run_ok_disconnected:
  assumes "run_ok B N d" and "try_recv (rx d) = (Disconnected, r)"
  shows "run_ok B N (d\<lparr>disconnected := True\<rparr>)"
  using assms
  by (cases "pending (rx d)")
     (auto simp: run_ok_def ends_ok_def outs_ok_def rx_ids_def out_ids_def back_ids_def try_recv_def split: if_splits)

text \<open>The helpers' channel is never found disconnected.\<close>

lemma run_ok_back_alive: "run_ok B N d \<Longrightarrow> try_recv (back_rx d) \<noteq> (Disconnected, b)"
  by (cases "pending (back_rx d)") (auto simp: run_ok_def ends_ok_def try_recv_def)

lemma run_ok_wait_idle: "wait_idle K d d' \<Longrightarrow> run_ok B N d \<Longrightarrow> run_ok B N d'"
  by (induction rule: wait_idle.induct)
     (auto intro: run_ok_handle_msg run_ok_handle_opened run_ok_disconnected dest: run_ok_back_alive)

lemma run_ok_run_step:
  assumes "run_step K (p, d) (p', d')" and "run_ok B N d"
  shows "run_ok B N d'"
  using assms
proof (cases rule: run_step.cases)
  case top_return
  with assms(2) show ?thesis
    by (auto simp: run_ok_def outs_ok_def ends_ok_def drop_driver_def rx_ids_def out_ids_def back_ids_def)
next
  case (reap_next k k')
  with assms(2) show ?thesis by (auto dest!: reap_one_moves intro: run_ok_moved)
next
  case wait_inflight
  have "same_channels d (suspend K d) \<and> opens_moved {} d (suspend K d)"
    by (simp add: suspend_def Let_def same_channels_def opens_moved_def out_ids_def)
  with wait_inflight assms(2) show ?thesis by (auto intro: run_ok_moved)
next
  case (submitting d1)
  then have "same_links d d1" by (auto intro: links.submit_ready)
  then have "run_ok B N d1"
    by (intro run_ok_moved [OF assms(2)]) (simp_all add: same_channels_links opens_moved_links)
  then have "run_ok B N (adapt d1)"
    by (rule run_ok_moved) (simp_all add: adapt_def same_channels_def opens_moved_def out_ids_def)
  with submitting show ?thesis by simp
qed (auto intro: run_ok_handle_msg run_ok_handle_opened run_ok_disconnected run_ok_wait_idle
      dest: run_ok_back_alive)


section \<open>The books of the whole system\<close>

text \<open>Tokens on the way to the driver: submitted messages and opened descriptors.\<close>

definition transit :: "'k aio \<Rightarrow> token multiset" where
  "transit d = sum_list (map msg_tokens (pending (rx d))) + sum_list (map opened_tokens (pending (back_rx d)))"

definition books :: "token multiset \<Rightarrow> 'k aio \<Rightarrow> 'k aio \<Rightarrow> bool" where
  "books extra d d' \<longleftrightarrow>
     ledger d' + transit d' + gained (log (os d)) = ledger d + transit d + gained (log (os d')) + extra"

lemma books_accounts:
  assumes "accounts {#} d d'" and "finite (dom (files d))" and "same_channels d d'"
  shows "books {#} d d'"
  using assms by (simp add: accounts_def books_def transit_def same_channels_def algebra_simps)

lemma drv_inv_finite: "drv_inv d \<Longrightarrow> finite (dom (files d))"
  by (auto simp: drv_inv_def intro: tinv_finite)

lemma drv_inv_fresh: "drv_inv d \<Longrightarrow> fresh_id d"
  by (auto simp: drv_inv_def intro: tinv_fresh)

lemma books_handle_msg:
  assumes "try_recv (rx d) = (Received m, r)" and "handle_msg K m (d\<lparr>rx := r\<rparr>) = Some d'"
    and "drv_inv d" and "receivers (helper_tx d)"
  shows "books {#} d d'"
proof -
  let ?d = "d\<lparr>rx := r\<rparr>"
  have "accounts (msg_tokens m) ?d d'"
    using assms(2,3) by (intro accounts_handle_msg) (auto intro: drv_inv_fresh)
  moreover have "same_channels ?d d'" using handle_msg_moves [OF assms(2)] assms(4) by simp
  moreover have "pending (rx d) = m # pending r" using assms(1) by (rule try_recv_D)
  moreover have "finite (dom (files d))" using assms(3) by (rule drv_inv_finite)
  ultimately show ?thesis
    by (simp add: accounts_def books_def transit_def same_channels_def ledger_def held_def jobs_def algebra_simps)
qed

lemma books_handle_opened:
  assumes "try_recv (back_rx d) = (Received om, b)" and "handle_opened K om (d\<lparr>back_rx := b\<rparr>) = Some d'"
    and "drv_inv d"
  shows "books {#} d d'"
proof -
  let ?d = "d\<lparr>back_rx := b\<rparr>"
  have "accounts (opened_tokens om) ?d d'"
    using assms(2,3) by (intro accounts_handle_opened) (auto intro: drv_inv_fresh)
  moreover have "same_channels ?d d'" using handle_opened_moves [OF assms(2)] by simp
  moreover have "pending (back_rx d) = om # pending b" using assms(1) by (rule try_recv_D)
  moreover have "finite (dom (files d))" using assms(3) by (rule drv_inv_finite)
  ultimately show ?thesis
    by (simp add: accounts_def books_def transit_def same_channels_def ledger_def held_def jobs_def algebra_simps)
qed

lemma books_same:
  assumes "files d' = files d" "pending (helper_tx d') = pending (helper_tx d)" "jobs d' = jobs d"
    "log (os d') = log (os d)" "pending (rx d') = pending (rx d)" "pending (back_rx d') = pending (back_rx d)"
  shows "books {#} d d'"
  using assms by (simp add: books_def ledger_def held_def transit_def)

lemma books_wait_idle:
  assumes "wait_idle K d d'" and "drv_inv d" and "run_ok B N d"
  shows "books {#} d d'"
  using assms(1)
proof (cases rule: wait_idle.cases)
  case (only_rx m r)
  with assms(2,3) show ?thesis by (auto simp: run_ok_def ends_ok_def intro: books_handle_msg)
next
  case (select_rx m r)
  with assms(2,3) show ?thesis by (auto simp: run_ok_def ends_ok_def intro: books_handle_msg)
qed (use assms(2,3) run_ok_back_alive [OF assms(3)] in \<open>auto intro: books_handle_opened books_same simp: jobs_def\<close>)

lemma books_run_step:
  assumes "run_step K (p, d) (p', d')" and "drv_inv d" and "run_ok B N d"
  shows "books {#} d d'"
  using assms(1)
proof (cases rule: run_step.cases)
  case (reap_next k k')
  with assms(2) show ?thesis
    by (auto intro!: books_accounts intro: accounts_reap_one drv_inv_finite dest: reap_one_moves)
next
  case top_idle
  with assms show ?thesis by (auto intro: books_wait_idle)
next
  case drain_rx
  with assms(2,3) show ?thesis
    by (auto simp: run_ok_def ends_ok_def jobs_def intro: books_handle_msg books_same)
next
  case drain_back
  with assms(2,3) show ?thesis by (auto intro: books_handle_opened books_same dest: run_ok_back_alive)
next
  case (submitting d1)
  then have sub: "submit_ready K d = Some d1" and d': "d' = adapt d1" by simp_all
  have "books {#} d d1"
    using accounts_submit_ready [OF sub] drv_inv_finite [OF assms(2)]
      same_channels_links [OF links.submit_ready [OF sub]] by (rule books_accounts)
  moreover have "ledger d' = ledger d1" "transit d' = transit d1" "log (os d') = log (os d1)"
    by (simp_all add: d' adapt_def ledger_def held_def jobs_def transit_def)
  ultimately show ?thesis by (simp add: books_def)
next
  case wait_inflight
  then show ?thesis by (auto simp: suspend_def Let_def jobs_def intro!: books_same)
qed (auto intro: books_same simp: jobs_def drop_driver_def)

lemma books_helper_body:
  assumes "drv_inv d"
  shows "books (helper_tokens hj) d (helper_body K hj d)"
proof (cases hj)
  case (Helper_Close f)
  have "accounts {#T_fd f#} d (run_close K f d)" by simp
  moreover have "same_channels d (run_close K f d)" by (simp add: same_channels_links links.run_close)
  ultimately show ?thesis
    using Helper_Close drv_inv_finite [OF assms]
    by (simp add: helper_body_def accounts_def books_def transit_def same_channels_def algebra_simps)
next
  case (Helper_Open path spec p)
  obtain r s where op: "open_for K path spec (po_then p) (os d) = (r, s)"
    by (cases "open_for K path spec (po_then p) (os d)")
  let ?om = "\<lparr>op_pending = p, op_result = r\<rparr>" and ?d = "d\<lparr>os := s\<rparr>"
  have tokens: "opened_tokens ?om = add_mset (T_cb (po_cb p)) (result_tokens r)" by (simp add: opened_tokens_def)
  have base: "spent (log s) + gained (log (os d)) + result_tokens r = spent (log (os d)) + gained (log s)"
    by (rule open_for_ledger [OF op])
  show ?thesis
  proof (cases "receivers (back_rx d)")
    case True
    let ?d' = "?d\<lparr>back_rx := (back_rx d)\<lparr>pending := pending (back_rx d) @ [?om]\<rparr>\<rparr>"
    have d': "helper_body K hj d = ?d'"
      using Helper_Open op True by (simp add: helper_body_def with_os_def send_def)
    have "ledger ?d' + gained (log (os d)) + result_tokens r = ledger d + gained (log s)"
      using base by (simp add: ledger_def held_def jobs_def ac_simps)
    then show ?thesis
      unfolding d' by (simp add: books_def transit_def tokens Helper_Open ac_simps)
  next
    case False
    let ?d1 = "case r of Inr (f, _) \<Rightarrow> run_close K f ?d | Inl _ \<Rightarrow> ?d"
    let ?d' = "call_cb (po_cb p) (Inl driver_gone) ?d1"
    have d': "helper_body K hj d = ?d'"
      using Helper_Open op False by (simp add: helper_body_def with_os_def send_def Let_def)
    have "accounts (result_tokens r) ?d ?d1"
      by (auto simp: result_tokens_def split: sum.split prod.split)
    from accounts_trans [OF this accounts_call_cb]
    have "accounts ({#T_cb (po_cb p)#} + result_tokens r) ?d ?d'" by simp
    then have acc: "accounts {#T_cb (po_cb p)#} d ?d'" using base by (rule accounts_swap_log)
    have "same_channels d ?d'"
      by (auto simp: same_channels_def run_close_def with_os_def split: sum.split prod.split)
    with acc drv_inv_finite [OF assms] show ?thesis
      unfolding d' by (simp add: accounts_def books_def transit_def same_channels_def Helper_Open algebra_simps)
  qed
qed


section \<open>Reachable states\<close>

definition outstanding :: "'k system \<Rightarrow> token multiset" where
  "outstanding s = held (drv s) + transit (drv s) + sum_list (map helper_tokens (busy s))"

definition sys_inv :: "'k system \<Rightarrow> bool" where
  "sys_inv s \<longleftrightarrow> drv_inv (drv s) \<and> run_ok (busy s) (next_op (front s)) (drv s) \<and>
     spent (log (os (drv s))) + outstanding s =
       gained (log (os (drv s))) + image_mset T_cb (mset (map fst (asked s))) \<and>
     (at s \<noteq> Halted \<longrightarrow> receivers (rx (drv s)) \<and> receivers (back_rx (drv s))) \<and>
     (at s = Halted \<longrightarrow> idle (drv s) \<and> disconnected (drv s) \<and> pending_opens (drv s) = {}) \<and>
     (at s = Top \<longrightarrow> queue (drv s) = [] \<or> inflight (drv s) \<noteq> [])"

lemma books_outstanding:
  assumes "books extra d d'" and "spent (log (os d)) + (held d + transit d + X) = gained (log (os d)) + G"
  shows "spent (log (os d')) + (held d' + transit d' + X) = gained (log (os d')) + G + extra"
proof -
  from assms(1) have b: "spent (log (os d')) + held d' + transit d' + gained (log (os d)) =
      spent (log (os d)) + held d + transit d + gained (log (os d')) + extra"
    by (simp add: books_def ledger_def add_ac)
  have "(spent (log (os d')) + (held d' + transit d' + X)) + gained (log (os d)) =
      (spent (log (os d')) + held d' + transit d' + gained (log (os d))) + X"
    by (simp add: add_ac)
  also have "\<dots> = (spent (log (os d)) + (held d + transit d + X)) + (gained (log (os d')) + extra)"
    by (simp only: b) (simp add: add_ac)
  also have "\<dots> = (gained (log (os d')) + G + extra) + gained (log (os d))"
    by (simp only: assms(2)) (simp add: add_ac)
  finally show ?thesis by simp
qed

lemma wait_idle_receivers:
  assumes "wait_idle K d d'" and "run_ok B N d"
  shows "receivers (rx d') = receivers (rx d) \<and> receivers (back_rx d') = receivers (back_rx d)"
proof -
  have rec: "receivers (helper_tx d)" using assms(2) by (simp add: run_ok_def ends_ok_def)
  have msg: "receivers (rx d') = receivers (rx d) \<and> receivers (back_rx d') = receivers (back_rx d)"
    if "try_recv (rx d) = (Received m, r)" "handle_msg K m (d\<lparr>rx := r\<rparr>) = Some d'" for m r
    using handle_msg_moves [OF that(2)] rec try_recv_ReceivedD [OF that(1)] by (simp add: same_channels_def)
  have opn: "receivers (rx d') = receivers (rx d) \<and> receivers (back_rx d') = receivers (back_rx d)"
    if "try_recv (back_rx d) = (Received om, b)" "handle_opened K om (d\<lparr>back_rx := b\<rparr>) = Some d'" for om b
    using handle_opened_moves [OF that(2)] try_recv_ReceivedD [OF that(1)] by (simp add: same_channels_def)
  show ?thesis
    using assms(1) msg opn by (cases rule: wait_idle.cases) (simp_all add: lose_helpers_def)
qed

lemma run_step_receivers:
  assumes "run_step K (p, d) (p', d')" and "run_ok B N d" and "p' \<noteq> Halted"
  shows "receivers (rx d') = receivers (rx d) \<and> receivers (back_rx d') = receivers (back_rx d)"
  using assms(1)
proof (cases rule: run_step.cases)
  case top_idle
  with assms show ?thesis by (auto dest: wait_idle_receivers)
next
  case (reap_next k k')
  then show ?thesis by (auto dest!: reap_one_moves simp: same_channels_def)
next
  case drain_rx
  from drain_rx(2) show ?thesis
  proof (cases rule: drain_submissionsE)
    case (msg m r)
    have "receivers (helper_tx d)" using assms(2) by (simp add: run_ok_def ends_ok_def)
    with msg handle_msg_moves try_recv_ReceivedD [of "rx d" m r] show ?thesis
      by (fastforce simp: same_channels_def)
  qed simp_all
next
  case drain_back
  from drain_back(2) show ?thesis
  proof (cases rule: drain_openedE)
    case (msg om b)
    with handle_opened_moves try_recv_ReceivedD [of "back_rx d" om b] show ?thesis
      by (fastforce simp: same_channels_def)
  qed (simp_all add: lose_helpers_def)
next
  case (submitting d1)
  then show ?thesis by (auto dest!: links.submit_ready simp: same_links_def adapt_def)
qed (use assms(3) in \<open>simp_all add: suspend_def Let_def\<close>)

lemma run_step_halts:
  assumes "run_step K (p, d) (Halted, d')"
  shows "idle d' \<and> disconnected d' \<and> pending_opens d' = {}"
  using assms by (cases rule: run_step.cases) (auto simp: drop_driver_def idle_def)

lemma run_step_top:
  assumes "run_step K (p, d) (Top, d')" and "drv_inv d"
  shows "queue d' = [] \<or> inflight d' \<noteq> []"
  using assms(1)
proof (cases rule: run_step.cases)
  case (submitting d1)
  with assms(2) show ?thesis
    using submit_ready_busy [of K d d1] by (simp add: drv_inv_def slots_inv_def adapt_def)
qed auto

lemma run_step_not_halted: "run_step K (p, d) (p', d') \<Longrightarrow> p \<noteq> Halted"
  by (auto elim: run_step.cases)

lemma sys_inv_drives:
  assumes "sys_inv s" and step: "run_step K (at s, drv s) (p, d)"
  shows "sys_inv (s\<lparr>at := p, drv := d\<rparr>)"
proof -
  let ?N = "next_op (front s)"
  from assms(1) have inv: "drv_inv (drv s)" and ok: "run_ok (busy s) ?N (drv s)"
    by (simp_all add: sys_inv_def)
  have "drv_inv d" using step inv by (rule drv_inv_run_step)
  moreover have "run_ok (busy s) ?N d" using step ok by (rule run_ok_run_step)
  moreover have "spent (log (os d)) + (held d + transit d + sum_list (map helper_tokens (busy s))) =
      gained (log (os d)) + image_mset T_cb (mset (map fst (asked s))) + {#}"
    by (rule books_outstanding [OF books_run_step [OF step inv ok]])
       (use assms(1) in \<open>simp add: sys_inv_def outstanding_def\<close>)
  moreover have "receivers (rx d) \<and> receivers (back_rx d)" if "p \<noteq> Halted"
    using run_step_receivers [OF step ok that] run_step_not_halted [OF step] assms(1) by (simp add: sys_inv_def)
  moreover have "idle d \<and> disconnected d \<and> pending_opens d = {}" if "p = Halted"
    using run_step_halts step that by blast
  moreover have "queue d = [] \<or> inflight d \<noteq> []" if "p = Top"
    using run_step_top step that inv by blast
  ultimately show ?thesis by (simp add: sys_inv_def outstanding_def)
qed

lemma sys_inv_submits:
  assumes "sys_inv s" and "senders (rx (drv s))"
    and sub: "submit oper c (front s) (rx (drv s)) = (i, fr, tx, calls)"
  shows "sys_inv (s\<lparr>front := fr, asked := asked s @ [(c, oper)],
                    drv := (drv s)\<lparr>rx := tx, os := log_calls calls (os (drv s))\<rparr>\<rparr>)"
proof -
  let ?r = "rx (drv s)" and ?i = "next_op (front s)"
  from assms(1,2) have rec: "receivers ?r"
    by (cases "at s = Halted") (auto simp: sys_inv_def run_ok_def ends_ok_def)
  with sub have fr: "fr = (front s)\<lparr>next_op := ?i + 1\<rparr>" and calls: "calls = []"
    and tx: "tx = ?r\<lparr>pending := pending ?r @ [Msg_Submit ?i oper c]\<rparr>"
    by (auto simp: submit_cases)
  have "run_ok (busy s) (?i + 1) ((drv s)\<lparr>rx := tx, os := log_calls calls (os (drv s))\<rparr>)"
    using assms(1,2) by (auto simp: sys_inv_def run_ok_def ends_ok_def outs_ok_def tx calls
        rx_ids_def out_ids_def back_ids_def log_calls_def less_Suc_eq)
  moreover have "log_calls [] (os (drv s)) = os (drv s)" by (simp add: log_calls_def)
  ultimately show ?thesis
    using assms(1) rec
    by (simp add: sys_inv_def fr tx calls outstanding_def transit_def held_def jobs_def idle_def)
qed


text \<open>Only the multiset of the opens that are out matters, not who has them.\<close>

lemma outs_ok_perm:
  assumes "outs_ok B N d" and "rx_ids d' = rx_ids d"
    and ids: "mset (out_ids d' @ open_ids B' @ back_ids d') = mset (out_ids d @ open_ids B @ back_ids d)"
    and "pending_opens d' = pending_opens d" "cancelled_opens d' = cancelled_opens d"
  shows "outs_ok B' N d'"
proof -
  from ids have all: "mset (rx_ids d' @ out_ids d' @ open_ids B' @ back_ids d') =
      mset (rx_ids d @ out_ids d @ open_ids B @ back_ids d)"
    using assms(2) by simp
  show ?thesis
    using assms(1)
    unfolding outs_ok_def assms(4,5) mset_eq_imp_distinct_iff [OF all] mset_eq_setD [OF all] mset_eq_setD [OF ids]
    by blast
qed

lemma sys_inv_rx:
  assumes "sys_inv s"
    and "sum_list (map msg_tokens (pending r)) = sum_list (map msg_tokens (pending (rx (drv s))))"
    and "concat (map msg_ids (pending r)) = concat (map msg_ids (pending (rx (drv s))))"
    and "receivers r = receivers (rx (drv s))"
    and "disconnected (drv s) \<Longrightarrow> pending r = [] \<and> \<not> senders r"
  shows "sys_inv (s\<lparr>drv := (drv s)\<lparr>rx := r\<rparr>\<rparr>)"
proof -
  let ?d = "(drv s)\<lparr>rx := r\<rparr>"
  have ok: "run_ok (busy s) (next_op (front s)) (drv s)" using assms(1) by (simp add: sys_inv_def)
  then have "outs_ok (busy s) (next_op (front s)) (drv s)" by (simp add: run_ok_def)
  then have "outs_ok (busy s) (next_op (front s)) ?d"
    by (rule outs_ok_perm) (simp_all add: assms(3) rx_ids_def out_ids_def back_ids_def)
  moreover have "ends_ok ?d" using ok assms(5) by (simp add: run_ok_def ends_ok_def)
  moreover have "held ?d + transit ?d = held (drv s) + transit (drv s)"
    using assms(2) by (simp add: held_def jobs_def transit_def)
  ultimately show ?thesis
    using assms(1,4) by (simp add: sys_inv_def run_ok_def outstanding_def idle_def)
qed

lemma sys_inv_cancels:
  assumes "sys_inv s" and "senders (rx (drv s))"
  shows "sys_inv (s\<lparr>drv := (drv s)\<lparr>rx := cancel i (rx (drv s))\<rparr>\<rparr>)"
  by (rule sys_inv_rx [OF assms(1)])
     (use assms in \<open>auto simp: cancel_def send_def sys_inv_def run_ok_def ends_ok_def\<close>)

lemma sys_inv_drops:
  assumes "sys_inv s"
  shows "sys_inv (s\<lparr>drv := (drv s)\<lparr>rx := (rx (drv s))\<lparr>senders := False\<rparr>\<rparr>\<rparr>)"
  by (rule sys_inv_rx [OF assms]) (use assms in \<open>auto simp: sys_inv_def run_ok_def ends_ok_def\<close>)

lemma sys_inv_takes:
  assumes "sys_inv s" and "try_recv (helper_tx (drv s)) = (Received hj, h)"
  shows "sys_inv (s\<lparr>busy := busy s @ [hj], drv := (drv s)\<lparr>helper_tx := h\<rparr>\<rparr>)"
proof -
  have pend: "pending (helper_tx (drv s)) = hj # pending h" and rec: "receivers h = receivers (helper_tx (drv s))"
    using try_recv_ReceivedD [OF assms(2)] by simp_all
  then have "open_ids (pending (helper_tx (drv s))) = open_ids [hj] @ open_ids (pending h)"
    by (simp add: open_ids_def)
  then have ids: "out_ids (drv s) = open_ids [hj] @ out_ids ((drv s)\<lparr>helper_tx := h\<rparr>)"
    by (simp add: out_ids_def)
  have ok: "outs_ok (busy s) (next_op (front s)) (drv s)"
    using assms(1) by (simp add: sys_inv_def run_ok_def)
  then have "outs_ok (busy s @ [hj]) (next_op (front s)) ((drv s)\<lparr>helper_tx := h\<rparr>)"
    by (rule outs_ok_perm) (simp_all add: ids rx_ids_def back_ids_def)
  with assms(1) rec have "run_ok (busy s @ [hj]) (next_op (front s)) ((drv s)\<lparr>helper_tx := h\<rparr>)"
    by (simp add: sys_inv_def run_ok_def ends_ok_def)
  with assms(1) pend show ?thesis
    by (simp add: sys_inv_def outstanding_def transit_def held_def jobs_def idle_def add_ac)
qed

lemma open_ids_remove_at:
  assumes "k < length B"
  shows "mset (open_ids B) = mset (open_ids [B ! k]) + mset (open_ids (remove_at B k))"
  using mset_remove_at [OF assms] by (simp add: open_ids_def)

lemma run_ok_helper_body:
  assumes "run_ok B N d" and "k < length B" and "receivers (back_rx d) \<or> pending_opens d = {}"
  shows "run_ok (remove_at B k) N (helper_body K (B ! k) d)"
proof (cases "B ! k")
  case (Helper_Close f)
  let ?d = "helper_body K (B ! k) d"
  have links: "same_links d ?d" using Helper_Close by (simp add: helper_body_def links.run_close)
  have ok: "outs_ok B N d" using assms(1) by (simp add: run_ok_def)
  then have "outs_ok (remove_at B k) N ?d"
    by (rule outs_ok_perm)
       (use links open_ids_remove_at [OF assms(2)] out_ids_links [OF links] Helper_Close
         in \<open>simp_all add: same_links_def rx_ids_def back_ids_def\<close>)
  moreover have "ends_ok ?d" using assms(1) links by (simp add: run_ok_def ends_ok_def same_links_def)
  ultimately show ?thesis by (simp add: run_ok_def)
next
  case (Helper_Open path spec p)
  obtain r s where op: "open_for K path spec (po_then p) (os d) = (r, s)"
    by (cases "open_for K path spec (po_then p) (os d)")
  have ids: "mset (open_ids B) = add_mset (po_id p) (mset (open_ids (remove_at B k)))"
    using open_ids_remove_at [OF assms(2)] Helper_Open by simp
  then have "po_id p \<in> set (open_ids B)"
    by (metis set_mset_mset union_single_eq_member)
  then have "po_id p \<in> pending_opens d" using assms(1) by (simp add: run_ok_def outs_ok_def)
  with assms(3) have rec: "receivers (back_rx d)" by auto
  let ?d = "d\<lparr>os := s, back_rx := (back_rx d)\<lparr>pending := pending (back_rx d) @ [\<lparr>op_pending = p, op_result = r\<rparr>]\<rparr>\<rparr>"
  have d': "helper_body K (B ! k) d = ?d"
    using Helper_Open op rec by (simp add: helper_body_def with_os_def send_def)
  have ok: "outs_ok B N d" using assms(1) by (simp add: run_ok_def)
  then have "outs_ok (remove_at B k) N ?d"
    by (rule outs_ok_perm) (simp_all add: ids rx_ids_def out_ids_def back_ids_def)
  moreover have "ends_ok ?d" using assms(1) by (simp add: run_ok_def ends_ok_def)
  ultimately show ?thesis by (simp add: run_ok_def d')
qed

lemma helper_body_frame [simp]:
  "inflight (helper_body K hj d) = inflight d" "queue (helper_body K hj d) = queue d"
  "rx (helper_body K hj d) = rx d" "receivers (back_rx (helper_body K hj d)) = receivers (back_rx d)"
  "disconnected (helper_body K hj d) = disconnected d" "pending_opens (helper_body K hj d) = pending_opens d"
  by (auto simp: helper_body_def run_close_def with_os_def send_def Let_def
      split: helper_job.split prod.split sum.split)

lemma sys_inv_helps:
  assumes "sys_inv s" and "k < length (busy s)"
  shows "sys_inv (s\<lparr>busy := remove_at (busy s) k, drv := helper_body K (busy s ! k) (drv s)\<rparr>)"
proof -
  let ?hj = "busy s ! k" and ?B = "remove_at (busy s) k" and ?d = "helper_body K (busy s ! k) (drv s)"
  let ?H = "\<lambda>B. sum_list (map helper_tokens B)"
  have inv: "drv_inv (drv s)" using assms(1) by (simp add: sys_inv_def)
  have "sum_mset (image_mset helper_tokens (mset (busy s))) =
      helper_tokens ?hj + sum_mset (image_mset helper_tokens (mset ?B))"
    by (subst mset_remove_at [OF assms(2)]) simp
  then have H: "?H (busy s) = ?H ?B + helper_tokens ?hj"
    by (metis add.commute mset_map sum_mset_sum_list)
  have "spent (log (os ?d)) + (held ?d + transit ?d + ?H (busy s)) =
      gained (log (os ?d)) + image_mset T_cb (mset (map fst (asked s))) + helper_tokens ?hj"
    by (rule books_outstanding [OF books_helper_body [OF inv]])
       (use assms(1) in \<open>simp add: sys_inv_def outstanding_def\<close>)
  then have "spent (log (os ?d)) + (held ?d + transit ?d + ?H ?B) =
      gained (log (os ?d)) + image_mset T_cb (mset (map fst (asked s)))"
    by (simp add: H add_ac)
  moreover have "run_ok ?B (next_op (front s)) ?d"
    using assms by (intro run_ok_helper_body) (auto simp: sys_inv_def)
  ultimately show ?thesis
    using assms(1) by (simp add: sys_inv_def outstanding_def idle_def drv_inv_helper_body)
qed

lemma sys_inv_start: "sys_inv (start_system K s)"
proof -
  have "drv_inv (drv (start_system K s))" by (rule drv_inv_reachable [OF reachable.init])
  then show ?thesis
    by (simp add: sys_inv_def start_system_def aio_new_def new_channel_def driver_new_def run_ok_def
        ends_ok_def outs_ok_def rx_ids_def out_ids_def back_ids_def outstanding_def held_def jobs_def
        transit_def)
qed

lemma sys_inv_reachable: "reachable K n s \<Longrightarrow> sys_inv s"
proof (induction rule: reachable.induct)
  case (init s)
  show ?case by (rule sys_inv_start)
next
  case (step s s')
  from step.hyps(2) step.IH show ?case
    by (cases rule: sys_step.cases)
       (auto intro: sys_inv_submits sys_inv_cancels sys_inv_drops sys_inv_drives sys_inv_takes sys_inv_helps)
qed


section \<open>Callbacks and descriptors\<close>

fun call_of :: "event \<Rightarrow> cb list" where
  "call_of (Ev_call c res) = [c]"
| "call_of _ = []"

fun open_of :: "event \<Rightarrow> fd list" where
  "open_of (Ev_open f) = [f]"
| "open_of _ = []"

fun close_of :: "event \<Rightarrow> fd list" where
  "close_of (Ev_close f) = [f]"
| "close_of _ = []"

definition invoked :: "'k system \<Rightarrow> cb list" where
  "invoked s = concat (map call_of (log (os (drv s))))"

definition fds_opened :: "'k system \<Rightarrow> fd list" where
  "fds_opened s = concat (map open_of (log (os (drv s))))"

definition fds_closed :: "'k system \<Rightarrow> fd list" where
  "fds_closed s = concat (map close_of (log (os (drv s))))"

fun cb_of :: "token \<Rightarrow> cb list" where
  "cb_of (T_cb c) = [c]"
| "cb_of (T_fd f) = []"

fun fd_of :: "token \<Rightarrow> fd list" where
  "fd_of (T_fd f) = [f]"
| "fd_of (T_cb c) = []"

definition cbs :: "token multiset \<Rightarrow> cb multiset" where
  "cbs M = (\<Sum>t\<in>#M. mset (cb_of t))"

definition fds :: "token multiset \<Rightarrow> fd multiset" where
  "fds M = (\<Sum>t\<in>#M. mset (fd_of t))"

lemma cbs_simps [simp]: "cbs {#} = {#}" "cbs (M + N) = cbs M + cbs N"
  "cbs (add_mset t M) = mset (cb_of t) + cbs M" "cbs (image_mset T_cb C) = C"
  by (simp_all add: cbs_def image_mset.compositionality comp_def)

lemma fds_simps [simp]: "fds {#} = {#}" "fds (M + N) = fds M + fds N"
  "fds (add_mset t M) = mset (fd_of t) + fds M" "fds (image_mset T_cb C) = {#}"
  by (simp_all add: fds_def image_mset.compositionality comp_def)

lemma spent_tokens: "cbs (spent l) = mset (concat (map call_of l))" "fds (spent l) = mset (concat (map close_of l))"
proof (induction l)
  case (Cons ev l)
  { case 1 show ?case using Cons by (cases ev) simp_all }
  { case 2 show ?case using Cons by (cases ev) simp_all }
qed simp_all

lemma gained_tokens: "cbs (gained l) = {#}" "fds (gained l) = mset (concat (map open_of l))"
proof (induction l)
  case (Cons ev l)
  { case 1 show ?case using Cons by (cases ev) simp_all }
  { case 2 show ?case using Cons by (cases ev) simp_all }
qed simp_all

lemma reachable_books:
  "reachable K n s \<Longrightarrow> spent (log (os (drv s))) + outstanding s =
     gained (log (os (drv s))) + image_mset T_cb (mset (map fst (asked s)))"
  by (drule sys_inv_reachable) (simp add: sys_inv_def)

lemma reachable_callbacks:
  assumes "reachable K n s"
  shows "mset (invoked s) + cbs (outstanding s) = mset (map fst (asked s))"
  using arg_cong [OF reachable_books [OF assms], of cbs]
  by (simp add: spent_tokens gained_tokens invoked_def)

lemma reachable_descriptors:
  assumes "reachable K n s"
  shows "mset (fds_closed s) + fds (outstanding s) = mset (fds_opened s)"
  using arg_cong [OF reachable_books [OF assms], of fds]
  by (simp add: spent_tokens gained_tokens fds_opened_def fds_closed_def)

text \<open>Once the driver has returned nothing with a callback is left anywhere.\<close>

text \<open>Without jobs no close is delayed, so the file table holds no callback.\<close>

lemma no_entry_callbacks:
  assumes "drv_inv d" and "jobs d = []"
  shows "cbs (entries_sum entry_tokens (files d)) = {#}"
proof -
  have "keys d = {#}" using assms(2) by (simp add: keys_def)
  with assms(1) have "fe_closing e = None" if "files d h = Some e" for h e
    using that by (auto simp: drv_inv_def tinv_def table_inv_def entry_ok_def ops_on_def)
  then have entry: "cbs (entry_tokens (the (files d h))) = {#}" if "h \<in> dom (files d)" for h
    using that by (auto simp: entry_tokens_def)
  have "cbs (entries_sum entry_tokens (files d)) = (\<Sum>h\<in>dom (files d). cbs (entry_tokens (the (files d h))))"
    unfolding entries_sum_def by (induction rule: infinite_finite_induct) simp_all
  also have "\<dots> = {#}" using entry by simp
  finally show ?thesis .
qed

lemma halted_no_callbacks:
  assumes "sys_inv s" and "at s = Halted"
  shows "cbs (outstanding s) = {#}"
proof -
  let ?d = "drv s"
  from assms have idle: "jobs ?d = []" and pend: "pending_opens ?d = {}" and "disconnected ?d"
    and inv: "drv_inv ?d" and ok: "run_ok (busy s) (next_op (front s)) ?d"
    by (simp_all add: sys_inv_def idle_def jobs_def)
  then have rx: "pending (rx ?d) = []" by (simp add: run_ok_def ends_ok_def)
  from ok pend have none: "out_ids ?d = []" "open_ids (busy s) = []" "back_ids ?d = []"
    by (simp_all add: run_ok_def outs_ok_def)
  then have bk: "pending (back_rx ?d) = []" by (simp add: back_ids_def)
  have closes: "cbs (sum_list (map helper_tokens B)) = {#}" if "open_ids B = []" for B
    using that
  proof (induction B)
    case (Cons hj B)
    then show ?case by (cases hj) simp_all
  qed simp
  from no_entry_callbacks [OF inv idle] show ?thesis
    using idle rx bk closes none by (simp add: outstanding_def held_def transit_def out_ids_def)
qed

section \<open>Descriptors under a request\<close>

lemma in_sum_list_mset: "t \<in># sum_list Ms \<longleftrightarrow> (\<exists>M \<in> set Ms. t \<in># M)"
  by (induction Ms) auto

lemma in_fds: "T_fd f \<in># M \<Longrightarrow> f \<in># fds M"
  by (induction M) auto

lemma job_fd_held:
  assumes "drv_inv d" and "j \<in> set (jobs d)"
  shows "kind_fd (j_kind j) \<in># fds (held d)"
proof -
  let ?key = "kind_key (j_kind j)"
  from assms have ok: "key_ok (files d) ?key"
    by (auto simp: drv_inv_def tinv_def table_inv_def keys_def)
  have fin: "finite (dom (files d))" using assms(1) by (auto simp: drv_inv_def intro: tinv_finite)
  show ?thesis
  proof (cases "kind_handle (j_kind j)")
    case None
    with ok have "kind_owned_fd (j_kind j)" by (simp add: key_ok_def kind_key_def)
    then have "T_fd (kind_fd (j_kind j)) \<in># job_tokens j" by (simp add: job_tokens_def)
    with assms(2) have "T_fd (kind_fd (j_kind j)) \<in># sum_list (map job_tokens (jobs d))"
      by (auto simp: in_sum_list_mset)
    then show ?thesis by (simp add: held_def in_fds)
  next
    case (Some h)
    with ok obtain e where e: "files d h = Some e" "fe_fd e = kind_fd (j_kind j)"
      by (auto simp: key_ok_def kind_key_def)
    have "entries_sum entry_tokens (files d) = entry_tokens e + entries_sum entry_tokens ((files d)(h := None))"
      by (rule entries_sum_remove [OF fin e(1)])
    with e(2) show ?thesis by (simp add: held_def entry_tokens_def)
  qed
qed

end
