(* ===== verification/Aio_Progress.thy ===== *)
theory Aio_Progress
  imports Aio_System
begin

text \<open>
  The driver never gets stuck: with a kernel that never leaves \<open>execute_sync\<close> looping
  every handler returns, so a driver thread that cannot move is the one that blocks in
  \<open>wait_idle\<close> with both of its channels empty, and then nothing is left for it to do.
\<close>

section \<open>Handlers return\<close>

text \<open>
  The only loop whose end depends on the kernel is the fallback \<open>execute_sync\<close>; it runs
  only when \<open>aio_read\<close> and its kin refuse the very first request with \<open>EAGAIN\<close>.
\<close>

definition settles :: "'k kernel \<Rightarrow> bool" where
  "settles K \<longleftrightarrow> (\<forall>b w. fst (aio_submit K b w) \<noteq> Inl EAGAIN) \<or> (\<forall>j s. sync_loop K j s \<noteq> None)"

lemma submit_job_total:
  assumes "settles K"
  shows "\<exists>r d'. submit_job K j d = Some (r, d')"
proof (cases "fst (syscall (aio_submit K (control_block j)) (os d)) = Inl (Os EAGAIN)")
  case True
  then have "fst (aio_submit K (control_block j) (world (os d))) = Inl EAGAIN"
    by (auto simp: syscall_def split: prod.splits sum.splits)
  with assms have "\<forall>j s. sync_loop K j s \<noteq> None" by (auto simp: settles_def)
  then have "\<exists>j' res t. sync_loop K j s = Some (j', res, t)" for s
    by (metis option.exhaust prod_cases3)
  then have "\<exists>d'. execute_sync K j d1 = Some d'" for d1
    by (auto simp: execute_sync_def split: option.split)
  then show ?thesis
    by (auto simp: submit_job_def Let_def with_os_def split: prod.splits sum.splits)
next
  case False
  then have "raw_os_error e \<noteq> Some EAGAIN"
    if "syscall (aio_submit K (control_block j)) (os d) = (Inl e, t)" for e t
    using that by (cases e) auto
  then show ?thesis
    by (auto simp: submit_job_def Let_def with_os_def split: prod.splits sum.splits)
qed

lemma submit_ready_total: "settles K \<Longrightarrow> \<exists>y. submit_ready K d = Some y"
proof (induction "length (queue d)" arbitrary: d rule: less_induct)
  case less
  show ?case
  proof (cases "length (inflight d) < max_inflight d \<and> queue d \<noteq> []")
    case True
    then obtain j rest where q: "queue d = j # rest" by (cases "queue d") auto
    obtain r d1 where sub: "submit_job K j (d\<lparr>queue := rest\<rparr>) = Some (r, d1)"
      using submit_job_total [OF less.prems] by blast
    from queue_submit_job [OF sub] q have "length (queue d1) < length (queue d)" by simp
    with less True q sub show ?thesis
      by (subst submit_ready.simps) (auto split: submitted.splits)
  qed (subst submit_ready.simps, auto split: list.splits)
qed

lemma enqueue_total: "settles K \<Longrightarrow> \<exists>y. enqueue K i kind handle c d = Some y"
  by (simp add: enqueue_def Let_def submit_ready_total)

lemma advance_total: "settles K \<Longrightarrow> \<exists>y. advance K j n d = Some y"
  by (auto simp: advance_def submit_ready_total split: prod.splits step_result.splits)

lemma opened_total: "settles K \<Longrightarrow> \<exists>y. opened K p result d = Some y"
  by (auto simp: opened_def enqueue_total split: sum.splits prod.splits after_open.splits)

lemma open_then_total: "settles K \<Longrightarrow> \<exists>y. open_then K i path spec thn c d = Some y"
  by (auto simp: open_then_def open_here_def run_here_def Let_def opened_total
      split: sum.splits prod.splits helper_job.splits)

lemma handle_opened_total: "settles K \<Longrightarrow> \<exists>y. handle_opened K om d = Some y"
  by (simp add: handle_opened_def Let_def opened_total)

lemma handle_op_total: "settles K \<Longrightarrow> \<exists>y. handle_op K i oper c d = Some y"
  by (cases oper)
     (auto simp: handle_read_at_def handle_read_to_end_def handle_write_at_def handle_sync_def Let_def
        enqueue_total open_then_total split: sum.splits dest.splits prod.splits)

lemma handle_msg_total: "settles K \<Longrightarrow> \<exists>y. handle_msg K m d = Some y"
  by (cases m) (simp_all add: handle_op_total)

lemma reap_one_total: "settles K \<Longrightarrow> \<exists>y. reap_one K k d = Some y"
  by (auto simp: reap_one_def settle_reaped_def Let_def advance_total split: prod.splits option.splits)

section \<open>The driver thread moves\<close>

definition blocked :: "'k aio \<Rightarrow> bool" where
  "blocked d \<longleftrightarrow> idle d \<and> \<not> (disconnected d \<and> pending_opens d = {}) \<and>
     (disconnected d \<or> fst (try_recv (rx d)) = Empty) \<and> fst (try_recv (back_rx d)) = Empty"

lemma recv_cases:
  obtains (msg) m c' where "try_recv c = (Received m, c')" | (empty) "fst (try_recv c) = Empty"
  | (gone) c' where "try_recv c = (Disconnected, c')"
  by (cases "try_recv c"; cases "fst (try_recv c)") auto

lemma run_step_exists:
  assumes "settles K" and "p \<noteq> Halted" and "\<not> (p = Top \<and> blocked d)" and "\<not> helpers_gone d"
  shows "\<exists>p' d'. run_step K (p, d) (p', d')"
proof (cases p)
  case Top
  have rx: "\<exists>d'. wait_idle K d d'" if "\<not> disconnected d" and "fst (try_recv (rx d)) \<noteq> Empty"
  proof (cases rule: recv_cases [of "rx d"])
    case (msg m c')
    with that assms(1,4) show ?thesis by (metis handle_msg_total wait_idle.select_rx)
  next
    case (gone c')
    with that assms(1,4) show ?thesis by (metis wait_idle.select_rx_gone)
  qed (use that in simp)
  have bk: "\<exists>d'. wait_idle K d d'" if "fst (try_recv (back_rx d)) \<noteq> Empty"
  proof (cases rule: recv_cases [of "back_rx d"])
    case (msg om c')
    with assms(1,4) show ?thesis
      by (metis handle_opened_total wait_idle.only_back wait_idle.select_back)
  next
    case (gone c')
    with assms(4) show ?thesis by (metis wait_idle.only_back_gone wait_idle.select_back_gone)
  qed (use that in simp)
  show ?thesis
  proof (cases "idle d \<and> \<not> (disconnected d \<and> pending_opens d = {})")
    case True
    with assms(3) Top rx bk have "\<exists>d'. wait_idle K d d'" unfolding blocked_def by blast
    with True Top show ?thesis by (blast intro: run_step.top_idle)
  next
    case False
    with Top show ?thesis by (blast intro: run_step.top_busy run_step.top_return)
  qed
next
  case (Reap k)
  show ?thesis
  proof (cases "k < length (inflight d)")
    case True
    moreover obtain k' d' where "reap_one K k d = Some (k', d')"
      using reap_one_total [OF assms(1)] by (metis surj_pair)
    ultimately show ?thesis using Reap by (blast intro: run_step.reap_next)
  qed (use Reap in \<open>blast intro: run_step.reap_end\<close>)
next
  case Drain_rx
  have "drain_submissions K d \<noteq> None"
    using handle_msg_total [OF assms(1)] by (auto simp: drain_submissions_def split: prod.split recv.split)
  then obtain x where "drain_submissions K d = Some x" by blast
  with Drain_rx show ?thesis by (metis run_step.drain_rx surj_pair)
next
  case Drain_back
  have "drain_opened K d \<noteq> None"
    using handle_opened_total [OF assms(1)] by (auto simp: drain_opened_def split: prod.split recv.split)
  then obtain x where "drain_opened K d = Some x" by blast
  with Drain_back show ?thesis by (metis run_step.drain_back surj_pair)
next
  case Submitting
  with assms(1) show ?thesis by (metis submit_ready_total run_step.submitting)
next
  case Waited
  then show ?thesis by (cases "inflight d = []") (auto intro: run_step.intros)
qed (use assms(2) in simp)

section \<open>Nothing is left when nothing moves\<close>

text \<open>
  With the driver idle and nothing in any channel or at any helper, no callback is
  outstanding.
\<close>

lemma nothing_left:
  assumes "sys_inv s" and "idle (drv s)" and "pending (rx (drv s)) = []"
    and "pending (back_rx (drv s)) = []" and "pending (helper_tx (drv s)) = []" and "busy s = []"
  shows "cbs (outstanding s) = {#}"
proof -
  let ?d = "drv s"
  from assms have inv: "drv_inv ?d" and jobs: "jobs ?d = []"
    by (simp_all add: sys_inv_def idle_def jobs_def)
  from no_entry_callbacks [OF inv jobs] show ?thesis
    using jobs assms by (simp add: outstanding_def held_def transit_def)
qed

lemma blocked_channels:
  assumes "sys_inv s" and "at s = Top" and "blocked (drv s)"
  shows "pending (rx (drv s)) = []" and "pending (back_rx (drv s)) = []"
  using assms
  by (cases "pending (rx (drv s))"; auto simp: sys_inv_def run_ok_def ends_ok_def blocked_def try_recv_def
      split: list.splits; fail)
     (cases "pending (back_rx (drv s))"; use assms in \<open>auto simp: blocked_def try_recv_def split: list.splits\<close>)

end
