(* ===== verification/Aio_Play.thy ===== *)
theory Aio_Play
  imports Aio_System
begin

text \<open>
  An executable scheduler for the transition system of \<open>Aio_Run\<close>: \<open>play\<close> runs a list of
  actions and reaches only reachable states.  With it comes a small kernel over one
  regular file held in memory, on which concrete runs are evaluated.
\<close>

section \<open>Running the driver thread\<close>

definition take_rx :: "'k kernel \<Rightarrow> 'k aio \<Rightarrow> 'k aio option" where
  "take_rx K d = (case try_recv (rx d) of
       (Received m, r) \<Rightarrow> handle_msg K m (d\<lparr>rx := r\<rparr>)
     | (Empty, r) \<Rightarrow> None
     | (Disconnected, r) \<Rightarrow> Some (d\<lparr>disconnected := True\<rparr>))"

definition take_back :: "'k kernel \<Rightarrow> 'k aio \<Rightarrow> 'k aio option" where
  "take_back K d = (case try_recv (back_rx d) of
       (Received om, b) \<Rightarrow> handle_opened K om (d\<lparr>back_rx := b\<rparr>)
     | (Empty, b) \<Rightarrow> None
     | (Disconnected, b) \<Rightarrow> Some (lose_helpers d))"

definition wake :: "'k kernel \<Rightarrow> bool \<Rightarrow> 'k aio \<Rightarrow> 'k aio option" where
  "wake K back_first d =
     (if disconnected d then take_back K d
      else if helpers_gone d then take_rx K d
      else if back_first then take_back K d else take_rx K d)"

lemma take_rx_cases:
  assumes "take_rx K d = Some d'"
  shows "(\<exists>m r. try_recv (rx d) = (Received m, r) \<and> handle_msg K m (d\<lparr>rx := r\<rparr>) = Some d') \<or>
         (\<exists>r. try_recv (rx d) = (Disconnected, r) \<and> d' = d\<lparr>disconnected := True\<rparr>)"
  using assms by (auto simp: take_rx_def split: prod.splits recv.splits)

lemma take_back_cases:
  assumes "take_back K d = Some d'"
  shows "(\<exists>om b. try_recv (back_rx d) = (Received om, b) \<and>
            handle_opened K om (d\<lparr>back_rx := b\<rparr>) = Some d') \<or>
         (\<exists>b. try_recv (back_rx d) = (Disconnected, b) \<and> d' = lose_helpers d)"
  using assms by (auto simp: take_back_def split: prod.splits recv.splits)

lemma wake_sound: "wake K back_first d = Some d' \<Longrightarrow> wait_idle K d d'"
  unfolding wake_def
  by (auto split: if_splits dest!: take_rx_cases take_back_cases intro: wait_idle.intros)

definition drive :: "'k kernel \<Rightarrow> bool \<Rightarrow> pc \<times> 'k aio \<Rightarrow> (pc \<times> 'k aio) option" where
  "drive K back_first = (\<lambda>(p, d). case p of
       Top \<Rightarrow>
         (if \<not> idle d then Some (Waited, d)
          else if disconnected d \<and> pending_opens d = {} then Some (Halted, drop_driver d)
          else map_option (\<lambda>d. (Waited, d)) (wake K back_first d))
     | Waited \<Rightarrow> Some (if inflight d \<noteq> [] then (Reap 0, suspend K d) else (Drain_rx, d))
     | Reap k \<Rightarrow>
         (if k < length (inflight d) then map_option (\<lambda>(k, d). (Reap k, d)) (reap_one K k d)
          else Some (Drain_rx, d))
     | Drain_rx \<Rightarrow> drain_submissions K d
     | Drain_back \<Rightarrow> drain_opened K d
     | Submitting \<Rightarrow> map_option (\<lambda>d. (Top, adapt d)) (submit_ready K d)
     | Halted \<Rightarrow> None)"

lemma drive_sound:
  assumes "drive K back_first (p, d) = Some (p', d')"
  shows "run_step K (p, d) (p', d')"
proof (cases p)
  case Top
  with assms show ?thesis
    by (auto simp: drive_def split: if_splits intro: run_step.intros dest: wake_sound)
next
  case Drain_rx
  with assms show ?thesis by (simp add: drive_def run_step.drain_rx)
next
  case Drain_back
  with assms show ?thesis by (simp add: drive_def run_step.drain_back)
qed (use assms in \<open>auto simp: drive_def split: if_splits intro: run_step.intros\<close>)

section \<open>Running the system\<close>

text \<open>\<open>Drive n\<close> lets the driver thread take \<open>n\<close> steps, or fewer when it blocks.\<close>

datatype action =
    Submit op cb
  | Cancel nat
  | Drop_driver
  | Drive nat
  | Take
  | Help nat

fun drive_many :: "'k kernel \<Rightarrow> nat \<Rightarrow> 'k system \<Rightarrow> 'k system" where
  "drive_many K 0 s = s"
| "drive_many K (Suc n) s = (case drive K False (at s, drv s) of
       None \<Rightarrow> s
     | Some (p, d) \<Rightarrow> drive_many K n (s\<lparr>at := p, drv := d\<rparr>))"

definition act :: "'k kernel \<Rightarrow> nat \<Rightarrow> action \<Rightarrow> 'k system \<Rightarrow> 'k system" where
  "act K n a s = (case a of
       Submit oper c \<Rightarrow>
         (if senders (rx (drv s))
          then (case submit oper c (front s) (rx (drv s)) of (i, fr, tx, calls) \<Rightarrow>
                  s\<lparr>front := fr, asked := asked s @ [(c, oper)],
                    drv := (drv s)\<lparr>rx := tx, os := log_calls calls (os (drv s))\<rparr>\<rparr>)
          else s)
     | Cancel i \<Rightarrow>
         (if senders (rx (drv s)) then s\<lparr>drv := (drv s)\<lparr>rx := cancel i (rx (drv s))\<rparr>\<rparr> else s)
     | Drop_driver \<Rightarrow> s\<lparr>drv := (drv s)\<lparr>rx := (rx (drv s))\<lparr>senders := False\<rparr>\<rparr>\<rparr>
     | Drive k \<Rightarrow> drive_many K k s
     | Take \<Rightarrow>
         (case try_recv (helper_tx (drv s)) of
            (Received hj, h) \<Rightarrow>
              (if length (busy s) < n
               then s\<lparr>busy := busy s @ [hj], drv := (drv s)\<lparr>helper_tx := h\<rparr>\<rparr> else s)
          | _ \<Rightarrow> s)
     | Help k \<Rightarrow>
         (if k < length (busy s)
          then s\<lparr>busy := remove_at (busy s) k, drv := helper_body K (busy s ! k) (drv s)\<rparr> else s))"

definition play :: "'k kernel \<Rightarrow> nat \<Rightarrow> 'k os \<Rightarrow> action list \<Rightarrow> 'k system" where
  "play K n s acts = fold (act K n) acts (start_system K s)"

lemma reachable_drive_many: "reachable K n s \<Longrightarrow> reachable K n (drive_many K k s)"
proof (induction k arbitrary: s)
  case (Suc k)
  show ?case
  proof (cases "drive K False (at s, drv s)")
    case (Some pd)
    then obtain p d where "drive K False (at s, drv s) = Some (p, d)" by (cases pd) auto
    moreover from this have "reachable K n (s\<lparr>at := p, drv := d\<rparr>)"
      by (intro reachable.step [OF Suc.prems] sys_step.drives drive_sound)
    ultimately show ?thesis by (simp add: Suc.IH)
  qed (simp add: Suc.prems)
qed simp

lemma reachable_act:
  assumes "reachable K n s"
  shows "reachable K n (act K n a s)"
proof (cases a)
  case (Submit oper c)
  obtain i fr tx calls where sub: "submit oper c (front s) (rx (drv s)) = (i, fr, tx, calls)"
    by (cases "submit oper c (front s) (rx (drv s))")
  with Submit assms show ?thesis
    by (auto simp: act_def intro: reachable.step [OF assms] sys_step.submits [OF _ sub])
next
  case (Drive k)
  with assms show ?thesis by (simp add: act_def reachable_drive_many)
qed (auto simp: act_def assms split: prod.splits recv.splits
      intro: reachable.step [OF assms] sys_step.intros)

lemma reachable_play: "reachable K n (play K n s acts)"
proof -
  have "reachable K n (fold (act K n) acts s')" if "reachable K n s'" for s'
    using that by (induction acts arbitrary: s') (auto intro: reachable_act)
  then show ?thesis by (simp add: play_def reachable.init)
qed

section \<open>A kernel with one regular file\<close>

text \<open>
  Every path opens the same file; transfers move at most \<open>most\<close> bytes at a time and an
  AIO request is complete as soon as it is asked for, unless \<open>slow\<close> says otherwise.
\<close>

record disk =
  content :: "byte list"
  next_fd :: fd
  slow :: bool

definition disk_read :: "nat \<Rightarrow> nat \<Rightarrow> nat \<Rightarrow> disk \<Rightarrow> byte list" where
  "disk_read most n pos w = take (min n most) (drop pos (content w))"

text \<open>
  What writing bytes at a position does to a file: a gap past its end reads as zeros, and
  writing nothing changes nothing.
\<close>

definition splice :: "nat \<Rightarrow> byte list \<Rightarrow> byte list \<Rightarrow> byte list" where
  "splice pos new old =
     (if new = [] then old
      else take pos (old @ replicate (pos - length old) 0) @ new @ drop (pos + length new) old)"

definition disk_write :: "nat \<Rightarrow> payload \<Rightarrow> nat \<Rightarrow> nat \<Rightarrow> nat \<Rightarrow> disk \<Rightarrow> nat \<times> disk" where
  "disk_write most data filled n pos w =
     (case data of
        Payload_Owned bs \<Rightarrow>
          (let new = take (min n most) (drop filled bs)
           in (length new, w\<lparr>content := splice pos new (content w)\<rparr>))
      | Payload_Borrowed p k \<Rightarrow> (min n most, w))"

definition disk_kernel :: "nat \<Rightarrow> disk kernel" where
  "disk_kernel most = \<lparr>
     sys_open = (\<lambda>path flags w. (Inr (next_fd w), w\<lparr>next_fd := next_fd w + 1\<rparr>)),
     sys_close = (\<lambda>f w. (Inr (), w)),
     sys_fstat = (\<lambda>f w. (Inr \<lparr>st_mode = S_IFREG, st_size = of_nat (length (content w))\<rparr>, w)),
     sys_ftruncate = (\<lambda>f n w. (Inr (), w\<lparr>content := take (unat n) (content w)\<rparr>)),
     sys_fsync = (\<lambda>f w. (Inr (), w)),
     sys_pread = (\<lambda>f n pos w. let bs = disk_read most n (unat pos) w in (Inr (length bs, bs), w)),
     sys_pwrite = (\<lambda>f data filled n pos w. case disk_write most data filled n (unat pos) w of
                     (k, w') \<Rightarrow> (Inr k, w')),
     sys_write = (\<lambda>f data filled n w. case disk_write most data filled n (length (content w)) w of
                     (k, w') \<Rightarrow> (Inr k, w')),
     aio_submit = (\<lambda>b w. (Inr (), w)),
     aio_error = (\<lambda>b w. (if slow w then Some EINPROGRESS else None, w)),
     aio_return = (\<lambda>b w. case aio_opcode b of
                     Aio_read \<Rightarrow> (let bs = disk_read most (aio_nbytes b) (unat (aio_offset b)) w
                                  in ((length bs, bs), w))
                   | Aio_write \<Rightarrow>
                       (case aio_buf b of
                          From_payload data filled \<Rightarrow>
                            (case disk_write most data filled (aio_nbytes b) (unat (aio_offset b)) w of
                               (k, w') \<Rightarrow> ((k, []), w'))
                        | _ \<Rightarrow> ((0, []), w))
                   | Aio_fsync \<Rightarrow> ((0, []), w)),
     aio_cancel = (\<lambda>b w. w),
     aio_suspend = (\<lambda>bs ns w. w\<lparr>slow := False\<rparr>),
     sysctl_aioprocmax = Some 2\<rparr>"

definition disk_os :: "byte list \<Rightarrow> disk os" where
  "disk_os bs = \<lparr>world = \<lparr>content = bs, next_fd = 3, slow = False\<rparr>, memory = (\<lambda>_. 0), log = []\<rparr>"

end
