(* ===== verification/Aio_Reach.thy ===== *)
theory Aio_Reach
  imports Aio_System
begin

text \<open>
  Relations between driver states that hold along every run of the system: \<open>msg_frame\<close>
  extends the contract of \<open>driver_frame\<close> by the updates that message handling makes,
  \<open>run_frame\<close> by those of the loop of \<open>run\<close>, submitters and helpers, and lifts it to
  whole runs.
\<close>

inductive leads_to :: "'k kernel \<Rightarrow> nat \<Rightarrow> 'k system \<Rightarrow> 'k system \<Rightarrow> bool" for K n s where
  here: "leads_to K n s s"
| later: "leads_to K n s s1 \<Longrightarrow> sys_step K n s1 s2 \<Longrightarrow> leads_to K n s s2"

lemma reachable_leads_to: "reachable K n s \<longleftrightarrow> (\<exists>t. leads_to K n (start_system K t) s)"
proof
  show "reachable K n s \<Longrightarrow> \<exists>t. leads_to K n (start_system K t) s"
    by (induction rule: reachable.induct) (blast intro: leads_to.intros)+
next
  have "reachable K n s" if "leads_to K n (start_system K t) s" for t
    using that by (induction rule: leads_to.induct) (blast intro: reachable.intros)+
  then show "\<exists>t. leads_to K n (start_system K t) s \<Longrightarrow> reachable K n s" by blast
qed

locale msg_frame = driver_frame R for R :: "'k aio \<Rightarrow> 'k aio \<Rightarrow> bool" +
  assumes set_helper: "R d (d\<lparr>helper_tx := h\<rparr>)"
    and set_pending: "R d (d\<lparr>pending_opens := P\<rparr>)"
    and set_cancelled: "R d (d\<lparr>cancelled_opens := P\<rparr>)"
    and set_progress: "R d (d\<lparr>progress := x\<rparr>)"
begin

lemma suspends: "R d (suspend K d)"
  by (simp add: suspend_def set_os Let_def)

lemma open_then:
  assumes "open_then K i path spec thn c d = Some d'"
  shows "R d d'"
proof (cases "has_backlog d \<and> receivers (helper_tx d)")
  case True
  with assms show ?thesis
    by (auto simp: open_then_def Let_def send_def intro: chain [OF set_pending set_helper])
next
  case False
  have "R d d'" if "open_here K path spec p (d\<lparr>pending_opens := P\<rparr>) = Some d'" for p P
    by (rule chain [OF set_pending open_here [OF that]])
  with False assms show ?thesis
    by (cases "has_backlog d") (auto simp: open_then_def Let_def send_def run_here_def intro: open_here)
qed

lemma any_op:
  assumes "handle_op K i oper c d = Some d'"
  shows "R d d'"
proof (cases "on_handle oper")
  case None
  with assms show ?thesis by (cases oper) (auto intro: open_then call_cb)
next
  case (Some h)
  with assms show ?thesis by (rule handle_op)
qed

lemma cancel_op: "R d (cancel_op K i d)"
proof (cases "position (\<lambda>j. j_id j = i) (queue d)")
  case None
  then show ?thesis
    by (auto simp: cancel_op_def Let_def keep set_cancelled split: option.splits
        intro: chain [OF set_inflight set_os])
qed (simp add: cancel_op_def cancel_queued)

lemma handle_msg:
  assumes "handle_msg K m d = Some d'"
  shows "R d d'"
  using assms by (cases m) (auto intro: chain [OF set_progress any_op] chain [OF set_progress cancel_op])

lemma handle_opened:
  assumes "handle_opened K om d = Some d'"
  shows "R d d'"
proof -
  let ?d = "d\<lparr>progress := True, pending_opens := pending_opens d - {po_id (op_pending om)}\<rparr>"
  let ?e = "?d\<lparr>cancelled_opens := cancelled_opens d - {po_id (op_pending om)}\<rparr>"
  have d: "R d ?d" by (rule chain [OF set_progress set_pending])
  then have e: "R d ?e" by (rule chain [OF _ set_cancelled])
  have "R d (call_cb c res (case op_result om of Inr (f, _) \<Rightarrow> run_close K f ?e | Inl _ \<Rightarrow> ?e))" for c res
    using e by (auto split: sum.split intro: then_call_cb chain [OF _ run_close])
  then show ?thesis
    using assms d by (auto simp: handle_opened_def Let_def split: if_splits intro: chain [OF d opened])
qed

lemma reap_one:
  assumes "reap_one K k d = Some (k', d')"
  shows "R d d'"
  using assms
proof (cases rule: reap_one_cases)
  case (waiting w)
  then show ?thesis by (simp add: set_os)
next
  case (settled err n bs w)
  show ?thesis
    by (rule chain [OF chain [OF chain [OF set_inflight set_progress] set_os] settle_reaped [OF settled(2)]]) simp
qed

end

locale run_frame = msg_frame R for R :: "'k aio \<Rightarrow> 'k aio \<Rightarrow> bool" +
  assumes set_rx: "R d (d\<lparr>rx := r\<rparr>)"
    and set_back: "R d (d\<lparr>back_rx := b\<rparr>)"
    and set_disconnected: "R d (d\<lparr>disconnected := x\<rparr>)"
    and set_helpers_gone: "R d (d\<lparr>helpers_gone := x\<rparr>)"
    and adapts: "R d (adapt d)"
begin

lemma lose: "R d (lose_helpers d)"
  unfolding lose_helpers_def by (rule chain [OF set_helpers_gone set_pending])

lemma drop: "R d (drop_driver d)"
  unfolding drop_driver_def by (rule chain [OF chain [OF set_rx set_helper] set_back])

lemma wait_idle: "wait_idle K d d' \<Longrightarrow> R d d'"
  by (induction rule: wait_idle.induct)
     (auto intro: lose set_disconnected chain [OF set_rx handle_msg] chain [OF set_back handle_opened])

lemma run_step:
  assumes "run_step K (p, d) (p', d')"
  shows "R d d'"
  using assms
  by (cases rule: run_step.cases)
     (auto intro: keep drop wait_idle suspends reap_one chain [OF set_rx handle_msg] set_disconnected
        chain [OF set_back handle_opened] lose chain [OF submit_ready adapts])

lemma helper_body: "R d (helper_body K hj d)"
proof (cases hj)
  case (Helper_Open path spec p)
  obtain r d1 where one: "with_os (open_for K path spec (po_then p)) d = (r, d1)"
    by (cases "with_os (open_for K path spec (po_then p)) d")
  have "R d d1" using one by (rule with_open_for)
  then have "R d (d1\<lparr>back_rx := b\<rparr>)" and "R d (call_cb c x d1)" and "R d (call_cb c x (run_close K f d1))"
    for b c x f
    by (blast intro: chain [OF _ set_back] then_call_cb chain [OF _ run_close])+
  with one Helper_Open show ?thesis
    by (auto simp: helper_body_def Let_def send_def split: sum.split)
qed (simp add: helper_body_def run_close)

lemma sys_step:
  assumes "sys_step K n s s'"
  shows "R (drv s) (drv s')"
  using assms
  by (cases rule: sys_step.cases)
     (auto intro: set_rx chain [OF set_rx set_os] run_step set_helper helper_body simp: grows_def log_calls_def)

lemma leads_to: "leads_to K n s s' \<Longrightarrow> R (drv s) (drv s')"
  by (induction rule: leads_to.induct) (blast intro: keep chain sys_step)+

end

section \<open>Closed handles stay closed\<close>

definition dead :: "nat \<Rightarrow> 'k aio \<Rightarrow> bool" where
  "dead h d \<longleftrightarrow> h < next_id d \<and>
     (case files d h of None \<Rightarrow> True | Some e \<Rightarrow> fe_closing e \<noteq> None)"

definition keeps_dead :: "'k aio \<Rightarrow> 'k aio \<Rightarrow> bool" where
  "keeps_dead d d' \<longleftrightarrow> next_id d \<le> next_id d' \<and> (\<forall>h. dead h d \<longrightarrow> dead h d')"

interpretation dead: run_frame "keeps_dead :: 'k aio \<Rightarrow> 'k aio \<Rightarrow> bool"
  by unfold_locales (auto simp: keeps_dead_def dead_def adapt_def split: option.splits if_splits)

lemma dead_with_fd: "dead h d \<Longrightarrow> with_fd h d = Inl bad_handle"
  by (auto simp: dead_def with_fd_def split: option.splits)

lemma dead_close:
  assumes "fresh_id d" and "with_fd h d = Inr f"
  shows "dead h (close K h c d)"
proof -
  from assms(2) obtain e where e: "files d h = Some e" "fe_closing e = None"
    by (auto simp: with_fd_def split: option.splits if_splits)
  with assms(1) have "h < next_id d"
    by (auto simp: fresh_id_def) (metis not_le option.distinct(1))
  with e show ?thesis
    by (auto simp: close_def dead_def with_os_def call_cb_def split: prod.split)
qed

lemma dead_leads_to: "dead h (drv s) \<Longrightarrow> leads_to K n s s' \<Longrightarrow> dead h (drv s')"
  using dead.leads_to [of K n s s'] by (simp add: keeps_dead_def)

text \<open>On a dead handle every operation answers \<open>bad_handle\<close> and does nothing else.\<close>

lemma dead_handle_op:
  assumes "dead h d" and "on_handle oper = Some h"
  shows "handle_op K i oper c d = Some (call_cb c (Inl bad_handle) d)"
  using assms dead_with_fd [OF assms(1)]
  by (cases oper)
     (auto simp: handle_read_at_def handle_read_to_end_def handle_write_at_def handle_sync_def
        handle_size_def handle_set_len_def close_def dead_def split: option.splits)

section \<open>The slots and the waits\<close>

definition paced :: "'k aio \<Rightarrow> bool" where
  "paced d \<longleftrightarrow> SUSPEND_MIN_NS \<le> suspend_ns d \<and> suspend_ns d \<le> SUSPEND_MAX_NS"

definition keeps_pace :: "'k aio \<Rightarrow> 'k aio \<Rightarrow> bool" where
  "keeps_pace d d' \<longleftrightarrow> max_inflight d' = max_inflight d \<and> (paced d \<longrightarrow> paced d')"

interpretation pace: run_frame "keeps_pace :: 'k aio \<Rightarrow> 'k aio \<Rightarrow> bool"
  by unfold_locales
     (auto simp: keeps_pace_def paced_def adapt_def SUSPEND_MIN_NS_def SUSPEND_MAX_NS_def)

lemma pace_reachable:
  assumes "reachable K n s"
  shows "max_inflight (drv s) = aio_proc_max K" and "paced (drv s)"
proof -
  from assms obtain t where "leads_to K n (start_system K t) s" by (auto simp: reachable_leads_to)
  then have "keeps_pace (drv (start_system K t)) (drv s)" by (rule pace.leads_to)
  then show "max_inflight (drv s) = aio_proc_max K" and "paced (drv s)"
    by (simp_all add: keeps_pace_def paced_def start_system_def aio_new_def SUSPEND_MIN_NS_def SUSPEND_MAX_NS_def)
qed

section \<open>The log\<close>

interpretation logs: run_frame "\<lambda>d d'. grows (os d) (os d')"
  by unfold_locales (auto simp: adapt_def intro: grows_trans)

end
