(* ===== verification/Aio_Correct.thy ===== *)
theory Aio_Correct
  imports Aio_Progress Aio_Play Aio_Reach
begin

text \<open>
  The theorems about the AIO backend as a whole.  They hold in every state the system
  can reach, whatever the kernel answers and however submitters, driver and helpers
  interleave.  The runs they are applied to are of the kernel of \<open>Aio_Play\<close>.
\<close>

section \<open>Two runs\<close>

text \<open>
  Six bytes, two AIO slots, two bytes a transfer: an open, four overlapping reads, a
  close that waits for them, and the end of the submitters.
\<close>

definition demo_acts :: "action list" where
  "demo_acts = [Submit (Op_Open ''a'' read_spec) 10, Drive 20,
     Submit (Op_ReadAt 1 0 (Dest_Alloc 5)) 11, Submit (Op_ReadAt 1 2 (Dest_Alloc 5)) 12,
     Submit (Op_ReadAt 1 1 (Dest_Alloc 5)) 13, Submit (Op_ReadAt 1 3 (Dest_Into 100 2)) 14,
     Submit (Op_Close 1) 15]"

definition demo_until :: "nat \<Rightarrow> action list \<Rightarrow> disk system" where
  "demo_until k rest = play (disk_kernel 2) 1 (disk_os [1, 2, 3, 4, 5, 6]) (demo_acts @ Drive k # rest)"

definition demo_busy :: "disk system" where
  "demo_busy = demo_until 13 []"

definition demo_done :: "disk system" where
  "demo_done = demo_until 60 [Drop_driver, Drive 20]"

lemma demo_reachable: "reachable (disk_kernel 2) 1 demo_busy" "reachable (disk_kernel 2) 1 demo_done"
  by (simp_all add: demo_busy_def demo_done_def demo_until_def reachable_play)

lemma demo_busy_at:
  "at demo_busy = Top \<and> length (inflight (drv demo_busy)) = 2 \<and>
   map j_id (jobs (drv demo_busy)) = [5, 3, 4] \<and> invoked demo_busy = [10, 11]"
  by code_simp

lemma demo_done_at:
  "at demo_done = Halted \<and> map fst (asked demo_done) = [10, 11, 12, 13, 14, 15] \<and>
   fds_opened demo_done = [3] \<and> fds_closed demo_done = [3]"
  by code_simp

lemma demo_settles: "settles (disk_kernel 2)"
  by (simp add: settles_def disk_kernel_def)

section \<open>Callbacks\<close>

text \<open>
  C1: No callback handed to \<open>Driver::submit\<close> is ever invoked twice or invented, and once
  the driver thread has returned every one of them has been invoked exactly once: by the
  driver, by a helper, or by \<open>submit\<close> itself when the driver is gone.
\<close>

theorem callbacks_exactly_once:
  assumes "reachable K n s"
  shows "mset (invoked s) \<subseteq># mset (map fst (asked s)) \<and>
         (at s = Halted \<longrightarrow> mset (invoked s) = mset (map fst (asked s)))"
proof -
  have books: "mset (invoked s) + cbs (outstanding s) = mset (map fst (asked s))"
    using assms by (rule reachable_callbacks)
  moreover have "cbs (outstanding s) = {#}" if "at s = Halted"
    using that sys_inv_reachable [OF assms] by (intro halted_no_callbacks)
  ultimately show ?thesis by (metis add.right_neutral mset_subset_eq_add_left)
qed

theorem callbacks_exactly_once_witness:
  "at demo_done = Halted \<and> mset (invoked demo_done) = {#10, 11, 12, 13, 14, 15#}"
  using callbacks_exactly_once [OF demo_reachable(2)] demo_done_at by simp

text \<open>
  C7: The backend never gets stuck.  In every reachable state the driver has returned, or
  its thread can take a step, or a helper has something to do; otherwise the driver
  blocks in \<open>wait_idle\<close> with a live submitter, and then every callback handed in so far
  has been invoked.
\<close>

theorem deadlock_free:
  assumes "reachable K n s" and "settles K"
  shows "at s = Halted \<or> (\<exists>p d. run_step K (at s, drv s) (p, d)) \<or>
         busy s \<noteq> [] \<or> pending (helper_tx (drv s)) \<noteq> [] \<or>
         (senders (rx (drv s)) \<and> mset (invoked s) = mset (map fst (asked s)))"
proof (cases "at s = Halted \<or> (\<exists>p d. run_step K (at s, drv s) (p, d)) \<or>
         busy s \<noteq> [] \<or> pending (helper_tx (drv s)) \<noteq> []")
  case False
  have inv: "sys_inv s" using assms(1) by (rule sys_inv_reachable)
  then have "\<not> helpers_gone (drv s)" by (simp add: sys_inv_def run_ok_def ends_ok_def)
  with False assms(2) have stuck: "at s = Top" "blocked (drv s)"
    using run_step_exists [of K "at s" "drv s"] by blast+
  note empty = blocked_channels [OF inv stuck]
  from inv False empty(2) have "pending_opens (drv s) = {}"
    by (simp add: sys_inv_def run_ok_def outs_ok_def out_ids_def back_ids_def)
  with stuck(2) have "senders (rx (drv s))"
    by (auto simp: blocked_def try_recv_def empty split: if_splits)
  moreover have "cbs (outstanding s) = {#}"
    using nothing_left [OF inv] stuck(2) empty False by (simp add: blocked_def)
  ultimately show ?thesis using reachable_callbacks [OF assms(1)] by simp
qed blast

theorem deadlock_free_witness:
  "(\<exists>p d. run_step (disk_kernel 2) (Top, drv demo_busy) (p, d)) \<or>
     busy demo_busy \<noteq> [] \<or> pending (helper_tx (drv demo_busy)) \<noteq> [] \<or>
     mset (invoked demo_busy) = mset (map fst (asked demo_busy))"
  using deadlock_free [OF demo_reachable(1) demo_settles] demo_busy_at by auto

section \<open>Descriptors\<close>

text \<open>The closes still on their way to a helper.\<close>

fun close_fds :: "helper_job list \<Rightarrow> fd list" where
  "close_fds [] = []"
| "close_fds (Helper_Close f # hs) = f # close_fds hs"
| "close_fds (Helper_Open path spec p # hs) = close_fds hs"

lemma fds_helpers: "fds (sum_list (map helper_tokens hs)) = mset (close_fds hs)"
  by (induction hs rule: close_fds.induct) simp_all

definition open_fds :: "'k aio \<Rightarrow> fd multiset" where
  "open_fds d = entries_sum (\<lambda>e. {#fe_fd e#}) (files d)"

lemma fds_files: "finite (dom (files d)) \<Longrightarrow> fds (entries_sum entry_tokens (files d)) = open_fds d"
proof -
  have "fds (entry_tokens e) = {#fe_fd e#}" for e
    by (simp add: entry_tokens_def split: option.split)
  then have "fds (\<Sum>h\<in>A. entry_tokens (the (files d h))) = (\<Sum>h\<in>A. {#fe_fd (the (files d h))#})" for A
    by (induction A rule: infinite_finite_induct) simp_all
  then show ?thesis by (simp add: entries_sum_def open_fds_def)
qed

text \<open>
  C5: No descriptor is closed more often than it was opened, and once the driver has
  returned the descriptors still open are those of handles nobody closed and of closes
  still waiting at the helpers: a \<open>read_file\<close>, a \<open>write_file\<close>, a failed or cancelled open
  leaks none.
\<close>

theorem descriptors_balance:
  assumes "reachable K n s"
  shows "mset (fds_closed s) \<subseteq># mset (fds_opened s) \<and>
         (at s = Halted \<longrightarrow> mset (fds_opened s) =
            mset (fds_closed s) + open_fds (drv s) + mset (close_fds (pending (helper_tx (drv s)) @ busy s)))"
proof -
  have books: "mset (fds_closed s) + fds (outstanding s) = mset (fds_opened s)"
    using assms by (rule reachable_descriptors)
  moreover have "fds (outstanding s) = open_fds (drv s) + mset (close_fds (pending (helper_tx (drv s)) @ busy s))"
    if "at s = Halted"
  proof -
    from sys_inv_reachable [OF assms] that have fin: "finite (dom (files (drv s)))" and
      none: "jobs (drv s) = []" "pending (rx (drv s)) = []" "pending (back_rx (drv s)) = []"
      by (auto simp: sys_inv_def idle_def jobs_def run_ok_def ends_ok_def outs_ok_def back_ids_def
          intro: drv_inv_finite)
    have "mset (close_fds (hs @ hs')) = mset (close_fds hs) + mset (close_fds hs')" for hs hs'
      by (induction hs rule: close_fds.induct) simp_all
    with fin none show ?thesis
      by (simp add: outstanding_def held_def transit_def fds_files fds_helpers)
  qed
  ultimately show ?thesis by (metis add.assoc mset_subset_eq_add_left)
qed

theorem descriptors_balance_witness:
  "mset (fds_opened demo_done) = mset (fds_closed demo_done) + open_fds (drv demo_done) +
     mset (close_fds (pending (helper_tx (drv demo_done)) @ busy demo_done))"
  using descriptors_balance [OF demo_reachable(2)] demo_done_at by simp

text \<open>
  C6: While a request is queued or with the kernel its descriptor is open: it has been
  opened more often than closed, so a close never pulls it away from under a request
  and the number cannot have been handed out again.
\<close>

theorem request_fd_open:
  assumes "reachable K n s" and "j \<in> set (jobs (drv s))"
  shows "count (mset (fds_closed s)) (kind_fd (j_kind j)) < count (mset (fds_opened s)) (kind_fd (j_kind j))"
proof -
  from assms have "kind_fd (j_kind j) \<in># fds (outstanding s)"
    using job_fd_held [OF drv_inv_reachable] by (fastforce simp: outstanding_def)
  then show ?thesis
    unfolding reachable_descriptors [OF assms(1), symmetric] by simp
qed

theorem request_fd_open_witness:
  "\<exists>j::job. j_id j = 5 \<and> count (mset (fds_closed demo_busy)) (kind_fd (j_kind j))
     < count (mset (fds_opened demo_busy)) (kind_fd (j_kind j))"
proof -
  have "5 \<in> set (map j_id (jobs (drv demo_busy)))" using demo_busy_at by simp
  then obtain j where "j \<in> set (jobs (drv demo_busy))" and "j_id j = 5" by auto
  then show ?thesis using request_fd_open [OF demo_reachable(1)] by blast
qed

section \<open>Slots\<close>

text \<open>
  C18: At most \<open>aio_proc_max\<close> requests are with the kernel at any time, and when the driver
  is about to wait a queued job always waits behind one of them: a completion will come
  that submits it.  Each request's control block is the one its job asks for.
\<close>

theorem slots_respected:
  assumes "reachable K n s"
  shows "length (inflight (drv s)) \<le> aio_proc_max K \<and>
         (at s = Top \<longrightarrow> queue (drv s) \<noteq> [] \<longrightarrow> inflight (drv s) \<noteq> []) \<and>
         (\<forall>e \<in> set (inflight (drv s)). in_aiocb e = control_block (in_job e))"
  using sys_inv_reachable [OF assms] pace_reachable(1) [OF assms]
  by (auto simp: sys_inv_def drv_inv_def slots_inv_def)

theorem slots_respected_witness:
  "length (inflight (drv demo_busy)) \<le> 2 \<and> inflight (drv demo_busy) \<noteq> []"
  using slots_respected [OF demo_reachable(1)] demo_busy_at
  by (auto simp: aio_proc_max_def disk_kernel_def)

text \<open>
  The wait between two looks at the inflight requests always lies between the two
  bounds of the source, 20 and 160 microseconds.
\<close>

lemma suspend_bounded:
  assumes "reachable K n s"
  shows "20000 \<le> suspend_ns (drv s) \<and> suspend_ns (drv s) \<le> 160000"
  using pace_reachable(2) [OF assms]
  by (simp add: paced_def SUSPEND_MIN_NS_def SUSPEND_MAX_NS_def)

section \<open>The file table\<close>

lemma ops_on_jobs:
  "ops_on h (keys d) = length (filter (\<lambda>j. kind_handle (j_kind j) = Some h) (jobs d))"
proof -
  have "ops_on h (image_mset (\<lambda>j. kind_key (j_kind j)) (mset js)) =
      length (filter (\<lambda>j. kind_handle (j_kind j) = Some h) js)" for js
    by (induction js) (simp_all add: ops_on_def kind_key_def)
  then show ?thesis by (simp add: keys_def)
qed

text \<open>
  C19: The \<open>ops\<close> counter of an open file is the number of queued and inflight jobs on its
  handle, so \<open>release\<close> never takes it below zero; a close that is held back has such a
  job to wait for; and every job on a handle finds its entry, with the descriptor it was
  made with.
\<close>

theorem table_counts_jobs:
  assumes "reachable K n s"
  shows "(\<forall>h e. files (drv s) h = Some e \<longrightarrow>
            fe_ops e = length (filter (\<lambda>j. kind_handle (j_kind j) = Some h) (jobs (drv s))) \<and>
            (fe_closing e \<noteq> None \<longrightarrow> 0 < fe_ops e)) \<and>
         (\<forall>j \<in> set (jobs (drv s)). \<forall>h. kind_handle (j_kind j) = Some h \<longrightarrow>
            (\<exists>e. files (drv s) h = Some e \<and> fe_fd e = kind_fd (j_kind j)))"
proof -
  from drv_inv_reachable [OF assms] have inv: "table_inv (files (drv s)) (next_id (drv s)) (keys (drv s))"
    by (simp add: drv_inv_def tinv_def)
  have "key_ok (files (drv s)) (kind_key (j_kind j))" if "j \<in> set (jobs (drv s))" for j
    using inv that by (auto simp: table_inv_def keys_def)
  then have "\<exists>e. files (drv s) h = Some e \<and> fe_fd e = kind_fd (j_kind j)"
    if "j \<in> set (jobs (drv s))" and "kind_handle (j_kind j) = Some h" for j h
    using that by (fastforce simp: key_ok_def kind_key_def)
  moreover have "entry_ok e (length (filter (\<lambda>j. kind_handle (j_kind j) = Some h) (jobs (drv s))))"
    if "files (drv s) h = Some e" for h e
    using inv that by (simp add: table_inv_def ops_on_jobs)
  ultimately show ?thesis by (simp add: entry_ok_def)
qed

lemma demo_busy_entry: "files (drv demo_busy) 1 = Some \<lparr>fe_fd = 3, fe_ops = 3, fe_closing = Some 15\<rparr>"
  by code_simp

theorem table_counts_jobs_witness:
  "length (filter (\<lambda>j. kind_handle (j_kind j) = Some 1) (jobs (drv demo_busy))) = 3"
  using table_counts_jobs [OF demo_reachable(1)] demo_busy_entry by fastforce

text \<open>
  C9: A close on a handle takes effect at once and for good: from then on, whatever else
  happens, every operation on the handle is answered \<open>bad_handle\<close> without touching the
  kernel, and no later open is given the number again.
\<close>

theorem closed_handle_stays_closed:
  assumes "reachable K n s" and "with_fd h (drv s) = Inr f"
    and "handle_op K i (Op_Close h) c (drv s) = Some d"
    and "leads_to K n (s\<lparr>drv := d\<rparr>) s'" and "on_handle oper = Some h"
  shows "handle_op K i' oper c' (drv s') = Some (call_cb c' (Inl bad_handle) (drv s')) \<and>
         h < next_id (drv s')"
proof -
  have "fresh_id (drv s)" using drv_inv_reachable [OF assms(1)] by (rule drv_inv_fresh)
  with assms(2,3) have "dead h d" by (auto intro: dead_close)
  with assms(4) have "dead h (drv s')" by (auto dest: dead_leads_to [rotated])
  with assms(5) show ?thesis by (simp add: dead_handle_op) (simp add: dead_def)
qed

definition demo_open :: "disk system" where
  "demo_open = play (disk_kernel 2) 1 (disk_os [1, 2, 3, 4, 5, 6]) [Submit (Op_Open ''a'' read_spec) 10, Drive 20]"

lemma demo_open_fd: "with_fd 1 (drv demo_open) = Inr 3"
  by code_simp

theorem closed_handle_stays_closed_witness:
  "\<exists>d. handle_op (disk_kernel 2) 2 (Op_Close 1) 11 (drv demo_open) = Some d \<and>
     handle_op (disk_kernel 2) 3 (Op_ReadAt 1 0 (Dest_Alloc 4)) 12 d = Some (call_cb 12 (Inl bad_handle) d)"
proof -
  have "reachable (disk_kernel 2) 1 demo_open" by (simp add: demo_open_def reachable_play)
  from closed_handle_stays_closed [OF this demo_open_fd _ leads_to.here, of 2 11 _ "Op_ReadAt 1 0 (Dest_Alloc 4)" 3 12]
  show ?thesis by simp
qed

section \<open>Cancelling\<close>

lemma log_with_os_close: "log (os (run_close K f d)) = log (os d) @ [Ev_close f]"
  by (auto simp: run_close_def with_os_def close_raw_def syscall_def emit_def split: prod.splits sum.splits)

lemma log_release: "\<exists>after. log (os (release K h d)) = log (os d) @ after"
  by (auto simp: release_def Let_def with_os_def close_raw_def syscall_def emit_def call_cb_def invoke_def
      split: option.split prod.split sum.split)

lemma log_close_owned: "\<exists>before. log (os (close_owned K f d)) = log (os d) @ before"
  by (simp add: close_owned_def send_def log_with_os_close)

lemma log_finish:
  "\<exists>before after. log (os (finish K j res d)) = log (os d) @ before @ [Ev_call (j_cb j) res] @ after"
proof -
  define e where "e = (if kind_owned_fd (j_kind j) then close_owned K (kind_fd (j_kind j)) d else d)"
  have "\<exists>before. log (os e) = log (os d) @ before"
    using log_close_owned [of K "kind_fd (j_kind j)" d] by (simp add: e_def)
  then obtain before where "log (os e) = log (os d) @ before" by blast
  then have e: "log (os (call_cb (j_cb j) res e)) = log (os d) @ before @ [Ev_call (j_cb j) res]"
    by (simp add: call_cb_def invoke_def emit_def)
  have fin: "finish K j res d = (case kind_handle (j_kind j) of
      None \<Rightarrow> call_cb (j_cb j) res e | Some h \<Rightarrow> release K h (call_cb (j_cb j) res e))"
    unfolding finish_def Let_def e_def by (rule refl)
  have "\<exists>after. log (os (finish K j res d)) = log (os (call_cb (j_cb j) res e)) @ after"
    unfolding fin by (simp add: log_release split: option.split)
  with e show ?thesis by auto
qed

text \<open>
  Cancelling a queued operation settles it \<open>ECANCELED\<close> on the spot: one job with the
  id leaves the queue, its callback gets the cancelled error, and nothing that is with
  the kernel changes.
\<close>

lemma cancel_queued_settles:
  assumes "j \<in> set (queue d)" and "j_id j = i"
  shows "\<exists>j' before after. j_id j' = i \<and> mset (queue d) = add_mset j' (mset (queue (cancel_op K i d))) \<and>
           inflight (cancel_op K i d) = inflight d \<and>
           log (os (cancel_op K i d)) = log (os d) @ before @ [Ev_call (j_cb j') (Inl cancelled_error)] @ after"
proof -
  from assms obtain k where k: "position (\<lambda>j. j_id j = i) (queue d) = Some k"
    by (cases "position (\<lambda>j. j_id j = i) (queue d)") (auto simp: position_None_iff)
  let ?j = "queue d ! k" and ?d = "d\<lparr>queue := remove_at (queue d) k\<rparr>"
  from position_SomeD [OF k] have "k < length (queue d)" and "j_id ?j = i" by auto
  moreover from k have "cancel_op K i d = finish K ?j (Inl cancelled_error) ?d" by (simp add: cancel_op_def)
  moreover obtain before after where
    "log (os (finish K ?j (Inl cancelled_error) ?d)) = log (os ?d) @ before @ [Ev_call (j_cb ?j) (Inl cancelled_error)] @ after"
    using log_finish by blast
  ultimately show ?thesis using mset_remove_at [of k "queue d"] by auto
qed

text \<open>
  C30: A cancelled operation that is with the kernel is never submitted again: whatever
  its current chunk reports, its job settles when the chunk is reaped, its callback gets
  a result, and it is in neither the queue nor the inflight list any more.
\<close>

theorem cancelled_never_resubmitted:
  assumes "j_cancelled j" and "settle_reaped K j err n bs d = Some d'"
  shows "jobs d' = jobs d \<and>
         (\<exists>res before after. log (os d') = log (os d) @ before @ [Ev_call (j_cb j) res] @ after)"
proof -
  have "jobs (finish K j' res (d\<lparr>os := s\<rparr>)) = jobs d" for j' res s by (simp add: jobs_def)
  moreover have "\<exists>before after. log (os (finish K j' res (d\<lparr>os := s\<rparr>))) =
      log (os d) @ before @ [Ev_call (j_cb j) res] @ after" if "j_cb j' = j_cb j" and "log s = log (os d)" for j' res s
    using log_finish [of K j' res "d\<lparr>os := s\<rparr>"] that by simp
  moreover have "\<exists>j' res s. d' = finish K j' res (d\<lparr>os := s\<rparr>) \<and> j_cb j' = j_cb j \<and> log s = log (os d)"
  proof (cases err)
    case (Some e)
    with assms(2) have "d' = finish K j (Inl (Os e)) (d\<lparr>os := os d\<rparr>)" by (simp add: settle_reaped_def)
    then show ?thesis by blast
  next
    case None
    obtain j1 s1 where del: "deliver_bytes j bs (os d) = (j1, s1)" by (cases "deliver_bytes j bs (os d)")
    obtain r j2 s2 where st: "step K j1 n s1 = (r, j2, s2)" by (cases "step K j1 n s1")
    from deliver_bytes_same [OF del] step_same [OF st]
    have same: "j_cb j2 = j_cb j" "log s2 = log (os d)" "j_cancelled j2"
      using assms(1) by (simp_all add: same_job_def)
    from None assms(2) del st same(3) have "\<exists>res. d' = finish K j2 res (d\<lparr>os := s2\<rparr>)"
      by (cases r) (auto simp: settle_reaped_def advance_def)
    with same(1,2) show ?thesis by blast
  qed
  ultimately show ?thesis by blast
qed

theorem cancelled_never_resubmitted_witness:
  "\<exists>d'. settle_reaped (disk_kernel 2) (in_job (hd (inflight (drv demo_busy)))\<lparr>j_cancelled := True\<rparr>)
          None 2 [3, 4] (drv demo_busy) = Some d' \<and> jobs d' = jobs (drv demo_busy)"
proof -
  let ?j = "in_job (hd (inflight (drv demo_busy)))\<lparr>j_cancelled := True\<rparr>"
  have "settle_reaped (disk_kernel 2) ?j None 2 [3, 4] (drv demo_busy) \<noteq> None" by code_simp
  then obtain d' where "settle_reaped (disk_kernel 2) ?j None 2 [3, 4] (drv demo_busy) = Some d'" by auto
  with cancelled_never_resubmitted [of ?j "disk_kernel 2" None 2 "[3, 4]" "drv demo_busy"] show ?thesis by auto
qed

text \<open>
  An operation cancelled while a helper opens its file settles \<open>ECANCELED\<close> when the
  open comes back: the descriptor is closed, no handle is registered, no job is made,
  and the id is forgotten.
\<close>

lemma cancelled_open_settles:
  assumes "po_id (op_pending om) \<in> cancelled_opens d"
  shows "\<exists>d'. handle_opened K om d = Some d' \<and> files d' = files d \<and> jobs d' = jobs d \<and>
           po_id (op_pending om) \<notin> pending_opens d' \<union> cancelled_opens d' \<and>
           log (os d') = log (os d) @ (case op_result om of Inr (f, sz) \<Rightarrow> [Ev_close f] | Inl e \<Rightarrow> []) @
             [Ev_call (po_cb (op_pending om)) (Inl cancelled_error)]"
proof -
  have close: "files (run_close K f e) = files e" "jobs (run_close K f e) = jobs e"
    "pending_opens (run_close K f e) = pending_opens e" "cancelled_opens (run_close K f e) = cancelled_opens e"
    for f and e :: "'a aio"
    by (simp_all add: run_close_def with_os_def jobs_def case_prod_beta)
  from assms show ?thesis
    by (cases "op_result om")
       (auto simp: handle_opened_def Let_def call_cb_def invoke_def emit_def log_with_os_close close
          jobs_def [of "_\<lparr>os := _\<rparr>"] jobs_def [of "_\<lparr>progress := _\<rparr>"] split: prod.split)
qed

end
