(* ===== verification/Aio_Bounds.thy ===== *)
theory Aio_Bounds
  imports Aio_Play Aio_Reach
begin

text \<open>
  A law every job obeys from its creation on, and a law of memory that the transfers of
  such jobs keep, lifted to everything the driver does (locale \<open>job_law\<close>); and the law
  that matters most in unsafe code: a job never hands the kernel memory outside its buffer,
  and never counts more bytes as read than the kernel has put there.
\<close>

section \<open>What leaves memory alone\<close>

lemma memory_emit [simp]: "memory (emit ev s) = memory s" "memory (invoke c res s) = memory s"
  by (simp_all add: emit_def invoke_def)

lemma memory_syscallD: "syscall f s = (r, s') \<Longrightarrow> memory s' = memory s"
  by (auto simp: syscall_def split: prod.splits sum.splits)

lemma memory_fd_sizeD: "fd_size K f s = (r, s') \<Longrightarrow> memory s' = memory s"
  by (auto simp: fd_size_def split: prod.splits sum.splits dest: memory_syscallD)

lemma memory_close_rawD: "close_raw K f s = (r, s') \<Longrightarrow> memory s' = memory s"
  by (auto simp: close_raw_def dest: memory_syscallD)

lemma memory_close_raw [simp]: "memory (snd (close_raw K f s)) = memory s"
  by (metis memory_close_rawD prod.collapse)

lemma memory_open_rawD: "open_raw K path spec s = (r, s') \<Longrightarrow> memory s' = memory s"
  by (auto simp: open_raw_def split: if_splits prod.splits sum.splits dest!: memory_syscallD)

lemma memory_open_forD:
  assumes "open_for K path spec thn s = (r, s')"
  shows "memory s' = memory s"
proof -
  have "memory t' = memory t" if "open_sized K path spec t = (q, t')" for q t t'
    using that
    by (auto simp: open_sized_def split: prod.splits sum.splits dest!: memory_open_rawD memory_fd_sizeD)
  with assms show ?thesis
    by (auto simp: open_for_def split: after_open.splits prod.splits sum.splits dest: memory_open_rawD)
qed

lemma memory_stepD:
  assumes "step K j n s = (res, j', s')"
  shows "memory s' = memory s"
proof -
  have "memory t = memory s" if "complete K r s = (b, t)" for r b t
    using that by (auto simp: complete_def regular_size_def split: want.splits prod.splits option.splits)
  with assms show ?thesis
    by (auto simp: step_def step_read_def step_write_def Let_def
        split: job_kind.splits prod.splits if_splits bool.splits sum.splits dest: memory_fd_sizeD)
qed

section \<open>Laws of jobs and of memory\<close>

definition obeys :: "(job \<Rightarrow> bool) \<Rightarrow> (mem \<Rightarrow> bool) \<Rightarrow> 'k aio \<Rightarrow> bool" where
  "obeys J I d \<longleftrightarrow> (\<forall>j \<in> set (jobs d). J j) \<and> I (memory (os d))"

lemma obeys_os: "memory s = memory (os d) \<Longrightarrow> obeys J I (d\<lparr>os := s\<rparr>) = obeys J I d"
  by (simp add: obeys_def jobs_def)

lemma obeys_with_os:
  assumes "with_os f d = (r, d')" and "\<And>r s. f (os d) = (r, s) \<Longrightarrow> memory s = memory (os d)"
  shows "obeys J I d' = obeys J I d"
  using assms by (auto simp: with_os_def obeys_os split: prod.splits)

lemma obeys_calls:
  "with_os (syscall g) d = (r, d') \<Longrightarrow> obeys J I d' = obeys J I d"
  "with_os (fd_size K f) d = (r1, d') \<Longrightarrow> obeys J I d' = obeys J I d"
  "with_os (close_raw K f) d = (r2, d') \<Longrightarrow> obeys J I d' = obeys J I d"
  "with_os (open_for K path spec thn) d = (r3, d') \<Longrightarrow> obeys J I d' = obeys J I d"
  by (erule obeys_with_os, erule memory_syscallD memory_fd_sizeD memory_close_rawD memory_open_forD)+

lemma obeys_updates [simp]:
  "obeys J I (d\<lparr>files := fs\<rparr>) = obeys J I d" "obeys J I (d\<lparr>next_id := n\<rparr>) = obeys J I d"
  "obeys J I (d\<lparr>helper_tx := h\<rparr>) = obeys J I d" "obeys J I (d\<lparr>pending_opens := P\<rparr>) = obeys J I d"
  "obeys J I (d\<lparr>cancelled_opens := P\<rparr>) = obeys J I d" "obeys J I (d\<lparr>progress := x\<rparr>) = obeys J I d"
  "obeys J I (d\<lparr>rx := r\<rparr>) = obeys J I d" "obeys J I (d\<lparr>back_rx := b\<rparr>) = obeys J I d"
  "obeys J I (d\<lparr>disconnected := x\<rparr>) = obeys J I d" "obeys J I (d\<lparr>helpers_gone := x\<rparr>) = obeys J I d"
  "obeys J I (d\<lparr>suspend_ns := t\<rparr>) = obeys J I d"
  "obeys J I (d\<lparr>os := (os d)\<lparr>world := w\<rparr>\<rparr>) = obeys J I d" "obeys J I (call_cb c y d) = obeys J I d"
  "obeys J I (run_close K f d) = obeys J I d"
  by (simp_all add: obeys_def jobs_def run_close_def call_cb_def with_os_def case_prod_beta)

lemma obeys_release [simp]: "obeys J I (release K h d) = obeys J I d"
  by (auto simp: release_def Let_def split: option.split prod.split simp: obeys_calls(3))

lemma obeys_finish [simp]: "obeys J I (finish K j y d) = obeys J I d"
  by (auto simp: finish_def close_owned_def send_def Let_def split: option.split)

text \<open>The kinds of job the operations make, with caller memory of which \<open>lent\<close> holds.\<close>

inductive new_kind :: "(addr \<Rightarrow> nat \<Rightarrow> bool) \<Rightarrow> job_kind \<Rightarrow> bool" for lent where
  read_alloc: "new_kind lent (Job_Read \<lparr>r_handle = h, r_fd = f, r_owned_fd = x, r_pos = pos,
      r_want = Want_Exact len, r_buf = Buf_Owned [] len, r_filled = 0\<rparr>)"
| read_into: "lent p len \<Longrightarrow> new_kind lent (Job_Read \<lparr>r_handle = h, r_fd = f, r_owned_fd = x, r_pos = pos,
      r_want = Want_Exact len, r_buf = Buf_External p len, r_filled = 0\<rparr>)"
| read_to_end: "new_kind lent (Job_Read \<lparr>r_handle = h, r_fd = f, r_owned_fd = x, r_pos = pos,
      r_want = Want_ToEnd, r_buf = Buf_Owned [] cap, r_filled = 0\<rparr>)"
| write_data: "new_kind lent (Job_Write \<lparr>w_handle = h, w_fd = f, w_owned_fd = x, w_pos = pos,
      w_append = app, w_data = data, w_filled = 0\<rparr>)"
| fsync: "new_kind lent (Job_Fsync \<lparr>f_handle = fh, f_fd = f\<rparr>)"

fun op_lends :: "(addr \<Rightarrow> nat \<Rightarrow> bool) \<Rightarrow> op \<Rightarrow> bool" where
  "op_lends lent (Op_ReadAt h pos (Dest_Into p len)) \<longleftrightarrow> lent p len"
| "op_lends lent _ \<longleftrightarrow> True"

fun msg_lends :: "(addr \<Rightarrow> nat \<Rightarrow> bool) \<Rightarrow> msg \<Rightarrow> bool" where
  "msg_lends lent (Msg_Submit i oper c) \<longleftrightarrow> op_lends lent oper"
| "msg_lends lent (Msg_Cancel i) \<longleftrightarrow> True"

locale job_law =
  fixes K :: "'k kernel" and lent :: "addr \<Rightarrow> nat \<Rightarrow> bool" and J :: "job \<Rightarrow> bool" and I :: "mem \<Rightarrow> bool"
  assumes created: "new_kind lent kind \<Longrightarrow> J \<lparr>j_id = i, j_cancelled = False, j_kind = kind, j_cb = c\<rparr>"
    and flagged: "J j \<Longrightarrow> J (j\<lparr>j_cancelled := True\<rparr>)"
    and delivered: "J j \<Longrightarrow> I (memory s) \<Longrightarrow> aio_return K (control_block j) w = ((n, bs), w') \<Longrightarrow>
      deliver_bytes j bs s = (j1, s1) \<Longrightarrow> I (memory s1)"
    and stepped: "J j \<Longrightarrow> aio_return K (control_block j) w = ((n, bs), w') \<Longrightarrow>
      deliver_bytes j bs s = (j1, s1) \<Longrightarrow> step K j1 n s1 = (Step_More, j2, s2) \<Longrightarrow> J j2"
    and synced: "J j \<Longrightarrow> I (memory s) \<Longrightarrow> sync_loop K j s = Some (j', res, s') \<Longrightarrow> I (memory s')"
begin

abbreviation obey :: "'k aio \<Rightarrow> bool" where
  "obey \<equiv> obeys J I"

lemma law_execute_sync:
  assumes "execute_sync K j d = Some d'" and "obey d" and "J j"
  shows "obey d'"
proof -
  from assms(1) obtain j' res s where run: "sync_loop K j (os d) = Some (j', res, s)"
    and d': "d' = finish K j' res (d\<lparr>os := s\<rparr>)"
    by (auto simp: execute_sync_def split: option.splits)
  from assms(2,3) synced [OF _ _ run] have "obey (d\<lparr>os := s\<rparr>)" by (simp add: obeys_def jobs_def)
  with d' show ?thesis by simp
qed

lemma law_submit_job:
  assumes "submit_job K j d = Some (r, d')" and "obey d" and "J j"
  shows "obey d' \<and> (case r of Submitted_Inflight \<Rightarrow> True | Submitted_Full j' \<Rightarrow> J j')"
proof -
  obtain res d1 where sub: "with_os (syscall (aio_submit K (control_block j))) d = (res, d1)"
    by (cases "with_os (syscall (aio_submit K (control_block j))) d")
  with assms(2) have "obey d1" by (simp add: obeys_calls(1))
  moreover from this assms(3) have "obey (d1\<lparr>inflight := inflight d1 @ [\<lparr>in_aiocb = b, in_job = j\<rparr>]\<rparr>)" for b
    by (auto simp: obeys_def jobs_def)
  ultimately show ?thesis
    using assms(1,3) sub
    by (auto simp: submit_job_def Let_def split: sum.splits if_splits intro: law_execute_sync)
qed

lemma law_submit_ready:
  assumes "submit_ready K d = Some d'" and "obey d"
  shows "obey d'"
  using assms
proof (rule submit_ready_rule [where Q = "\<lambda>j e. obey e \<and> J j"])
  fix j j' and e e' :: "'k aio"
  assume "obey e \<and> J j" and "submit_job K j e = Some (Submitted_Full j', e')"
  then have "obey e' \<and> J j'" using law_submit_job by fastforce
  then show "obey (e'\<lparr>queue := j' # queue e'\<rparr>)" by (simp add: obeys_def jobs_def)
qed (auto simp: obeys_def jobs_def dest: law_submit_job [unfolded obeys_def jobs_def])

lemma law_enqueue:
  assumes "enqueue K i kind handle c d = Some d'" and "obey d" and "new_kind lent kind"
  shows "obey d'"
proof -
  let ?j = "\<lparr>j_id = i, j_cancelled = False, j_kind = kind, j_cb = c\<rparr>" and ?d = "retain handle d"
  from assms(1) have "submit_ready K (?d\<lparr>queue := queue ?d @ [?j]\<rparr>) = Some d'"
    by (simp add: enqueue_def Let_def)
  moreover have "obey (?d\<lparr>queue := queue ?d @ [?j]\<rparr>)"
    using assms(2) created [OF assms(3)] by (auto simp: retain_def obeys_def jobs_def split: option.split)
  ultimately show ?thesis by (rule law_submit_ready)
qed

lemma law_opened:
  assumes "opened K p result d = Some d'" and "obey d"
  shows "obey d'"
  using assms
  by (auto simp: opened_def register_def Let_def split: sum.splits prod.splits after_open.splits if_splits
      intro: law_enqueue new_kind.intros)

lemma law_open_here:
  assumes "open_here K path spec p d = Some d'" and "obey d"
  shows "obey d'"
proof -
  from assms(1) obtain r d1 where "with_os (open_for K path spec (po_then p)) d = (r, d1)"
    and "opened K p r d1 = Some d'"
    by (auto simp: open_here_def split: prod.splits)
  with assms(2) show ?thesis by (metis law_opened obeys_calls(4))
qed

lemma law_open_then:
  assumes "open_then K i path spec thn c d = Some d'" and "obey d"
  shows "obey d'"
proof (cases "has_backlog d \<and> receivers (helper_tx d)")
  case True
  with assms show ?thesis by (auto simp: open_then_def Let_def send_def)
next
  case False
  have "obey d'" if "open_here K path spec p (d\<lparr>pending_opens := P\<rparr>) = Some d'" for p P
    by (rule law_open_here [OF that]) (use assms(2) in simp)
  with False assms show ?thesis
    by (cases "has_backlog d") (auto simp: open_then_def Let_def send_def run_here_def intro: law_open_here)
qed

lemma law_read_at:
  assumes "handle_read_at K i h pos dst c d = Some d'" and "obey d" and "op_lends lent (Op_ReadAt h pos dst)"
  shows "obey d'"
  using assms
  by (auto simp: handle_read_at_def split: sum.splits dest.splits if_splits intro: law_enqueue new_kind.intros)

lemma law_handle_op:
  assumes "handle_op K i oper c d = Some d'" and "obey d" and "op_lends lent oper"
  shows "obey d'"
proof (cases oper)
  case (Op_Close h)
  from assms(1) [unfolded Op_Close] assms(2) show ?thesis
    by (auto simp: close_def obeys_calls(3) split: option.splits prod.splits)
next
  case (Op_ReadAt h pos dst)
  with assms show ?thesis by (auto intro: law_read_at)
next
  case (Op_ReadToEnd h pos)
  have "obey d'" if "with_os (fd_size K f) d = (r, d1)" "enqueue K i kind hd c d1 = Some d'" "new_kind lent kind"
    for f r d1 kind hd
    using that assms(2) by (auto intro: law_enqueue simp: obeys_calls(2) [OF that(1)])
  from this [OF _ _ new_kind.read_to_end] Op_ReadToEnd assms show ?thesis
    by (auto simp: handle_read_to_end_def Let_def split: sum.splits prod.splits)
next
  case (Op_WriteAt h pos data app)
  with assms show ?thesis
    by (auto simp: handle_write_at_def obeys_calls(2) split: sum.splits prod.splits if_splits
        intro: law_enqueue new_kind.intros)
next
  case (Op_Sync h data_only)
  with assms show ?thesis
    by (auto simp: handle_sync_def split: sum.splits intro: law_enqueue new_kind.intros)
next
  case (Op_Size h)
  with assms show ?thesis
    by (auto simp: handle_size_def obeys_calls(2) split: sum.splits prod.splits)
next
  case (Op_SetLen h sz)
  with assms show ?thesis
    by (auto simp: handle_set_len_def obeys_calls(1) split: sum.splits prod.splits)
qed (use assms in \<open>auto intro: law_open_then\<close>)

lemma law_cancel_op:
  assumes "obey d"
  shows "obey (cancel_op K i d)"
proof (cases "position (\<lambda>j. j_id j = i) (queue d)")
  case (Some pos)
  with assms set_remove_at [of "queue d" pos] show ?thesis
    by (auto simp: cancel_op_def) (auto simp: obeys_def jobs_def)
next
  case None
  have "obey (d\<lparr>inflight := (inflight d)[k := (inflight d ! k)\<lparr>in_job := (in_job (inflight d ! k))\<lparr>j_cancelled := True\<rparr>\<rparr>],
      os := (os d)\<lparr>world := w\<rparr>\<rparr>)" if "k < length (inflight d)" for k w
    using assms that by (auto simp: obeys_def jobs_def flagged dest!: set_update_subset_insert [THEN subsetD])
  with None assms show ?thesis
    by (auto simp: cancel_op_def Let_def split: option.splits dest: position_SomeD)
qed

lemma law_handle_msg: "handle_msg K m d = Some d' \<Longrightarrow> obey d \<Longrightarrow> msg_lends lent m \<Longrightarrow> obey d'"
  by (cases m) (auto intro: law_handle_op [where d = "d\<lparr>progress := True\<rparr>"] law_cancel_op)

lemma law_handle_opened:
  assumes "handle_opened K om d = Some d'" and "obey d"
  shows "obey d'"
proof (cases "po_id (op_pending om) \<in> cancelled_opens d")
  case True
  with assms show ?thesis by (auto simp: handle_opened_def Let_def split: sum.splits)
next
  case False
  with assms(1) have "opened K (op_pending om) (op_result om)
      (d\<lparr>progress := True, pending_opens := pending_opens d - {po_id (op_pending om)}\<rparr>) = Some d'"
    by (simp add: handle_opened_def Let_def)
  then show ?thesis by (rule law_opened) (use assms(2) in simp)
qed

lemma law_advance:
  assumes "advance K j n d = Some d'" and "obey d"
    and "\<And>j2 s2. step K j n (os d) = (Step_More, j2, s2) \<Longrightarrow> J j2"
  shows "obey d'"
proof -
  obtain r j2 s2 where st: "step K j n (os d) = (r, j2, s2)" by (cases "step K j n (os d)") auto
  from assms(2) have os: "obey (d\<lparr>os := s2\<rparr>)" using memory_stepD [OF st] by (simp add: obeys_os)
  then have "obey (d\<lparr>os := s2, queue := j2 # queue d\<rparr>)" if "r = Step_More"
    using assms(3) [of j2 s2] st that by (simp add: obeys_def jobs_def)
  with assms(1) os st show ?thesis
    by (auto simp: advance_def split: step_result.splits if_splits intro: law_submit_ready)
qed

lemma law_reap_one:
  assumes "reap_one K k d = Some (k', d')" and "k < length (inflight d)" and "obey d" and "slots_inv d"
  shows "obey d'"
proof -
  let ?e = "inflight d ! k"
  let ?d = "\<lambda>w. d\<lparr>inflight := swap_remove (inflight d) k, progress := True, os := (os d)\<lparr>world := w\<rparr>\<rparr>"
  have e: "J (in_job ?e)" "in_aiocb ?e = control_block (in_job ?e)"
    using assms(2-4) by (auto simp: obeys_def jobs_def slots_inv_def)
  have rest: "obey (?d w)" for w
    using assms(3) set_swap_remove [OF assms(2)] by (auto simp: obeys_def jobs_def)
  have settle: "obey d2"
    if "settle_reaped K (in_job ?e) err n bs (?d w') = Some d2" and "aio_return K (control_block (in_job ?e)) w = ((n, bs), w')"
    for err n bs w w' d2
  proof (cases err)
    case None
    obtain j1 s1 where del: "deliver_bytes (in_job ?e) bs (os (?d w')) = (j1, s1)"
      by (cases "deliver_bytes (in_job ?e) bs (os (?d w'))")
    with None that have adv: "advance K j1 n (?d w'\<lparr>os := s1\<rparr>) = Some d2" by (simp add: settle_reaped_def)
    have "I (memory s1)" by (rule delivered [OF e(1) _ that(2) del]) (use rest [of w'] in \<open>simp add: obeys_def\<close>)
    with rest [of w'] have "obey (?d w'\<lparr>os := s1\<rparr>)" by (simp add: obeys_def jobs_def)
    with adv show ?thesis
      by (rule law_advance) (use stepped [OF e(1) that(2) del] in auto)
  next
    case (Some x)
    with that rest [of w'] show ?thesis
      by (auto simp: settle_reaped_def)
  qed
  from assms(1,3) e settle show ?thesis
    by (auto simp: reap_one_def Let_def split: prod.splits if_splits)
qed

lemma law_received:
  assumes "try_recv (rx d) = (Received m, r)" and "\<forall>m \<in> set (pending (rx d)). msg_lends lent m"
  shows "msg_lends lent m"
  using assms by (auto dest: try_recv_D)

lemma law_wait_idle:
  assumes "wait_idle K d d'" and "obey d" and "\<forall>m \<in> set (pending (rx d)). msg_lends lent m"
  shows "obey d'"
  using assms
  by (cases rule: wait_idle.cases)
     (auto simp: lose_helpers_def dest: law_handle_opened intro: law_handle_msg law_received)

lemma law_run_step:
  assumes "run_step K (p, d) (p', d')" and "obey d" and "slots_inv d"
    and "\<forall>m \<in> set (pending (rx d)). msg_lends lent m"
  shows "obey d'"
  using assms
proof (cases rule: run_step.cases)
  case (submitting d1)
  with assms(2) show ?thesis by (auto simp: adapt_def intro: law_submit_ready)
next
  case drain_rx
  then show ?thesis
    by (elim drain_submissionsE) (use assms(2,4) in \<open>auto intro: law_handle_msg law_received\<close>)
qed (auto simp: lose_helpers_def drop_driver_def suspend_def Let_def intro: law_reap_one law_wait_idle
      dest: law_handle_opened)

lemma law_helper_body [simp]: "obey (helper_body K hj d) = obey d"
  by (auto simp: helper_body_def Let_def send_def split: helper_job.split prod.split sum.split
      simp: obeys_calls(4))

text \<open>One step of the system: only a message in the channel can bring in foreign memory.\<close>

lemma law_sys_step:
  assumes "sys_step K n s s'" and "obey (drv s)" and "slots_inv (drv s)"
    and "\<forall>m \<in> set (pending (rx (drv s))). msg_lends lent m"
  shows "obey (drv s')"
  using assms(1)
  by (cases rule: sys_step.cases) (use assms(2-4) in \<open>auto simp: log_calls_def obeys_os intro: law_run_step\<close>)

lemma law_reachable:
  assumes "reachable K n s" and "\<And>m. I m" and "\<And>p len. lent p len"
  shows "obey (drv s)"
  using assms(1)
proof (induction rule: reachable.induct)
  case (init s)
  show ?case by (simp add: start_system_def aio_new_def obeys_def jobs_def assms(2))
next
  case (step s s')
  have lends: "msg_lends lent m" for m
  proof (cases m)
    case (Msg_Submit i oper c)
    have "op_lends lent oper" by (cases "(lent, oper)" rule: op_lends.cases) (simp_all add: assms(3))
    with Msg_Submit show ?thesis by simp
  qed simp
  have "slots_inv (drv s)" using drv_inv_reachable [OF step.hyps(1)] by (simp add: drv_inv_def)
  then show ?case using step lends by (blast intro: law_sys_step)
qed

end

section \<open>Transfers stay inside their buffers\<close>

text \<open>
  What POSIX promises of the transfers: no call moves more bytes than it was asked to,
  and a read puts as many bytes into the buffer as it reports.
\<close>

definition bounded :: "'k kernel \<Rightarrow> bool" where
  "bounded K \<longleftrightarrow>
     (\<forall>b w n bs w'. aio_return K b w = ((n, bs), w') \<longrightarrow>
        n \<le> aio_nbytes b \<and> (aio_opcode b = Aio_read \<longrightarrow> length bs = n)) \<and>
     (\<forall>f k pos w n bs w'. sys_pread K f k pos w = (Inr (n, bs), w') \<longrightarrow> n \<le> k \<and> length bs = n)"

lemma bounded_return: "bounded K \<Longrightarrow> aio_return K b w = ((n, bs), w') \<Longrightarrow>
    n \<le> aio_nbytes b \<and> (aio_opcode b = Aio_read \<longrightarrow> length bs = n)"
  unfolding bounded_def by blast

lemma bounded_pread: "bounded K \<Longrightarrow> sys_pread K f k pos w = (Inr (n, bs), w') \<Longrightarrow> n \<le> k \<and> length bs = n"
  unfolding bounded_def by blast

fun buf_ok :: "read_buf \<Rightarrow> nat \<Rightarrow> bool" where
  "buf_ok (Buf_Owned vec cap) filled \<longleftrightarrow> filled \<le> cap \<and> filled \<le> length vec"
| "buf_ok (Buf_External p len) filled \<longleftrightarrow> filled \<le> len"

fun kind_ok :: "job_kind \<Rightarrow> bool" where
  "kind_ok (Job_Read r) \<longleftrightarrow> buf_ok (r_buf r) (r_filled r)"
| "kind_ok (Job_Write w) \<longleftrightarrow> w_filled w \<le> payload_len (w_data w)"
| "kind_ok (Job_Fsync f) \<longleftrightarrow> True"

definition within_bounds :: "job \<Rightarrow> bool" where
  "within_bounds j \<longleftrightarrow> kind_ok (j_kind j)"

lemma grow_ok: "buf_ok (r_buf r) (r_filled r) \<Longrightarrow> buf_ok (r_buf (grow r)) (r_filled (grow r))"
  by (auto simp: grow_def split: read_buf.split intro: order_trans [OF _ vec_reserve_ge])

lemma within_bounds_step:
  assumes "bounded K" and "within_bounds j" and "aio_return K (control_block j) w = ((n, bs), w')"
    and "deliver_bytes j bs s = (j1, s1)" and "step K j1 n s1 = (res, j2, s2)"
  shows "within_bounds j2"
proof -
  from assms(1,3) have n: "n \<le> aio_nbytes (control_block j)"
    and bs: "aio_opcode (control_block j) = Aio_read \<Longrightarrow> length bs = n"
    by (auto dest: bounded_return)
  show ?thesis
  proof (cases "j_kind j")
    case (Job_Read r)
    obtain r1 t1 where del: "deliver_read r bs s = (r1, t1)" by (cases "deliver_read r bs s")
    obtain res' r2 t2 where st: "step_read K r1 n t1 = (res', r2, t2)" by (cases "step_read K r1 n t1") auto
    have "buf_ok (r_buf r1) (r_filled r1 + n)"
      using assms(2) n bs Job_Read del
      by (cases "r_buf r") (auto simp: within_bounds_def control_block_def deliver_read_def split: prod.splits)
    with st have "buf_ok (r_buf r2) (r_filled r2)"
      using grow_ok [of "r1\<lparr>r_filled := r_filled r1 + n\<rparr>"]
      by (auto simp: step_read_def Let_def split: prod.splits if_splits bool.splits)
    with assms(4,5) Job_Read del st show ?thesis
      by (auto simp: deliver_bytes_def step_def within_bounds_def)
  next
    case (Job_Write x)
    with assms n show ?thesis
      by (auto simp: deliver_bytes_def step_def step_write_def Let_def within_bounds_def control_block_def
          split: prod.splits if_splits sum.splits)
  next
    case (Job_Fsync f)
    with assms show ?thesis by (auto simp: deliver_bytes_def step_def within_bounds_def)
  qed
qed

text \<open>
  The law holds of the model's jobs with any kernel that keeps the promise; the second
  argument makes it a law of every kernel.
\<close>

interpretation bounds: job_law K "\<lambda>_ _. True" "\<lambda>j. bounded K \<longrightarrow> within_bounds j" "\<lambda>_. True" for K
proof unfold_locales
  fix kind i c
  assume "new_kind (\<lambda>_ _. True) kind"
  then show "bounded K \<longrightarrow> within_bounds \<lparr>j_id = i, j_cancelled = False, j_kind = kind, j_cb = c\<rparr>"
    by cases (simp_all add: within_bounds_def)
qed (auto simp: within_bounds_def intro: within_bounds_step [unfolded within_bounds_def])

lemma within_bounds_reachable:
  assumes "reachable K n s" and "bounded K" and "j \<in> set (jobs (drv s))"
  shows "within_bounds j"
  using bounds.law_reachable [OF assms(1)] assms(2,3) by (simp add: obeys_def)

text \<open>
  C17: Whatever the interleaving, a read or write that is queued or with the kernel asks
  for bytes inside its buffer only: a read into caller memory between the address it was
  given and that address plus its length, a read into a vector between what is filled and
  the capacity, a write between what is written and the end of the payload; and a vector
  never counts more bytes as read than the kernel has put into it.
\<close>

theorem transfers_within_bounds:
  assumes "reachable K n s" and "bounded K" and "j \<in> set (jobs (drv s))"
  shows "(\<forall>r p len. j_kind j = Job_Read r \<longrightarrow> r_buf r = Buf_External p len \<longrightarrow>
            (\<exists>q. aio_buf (control_block j) = To_mem q \<and> p \<le> q \<and> q + aio_nbytes (control_block j) = p + len)) \<and>
         (\<forall>r vec cap. j_kind j = Job_Read r \<longrightarrow> r_buf r = Buf_Owned vec cap \<longrightarrow>
            (\<exists>k. aio_buf (control_block j) = To_vec k \<and> k + aio_nbytes (control_block j) = cap \<and>
                 k = r_filled r \<and> k \<le> length vec)) \<and>
         (\<forall>w. j_kind j = Job_Write w \<longrightarrow>
            (\<exists>k. aio_buf (control_block j) = From_payload (w_data w) k \<and>
                 k + aio_nbytes (control_block j) = payload_len (w_data w)))"
  using within_bounds_reachable [OF assms] by (auto simp: within_bounds_def control_block_def)

lemma disk_bounded: "bounded (disk_kernel most)"
proof -
  have "n \<le> aio_nbytes b \<and> (aio_opcode b = Aio_read \<longrightarrow> length bs = n)"
    if "aio_return (disk_kernel most) b w = ((n, bs), w')" for b w n bs w'
    using that
    by (auto simp: disk_kernel_def disk_read_def disk_write_def Let_def
        split: aio_opcode.splits buf_ref.splits payload.splits prod.splits)
  moreover have "n \<le> k \<and> length bs = n" if "sys_pread (disk_kernel most) f k pos w = (Inr (n, bs), w')" for f k pos w n bs w'
    using that by (auto simp: disk_kernel_def disk_read_def Let_def)
  ultimately show ?thesis unfolding bounded_def by blast
qed

definition demo_into :: "disk system" where
  "demo_into = play (disk_kernel 2) 1 (disk_os [1, 2, 3, 4, 5, 6])
     [Submit (Op_Open ''a'' read_spec) 10, Drive 20, Submit (Op_ReadAt 1 0 (Dest_Into 100 5)) 11, Drive 4]"

lemma demo_into_job:
  "map (\<lambda>j. (j_id j, case j_kind j of Job_Read r \<Rightarrow> Some (r_buf r) | _ \<Rightarrow> None)) (jobs (drv demo_into)) =
     [(2, Some (Buf_External 100 5))]"
  by code_simp

theorem transfers_within_bounds_witness:
  "\<exists>j::job. \<exists>q. j_id j = 2 \<and> aio_buf (control_block j) = To_mem q \<and>
     100 \<le> q \<and> q + aio_nbytes (control_block j) = 105"
proof -
  have reach: "reachable (disk_kernel 2) 1 demo_into" by (simp add: demo_into_def reachable_play)
  have "(2, Some (Buf_External 100 5)) \<in>
      set (map (\<lambda>j. (j_id j, case j_kind j of Job_Read r \<Rightarrow> Some (r_buf r) | _ \<Rightarrow> None)) (jobs (drv demo_into)))"
    unfolding demo_into_job by simp
  then obtain j where j: "j \<in> set (jobs (drv demo_into))" "j_id j = 2"
    and buf: "(case j_kind j of Job_Read r \<Rightarrow> Some (r_buf r) | _ \<Rightarrow> None) = Some (Buf_External 100 5)"
    by (auto simp del: demo_into_job)
  then obtain r where "j_kind j = Job_Read r" and "r_buf r = Buf_External 100 5"
    by (auto split: job_kind.splits)
  with transfers_within_bounds [OF reach disk_bounded j(1)] j(2) show ?thesis by fastforce
qed

end
