(* ===== verification/Python.thy ===== *)
theory Python
  imports Core
begin

text \<open>
  The Python side as far as \<open>crates/turbofile-py\<close> touches it: the exceptions it raises, the
  values it builds, buffers, and futures.  Objects are named by numbers; a bytes object
  still being filled is the address and length of its memory.
\<close>

datatype py_error =
    Py_ValueError string
  | Py_OSError "errno option" io_error
  | Py_RuntimeError string
  | Py_InvalidStateError

datatype py_value =
    Py_None
  | Py_int int
  | Py_bytes "byte list"
  | Py_tuple "py_value list"

record py_buffer =
  buf_readonly :: bool
  buf_contiguous :: bool
  buf_ptr :: addr
  buf_len :: nat

text \<open>\<open>asyncio.Future\<close>: settling one that is not pending raises \<open>InvalidStateError\<close>.\<close>

datatype future = Pending | Was_cancelled | Failed py_error | Resolved py_value

record 'x py =
  futures :: "nat \<Rightarrow> future"
  py_rest :: 'x

definition settle_future :: "nat \<Rightarrow> future \<Rightarrow> 'x py \<Rightarrow> (py_error + unit) \<times> 'x py" where
  "settle_future f v s =
     (if futures s f = Pending then (Inr (), s\<lparr>futures := (futures s)(f := v)\<rparr>)
      else (Inl Py_InvalidStateError, s))"

definition set_result :: "nat \<Rightarrow> py_value \<Rightarrow> 'x py \<Rightarrow> (py_error + unit) \<times> 'x py" where
  "set_result f v = settle_future f (Resolved v)"

definition set_exception :: "nat \<Rightarrow> py_error \<Rightarrow> 'x py \<Rightarrow> (py_error + unit) \<times> 'x py" where
  "set_exception f e = settle_future f (Failed e)"

text \<open>\<open>KernelFuture.settle_cancelled\<close> is \<open>asyncio.Future.cancel\<close>, which does not raise.\<close>

definition settle_cancelled :: "nat \<Rightarrow> 'x py \<Rightarrow> 'x py" where
  "settle_cancelled f s = snd (settle_future f Was_cancelled s)"

end
