(* ===== verification/Settle.thy ===== *)
theory Settle
  imports Python
begin

text \<open>
  What the drain does with one completion (\<open>deliver\<close>, \<open>settle\<close>, \<open>build_value\<close> and
  \<open>io_err_to_pyerr\<close> of \<open>crates/turbofile-py/src/lib.rs\<close>).
\<close>

section \<open>Completions\<close>

datatype owner = Owner_Buffer py_buffer

datatype out_kind =
    Output_Plain
  | Output_FillBytes addr nat
  | Output_ReadInto
  | Output_WholeFile "nat option"
  | Output_WrittenCount

record completion =
  cm_fut :: nat
  cm_result :: "reply io"
  cm_output :: out_kind
  cm_owner :: "owner option"

definition io_err_to_pyerr :: "io_error \<Rightarrow> py_error" where
  "io_err_to_pyerr e = (case raw_os_error e of
       Some code \<Rightarrow> Py_OSError (Some code) e
     | None \<Rightarrow> Py_OSError None e)"

definition mismatched :: py_error where
  "mismatched = Py_RuntimeError ''mismatched turbofile reply''"

text \<open>
  \<open>build_value\<close>, arm by arm; \<^const>\<open>None\<close> is the panic of a slice past the end of the bytes
  object.
\<close>

fun build_value :: "mem \<Rightarrow> out_kind \<Rightarrow> reply \<Rightarrow> (py_error + py_value) option" where
  "build_value m (Output_FillBytes p len) (Reply_Read n) =
     (let bound = map (\<lambda>k. m (p + k)) [0..<len]
      in if len = n then Some (Inr (Py_bytes bound))
         else if n \<le> len then Some (Inr (Py_bytes (take n bound))) else None)"
| "build_value m Output_ReadInto (Reply_Read n) = Some (Inr (Py_int (int n)))"
| "build_value m out (Reply_Bytes data) = Some (Inr (Py_bytes data))"
| "build_value m out (Reply_Handle i sz f) = Some (Inr (Py_tuple [Py_int (int i), Py_int (uint sz), Py_int f]))"
| "build_value m Output_WrittenCount (Reply_Written n e) = Some (Inr (Py_int (int n)))"
| "build_value m out (Reply_Written n e) = Some (Inr (Py_tuple [Py_int (int n), Py_int (uint e)]))"
| "build_value m out (Reply_Size sz) = Some (Inr (Py_int (uint sz)))"
| "build_value m out Reply_Unit = Some (Inr Py_None)"
| "build_value m out (Reply_Read n) = Some (Inl mismatched)"

text \<open>
  A continuation given to \<open>read_file\<close> is Python code, a parameter: it may do anything to the
  Python state, and raise.
\<close>

type_synonym 'x hook = "nat \<Rightarrow> nat \<Rightarrow> nat \<Rightarrow> int \<Rightarrow> 'x py \<Rightarrow> (py_error + unit) \<times> 'x py"

fun settle :: "'x hook \<Rightarrow> mem \<Rightarrow> nat \<Rightarrow> reply \<Rightarrow> out_kind \<Rightarrow> 'x py \<Rightarrow> ((py_error + unit) \<times> 'x py) option" where
  "settle call m fut (Reply_Handle i sz f) (Output_WholeFile (Some h)) s = Some (call h fut i f s)"
| "settle call m fut r out s = (case build_value m out r of
       None \<Rightarrow> None
     | Some (Inl e) \<Rightarrow> Some (Inl e, s)
     | Some (Inr v) \<Rightarrow> Some (set_result fut v s))"

definition deliver :: "'x hook \<Rightarrow> mem \<Rightarrow> completion \<Rightarrow> 'x py \<Rightarrow> 'x py option" where
  "deliver call m c s = (case cm_result c of
       Inl e \<Rightarrow>
         (if is_cancelled e then Some (settle_cancelled (cm_fut c) s)
          else Some (snd (set_exception (cm_fut c) (io_err_to_pyerr e) s)))
     | Inr r \<Rightarrow>
         (case settle call m (cm_fut c) r (cm_output c) s of
            None \<Rightarrow> None
          | Some (Inl e, s') \<Rightarrow> Some (snd (set_exception (cm_fut c) e s'))
          | Some (Inr _, s') \<Rightarrow> Some s'))"

text \<open>A whole batch, in order.\<close>

fun deliver_all :: "'x hook \<Rightarrow> mem \<Rightarrow> completion list \<Rightarrow> 'x py \<Rightarrow> 'x py option" where
  "deliver_all call m [] s = Some s"
| "deliver_all call m (c # cs) s = (case deliver call m c s of
     None \<Rightarrow> None | Some s' \<Rightarrow> deliver_all call m cs s')"

section \<open>Entry points\<close>

text \<open>
  What the module's functions hand to \<open>submit\<close>: an op, what to make of its reply, and the
  buffer to keep alive.  A bytes object to fill is allocated at \<open>base\<close> by the interpreter.
\<close>

record submission =
  sb_op :: op
  sb_output :: out_kind
  sb_owner :: "owner option"

definition write_payload :: "py_buffer \<Rightarrow> py_error + payload \<times> owner" where
  "write_payload b =
     (if \<not> buf_contiguous b then Inl (Py_ValueError ''buffer must be C-contiguous'')
      else Inr (Payload_Borrowed (buf_ptr b) (buf_len b), Owner_Buffer b))"

definition py_open :: "path \<Rightarrow> bool \<Rightarrow> bool \<Rightarrow> bool \<Rightarrow> bool \<Rightarrow> bool \<Rightarrow> bool \<Rightarrow> py_error + submission" where
  "py_open path r w app trunc creat creat_new =
     Inr \<lparr>sb_op = Op_Open path \<lparr>sp_read = r, sp_write = w, sp_append = app, sp_truncate = trunc,
            sp_create = creat, sp_create_new = creat_new\<rparr>,
          sb_output = Output_Plain, sb_owner = None\<rparr>"

definition py_read :: "nat \<Rightarrow> u64 \<Rightarrow> nat \<Rightarrow> addr \<Rightarrow> py_error + submission" where
  "py_read handle pos len base =
     Inr \<lparr>sb_op = Op_ReadAt handle pos (Dest_Into base len), sb_output = Output_FillBytes base len, sb_owner = None\<rparr>"

definition py_read_to_end :: "nat \<Rightarrow> u64 \<Rightarrow> py_error + submission" where
  "py_read_to_end handle pos =
     Inr \<lparr>sb_op = Op_ReadToEnd handle pos, sb_output = Output_Plain, sb_owner = None\<rparr>"

definition py_readinto :: "nat \<Rightarrow> u64 \<Rightarrow> py_buffer \<Rightarrow> py_error + submission" where
  "py_readinto handle pos b =
     (if buf_readonly b then Inl (Py_ValueError ''readinto needs a writable buffer'')
      else if \<not> buf_contiguous b then Inl (Py_ValueError ''buffer must be C-contiguous'')
      else Inr \<lparr>sb_op = Op_ReadAt handle pos (Dest_Into (buf_ptr b) (buf_len b)),
                sb_output = Output_ReadInto, sb_owner = Some (Owner_Buffer b)\<rparr>)"

definition py_write :: "nat \<Rightarrow> u64 \<Rightarrow> py_buffer \<Rightarrow> bool \<Rightarrow> py_error + submission" where
  "py_write handle pos data app = (case write_payload data of
       Inl e \<Rightarrow> Inl e
     | Inr (payload, owner) \<Rightarrow>
         Inr \<lparr>sb_op = Op_WriteAt handle pos payload app, sb_output = Output_Plain, sb_owner = Some owner\<rparr>)"

definition py_close :: "nat \<Rightarrow> py_error + submission" where
  "py_close handle = Inr \<lparr>sb_op = Op_Close handle, sb_output = Output_Plain, sb_owner = None\<rparr>"

definition py_sync :: "nat \<Rightarrow> bool \<Rightarrow> py_error + submission" where
  "py_sync handle data_only = Inr \<lparr>sb_op = Op_Sync handle data_only, sb_output = Output_Plain, sb_owner = None\<rparr>"

definition py_set_len :: "nat \<Rightarrow> u64 \<Rightarrow> py_error + submission" where
  "py_set_len handle sz = Inr \<lparr>sb_op = Op_SetLen handle sz, sb_output = Output_Plain, sb_owner = None\<rparr>"

definition py_size :: "nat \<Rightarrow> py_error + submission" where
  "py_size handle = Inr \<lparr>sb_op = Op_Size handle, sb_output = Output_Plain, sb_owner = None\<rparr>"

definition py_read_file :: "path \<Rightarrow> u64 \<Rightarrow> nat option \<Rightarrow> py_error + submission" where
  "py_read_file path inline_max hook =
     Inr \<lparr>sb_op = Op_ReadFile path inline_max, sb_output = Output_WholeFile hook, sb_owner = None\<rparr>"

definition py_write_file :: "path \<Rightarrow> py_buffer \<Rightarrow> py_error + submission" where
  "py_write_file path data = (case write_payload data of
       Inl e \<Rightarrow> Inl e
     | Inr (payload, owner) \<Rightarrow>
         Inr \<lparr>sb_op = Op_WriteFile path payload, sb_output = Output_WrittenCount, sb_owner = Some owner\<rparr>)"

definition probe_nop :: "py_error + submission" where
  "probe_nop = Inr \<lparr>sb_op = Op_Nop, sb_output = Output_Plain, sb_owner = None\<rparr>"

end
