(* ===== verification/Bridge.thy ===== *)
theory Bridge
  imports Prelude
begin

text \<open>
  The completion queue of one event loop (\<open>LoopBridge\<close> and \<open>DrainHandle\<close> of
  \<open>crates/turbofile-py/src/lib.rs\<close>).  Any number of threads run \<open>complete\<close> while the loop
  thread runs the drain; every access to the queue, the \<open>armed\<close> flag, \<open>ALIVE\<close> or the
  doorbell is one step, and the steps interleave freely.  The last three fields are ghosts:
  they record what was pushed, delivered and dropped, in order.
\<close>

section \<open>State\<close>

text \<open>
  \<open>Pipe n\<close> is a pipe that holds at most \<open>n\<close> wake bytes.
\<close>

datatype doorbell = Pipe nat | CallSoon

text \<open>Where a call of \<open>complete\<close> stands, named after what it does next.\<close>

datatype 'c completing =
    At_push 'c
  | At_swap
  | At_alive
  | At_ring
  | At_take_stale
  | At_disarm_stale
  | At_return

text \<open>Where the drain stands.\<close>

datatype 'c draining =
    Idle
  | At_quiet
  | At_take
  | At_deliver "'c list"
  | At_disarm
  | At_recheck
  | At_rearm

record 'c bridge =
  br_queue :: "'c list"
  br_armed :: bool
  br_bell :: doorbell
  br_wakes :: nat
  br_alive :: bool
  br_open :: bool
  br_calls :: "'c completing list"
  br_drain :: "'c draining"
  br_pushed :: "'c list"
  br_delivered :: "'c list"
  br_dropped :: "'c list"

definition new_bridge :: "doorbell \<Rightarrow> 'c bridge" where
  "new_bridge bell = \<lparr>br_queue = [], br_armed = False, br_bell = bell, br_wakes = 0, br_alive = True,
     br_open = True, br_calls = [], br_drain = Idle, br_pushed = [], br_delivered = [], br_dropped = []\<rparr>"

section \<open>\<open>complete\<close>\<close>

text \<open>
  The write of the one wake byte: a full pipe answers \<open>EAGAIN\<close> and already holds a wake.
\<close>

definition ring_pipe :: "nat \<Rightarrow> 'c bridge \<Rightarrow> 'c completing \<times> 'c bridge" where
  "ring_pipe room b =
     (At_return, if br_wakes b < room then b\<lparr>br_wakes := Suc (br_wakes b)\<rparr> else b)"

definition ring_call_soon :: "'c bridge \<Rightarrow> 'c completing \<times> 'c bridge" where
  "ring_call_soon b =
     (if br_open b then (At_return, b\<lparr>br_wakes := Suc (br_wakes b)\<rparr>) else (At_take_stale, b))"

fun complete_step :: "'c completing \<Rightarrow> 'c bridge \<Rightarrow> 'c completing \<times> 'c bridge" where
  "complete_step (At_push c) b =
     (At_swap, b\<lparr>br_queue := br_queue b @ [c], br_pushed := br_pushed b @ [c]\<rparr>)"
| "complete_step At_swap b =
     (if br_armed b then (At_return, b) else (At_alive, b\<lparr>br_armed := True\<rparr>))"
| "complete_step At_alive b = (if br_alive b then At_ring else At_return, b)"
| "complete_step At_ring b = (case br_bell b of Pipe room \<Rightarrow> ring_pipe room b | CallSoon \<Rightarrow> ring_call_soon b)"
| "complete_step At_take_stale b =
     (At_disarm_stale, b\<lparr>br_queue := [], br_dropped := br_dropped b @ br_queue b\<rparr>)"
| "complete_step At_disarm_stale b = (At_return, b\<lparr>br_armed := False\<rparr>)"
| "complete_step At_return b = (At_return, b)"

section \<open>The drain\<close>

text \<open>One read of \<open>quiet_pipe\<close> takes up to 64 wake bytes; it goes on until a read finds none.\<close>

definition quiet_pipe :: "'c bridge \<Rightarrow> 'c bridge" where
  [simp]: "quiet_pipe b = (if br_wakes b = 0 then b\<lparr>br_drain := At_take\<rparr>
     else b\<lparr>br_wakes := br_wakes b - min 64 (br_wakes b)\<rparr>)"

definition quiet_step :: "'c bridge \<Rightarrow> 'c bridge" where
  "quiet_step b = (case br_bell b of Pipe room \<Rightarrow> quiet_pipe b | CallSoon \<Rightarrow> b\<lparr>br_drain := At_take\<rparr>)"

fun drain_step :: "'c draining \<Rightarrow> 'c bridge \<Rightarrow> 'c bridge" where
  "drain_step Idle b = b"
| "drain_step At_quiet b = quiet_step b"
| "drain_step At_take b =
     (if br_queue b = [] then b\<lparr>br_drain := At_disarm\<rparr>
      else b\<lparr>br_queue := [], br_drain := At_deliver (br_queue b)\<rparr>)"
| "drain_step (At_deliver []) b = b\<lparr>br_drain := At_take\<rparr>"
| "drain_step (At_deliver (c # cs)) b = b\<lparr>br_delivered := br_delivered b @ [c], br_drain := At_deliver cs\<rparr>"
| "drain_step At_disarm b = b\<lparr>br_armed := False, br_drain := At_recheck\<rparr>"
| "drain_step At_recheck b = b\<lparr>br_drain := (if br_queue b = [] then Idle else At_rearm)\<rparr>"
| "drain_step At_rearm b =
     (if br_armed b then b\<lparr>br_drain := Idle\<rparr> else b\<lparr>br_armed := True, br_drain := At_take\<rparr>)"

text \<open>
  The loop calls the drain for a readable pipe or a scheduled callback, which the call uses up.
\<close>

definition wake :: "'c bridge \<Rightarrow> 'c bridge" where
  "wake b = b\<lparr>br_drain := At_quiet, br_wakes := (case br_bell b of Pipe room \<Rightarrow> br_wakes b | CallSoon \<Rightarrow> br_wakes b - 1)\<rparr>"

text \<open>\<open>shutdown\<close>, which \<open>atexit\<close> calls.\<close>

definition shutdown :: "'c bridge \<Rightarrow> 'c bridge" where
  [simp]: "shutdown b = b\<lparr>br_alive := False\<rparr>"

section \<open>Steps of the system\<close>

inductive bridge_step :: "'c bridge \<Rightarrow> 'c bridge \<Rightarrow> bool" where
  start: "bridge_step b (b\<lparr>br_calls := br_calls b @ [At_push c]\<rparr>)"
| run: "n < length (br_calls b) \<Longrightarrow> complete_step (br_calls b ! n) b = (pc, b') \<Longrightarrow>
    bridge_step b (b'\<lparr>br_calls := (br_calls b')[n := pc]\<rparr>)"
| awake: "br_open b \<Longrightarrow> br_drain b = Idle \<Longrightarrow> 0 < br_wakes b \<Longrightarrow> bridge_step b (wake b)"
| drain: "br_drain b \<noteq> Idle \<Longrightarrow> bridge_step b (drain_step (br_drain b) b)"
| shuts_down: "bridge_step b (shutdown b)"
| close_loop: "br_drain b = Idle \<Longrightarrow> bridge_step b (b\<lparr>br_open := False\<rparr>)"

inductive bridge_reach :: "doorbell \<Rightarrow> 'c bridge \<Rightarrow> bool" for bell where
  new: "bridge_reach bell (new_bridge bell)"
| step: "bridge_reach bell b \<Longrightarrow> bridge_step b b' \<Longrightarrow> bridge_reach bell b'"

definition bell_ok :: "doorbell \<Rightarrow> bool" where
  "bell_ok bell = (case bell of Pipe room \<Rightarrow> 0 < room | CallSoon \<Rightarrow> True)"

section \<open>One doorbell for a burst\<close>

text \<open>
  The right to have the drain run is a token.  It is with the call of \<open>complete\<close> that armed
  the bridge until it has rung, then in the doorbell, then with the drain until it disarms.
\<close>

fun call_token :: "'c completing \<Rightarrow> nat" where
  "call_token At_alive = 1"
| "call_token At_ring = 1"
| "call_token At_take_stale = 1"
| "call_token At_disarm_stale = 1"
| "call_token _ = 0"

fun drain_token :: "'c draining \<Rightarrow> nat" where
  "drain_token At_quiet = 1"
| "drain_token At_take = 1"
| "drain_token (At_deliver cs) = 1"
| "drain_token At_disarm = 1"
| "drain_token _ = 0"

text \<open>While a drain empties the pipe, the byte in it and the drain are the same token.\<close>

definition bell_token :: "'c bridge \<Rightarrow> nat" where
  "bell_token b = (if br_drain b = At_quiet \<and> br_bell b \<noteq> CallSoon then 0 else br_wakes b)"

definition tokens :: "'c bridge \<Rightarrow> nat" where
  "tokens b = bell_token b + drain_token (br_drain b) + sum_list (map call_token (br_calls b))"

definition swapping :: "'c bridge \<Rightarrow> bool" where
  "swapping b \<longleftrightarrow> At_swap \<in> set (br_calls b)"

definition bridge_ok :: "'c bridge \<Rightarrow> bool" where
  "bridge_ok b \<longleftrightarrow> bell_ok (br_bell b) \<and> br_wakes b \<le> 1 \<and> tokens b \<le> of_bool (br_armed b) \<and>
     (br_alive b \<and> br_open b \<longrightarrow> tokens b = of_bool (br_armed b) \<and>
        (br_queue b \<noteq> [] \<and> \<not> br_armed b \<longrightarrow> br_drain b \<in> {At_recheck, At_rearm} \<or> swapping b))"

lemma sum_list_replace:
  fixes f :: "'a \<Rightarrow> nat"
  assumes "n < length xs"
  shows "sum_list (map f (xs[n := y])) + f (xs ! n) = sum_list (map f xs) + f y"
  using assms
proof (induction xs arbitrary: n)
  case (Cons x xs)
  show ?case
  proof (cases n)
    case (Suc m)
    with Cons.IH [of m] Cons.prems show ?thesis by simp
  qed simp
qed simp

lemma tokens_replace:
  assumes "n < length (br_calls b)"
  shows "tokens (b\<lparr>br_calls := (br_calls b)[n := pc]\<rparr>) + call_token (br_calls b ! n) = tokens b + call_token pc"
  using sum_list_replace [OF assms, of call_token pc] by (simp add: tokens_def bell_token_def)

lemma token_in_sum:
  assumes "n < length (br_calls b)"
  shows "call_token (br_calls b ! n) \<le> sum_list (map call_token (br_calls b))"
proof (rule member_le_sum_list)
  from nth_mem [OF assms] show "call_token (br_calls b ! n) \<in> set (map call_token (br_calls b))" by simp
qed simp

lemma token_of_call: "n < length (br_calls b) \<Longrightarrow> call_token (br_calls b ! n) \<le> tokens b"
  unfolding tokens_def by (rule trans_le_add2) (rule token_in_sum)

text \<open>What a step of \<open>complete\<close> does to the tokens in the doorbell and at the drain.\<close>

lemma complete_step_frame:
  "complete_step pc b = (pc', b') \<Longrightarrow> br_calls b' = br_calls b \<and> br_drain b' = br_drain b \<and> br_bell b' = br_bell b \<and>
     br_alive b' = br_alive b \<and> br_open b' = br_open b \<and> br_delivered b' = br_delivered b"
  by (cases pc) (auto simp: ring_pipe_def ring_call_soon_def split: if_splits doorbell.splits)

lemma swapping_replace:
  assumes "br_calls b ! n \<noteq> At_swap" and "n < length (br_calls b)" and "swapping b"
  shows "swapping (b\<lparr>br_calls := (br_calls b)[n := pc]\<rparr>)"
proof -
  from assms(3) obtain m where "m < length (br_calls b)" and "br_calls b ! m = At_swap"
    by (auto simp: swapping_def in_set_conv_nth)
  with assms(1,2) have eq: "(br_calls b)[n := pc] ! m = At_swap" and len: "m < length ((br_calls b)[n := pc])"
    by (auto simp: nth_list_update)
  from nth_mem [OF len] have "At_swap \<in> set ((br_calls b)[n := pc])" unfolding eq .
  then show ?thesis by (simp add: swapping_def)
qed

lemma swapping_here:
  assumes "n < length (br_calls b)"
  shows "swapping (b\<lparr>br_calls := (br_calls b)[n := At_swap]\<rparr>)"
proof -
  from assms have "At_swap \<in> set ((br_calls b)[n := At_swap])" by (rule set_update_memI)
  then show ?thesis by (simp add: swapping_def)
qed

lemma tokens_fields: "tokens (b\<lparr>br_queue := q\<rparr>) = tokens b" "tokens (b\<lparr>br_pushed := q\<rparr>) = tokens b"
  "tokens (b\<lparr>br_armed := x\<rparr>) = tokens b" "tokens (b\<lparr>br_dropped := q\<rparr>) = tokens b"
  "tokens (b\<lparr>br_delivered := q\<rparr>) = tokens b" "tokens (b\<lparr>br_alive := x\<rparr>) = tokens b" "tokens (b\<lparr>br_open := x\<rparr>) = tokens b"
  "tokens (b\<lparr>br_calls := br_calls b @ [At_push c]\<rparr>) = tokens b"
  by (simp_all add: tokens_def bell_token_def)

lemma token_armed:
  assumes "bridge_ok b" and "n < length (br_calls b)" and "call_token (br_calls b ! n) = 1"
  shows "br_armed b \<and> tokens b = 1"
proof -
  from token_of_call [OF assms(2)] assms(3) have "1 \<le> tokens b" by simp
  with assms(1) show ?thesis by (cases "br_armed b") (auto simp: bridge_ok_def)
qed

text \<open>An armed bridge that keeps its one token is in order, whatever else changed.\<close>

lemma armed_ok: "bell_ok (br_bell b) \<Longrightarrow> br_wakes b \<le> 1 \<Longrightarrow> br_armed b \<Longrightarrow> tokens b = 1 \<Longrightarrow> bridge_ok b"
  by (simp add: bridge_ok_def)

lemma spent_ok: "bell_ok (br_bell b) \<Longrightarrow> br_wakes b \<le> 1 \<Longrightarrow> tokens b = 0 \<Longrightarrow> \<not> (br_alive b \<and> br_open b) \<Longrightarrow> bridge_ok b"
  by (auto simp: bridge_ok_def)

lemma complete_step_ok:
  assumes ok: "bridge_ok b" and n: "n < length (br_calls b)" and step: "complete_step (br_calls b ! n) b = (pc, b')"
    and closed: "br_calls b ! n \<in> {At_take_stale, At_disarm_stale} \<Longrightarrow> \<not> br_open b"
  shows "bridge_ok (b'\<lparr>br_calls := (br_calls b')[n := pc]\<rparr>)"
proof -
  note frame = complete_step_frame [OF step]
  have n': "n < length (br_calls b')" using n frame by simp
  note count = tokens_replace [OF n', of pc]
  have bell: "bell_ok (br_bell b)" "br_wakes b \<le> 1" using ok by (simp_all add: bridge_ok_def)
  show ?thesis
  proof (cases "br_calls b ! n")
    case (At_push c)
    with step have b': "b' = b\<lparr>br_queue := br_queue b @ [c], br_pushed := br_pushed b @ [c]\<rparr>" and pc: "pc = At_swap" by auto
    from swapping_here [OF n'] pc have sw: "swapping (b'\<lparr>br_calls := (br_calls b')[n := pc]\<rparr>)" by simp
    have "tokens (b'\<lparr>br_calls := (br_calls b')[n := pc]\<rparr>) = tokens b"
      using count frame At_push pc b' by (simp add: tokens_fields)
    with ok b' sw show ?thesis by (simp add: bridge_ok_def)
  next
    case At_swap
    show ?thesis
    proof (cases "br_armed b")
      case True
      with At_swap step have "b' = b" and "pc = At_return" by auto
      with ok count True At_swap show ?thesis by (simp add: bridge_ok_def)
    next
      case False
      with At_swap step have b': "b' = b\<lparr>br_armed := True\<rparr>" and pc: "pc = At_alive" by auto
      from ok False have "tokens b = 0" by (simp add: bridge_ok_def)
      with count b' pc At_swap have "tokens (b'\<lparr>br_calls := (br_calls b')[n := pc]\<rparr>) = 1" by (simp add: tokens_fields)
      with bell b' show ?thesis by (intro armed_ok) simp_all
    qed
  next
    case At_alive
    note token = token_armed [OF ok n, unfolded At_alive, simplified]
    from At_alive step have b': "b' = b" and pc: "pc = (if br_alive b then At_ring else At_return)" by auto
    show ?thesis
    proof (cases "br_alive b")
      case True
      with count b' pc At_alive token bell show ?thesis by (intro armed_ok) simp_all
    next
      case False
      with count b' pc At_alive token bell show ?thesis by (intro spent_ok) simp_all
    qed
  next
    case At_ring
    note token = token_armed [OF ok n, unfolded At_ring, simplified]
    have "1 \<le> sum_list (map call_token (br_calls b))"
      using token_in_sum [OF n] At_ring by simp
    with token have "drain_token (br_drain b) = 0" and "bell_token b = 0" unfolding tokens_def by linarith+
    then have quiet: "br_drain b \<noteq> At_quiet" by auto
    with \<open>bell_token b = 0\<close> have w: "br_wakes b = 0" by (simp add: bell_token_def)
    show ?thesis
    proof (cases "br_bell b = CallSoon \<and> \<not> br_open b")
      case True
      with step At_ring have "b' = b" and "pc = At_take_stale" by (auto simp: ring_call_soon_def)
      with count At_ring token bell show ?thesis by (intro armed_ok) simp_all
    next
      case False
      have b': "b' = b\<lparr>br_wakes := Suc (br_wakes b)\<rparr> \<and> pc = At_return"
        using step At_ring False w bell
        by (cases "br_bell b") (auto simp: ring_pipe_def ring_call_soon_def bell_ok_def)
      then have "tokens b' = Suc (tokens b)" using quiet by (simp add: tokens_def bell_token_def)
      with count b' At_ring token bell w show ?thesis by (intro armed_ok) simp_all
    qed
  next
    case At_take_stale
    note token = token_armed [OF ok n, unfolded At_take_stale, simplified]
    from At_take_stale step have b': "b' = b\<lparr>br_queue := [], br_dropped := br_dropped b @ br_queue b\<rparr>"
      and pc: "pc = At_disarm_stale" by auto
    with count At_take_stale token bell show ?thesis by (intro armed_ok) (simp_all add: tokens_fields)
  next
    case At_disarm_stale
    note token = token_armed [OF ok n, unfolded At_disarm_stale, simplified]
    from At_disarm_stale step have b': "b' = b\<lparr>br_armed := False\<rparr>" and pc: "pc = At_return" by auto
    with count At_disarm_stale token bell closed show ?thesis by (intro spent_ok) (simp_all add: tokens_fields)
  next
    case At_return
    with step have b': "b' = b" and pc: "pc = At_return" by auto
    have "swapping b \<longrightarrow> swapping (b\<lparr>br_calls := (br_calls b)[n := pc]\<rparr>)"
      using swapping_replace [OF _ n, of pc] At_return by simp
    with ok count b' pc At_return show ?thesis by (auto simp: bridge_ok_def)
  qed
qed

lemma drain_step_frame:
  "br_calls (drain_step d b) = br_calls b \<and> br_bell (drain_step d b) = br_bell b \<and> br_pushed (drain_step d b) = br_pushed b \<and>
     br_alive (drain_step d b) = br_alive b \<and> br_open (drain_step d b) = br_open b \<and> br_dropped (drain_step d b) = br_dropped b"
  by (cases "(d, b)" rule: drain_step.cases) (auto simp: quiet_step_def split: doorbell.splits)

text \<open>While the drain holds the token it is the only one.\<close>

lemma drain_token_armed:
  assumes "bridge_ok b" and "drain_token (br_drain b) = 1"
  shows "br_armed b \<and> tokens b = 1 \<and> bell_token b = 0 \<and> sum_list (map call_token (br_calls b)) = 0"
  using assms by (cases "br_armed b") (auto simp: bridge_ok_def tokens_def bell_token_def)

lemma drain_step_ok:
  assumes ok: "bridge_ok b"
  shows "bridge_ok (drain_step (br_drain b) b)"
proof (cases "drain_token (br_drain b) = 1")
  case True
  note token = drain_token_armed [OF ok True]
  have bell: "bell_ok (br_bell b)" "br_wakes b \<le> 1" using ok by (simp_all add: bridge_ok_def)
  show ?thesis
  proof (cases "br_drain b = At_disarm")
    case True
    with token have "tokens (drain_step (br_drain b) b) = 0" by (simp add: tokens_def bell_token_def)
    with True bell show ?thesis by (simp add: bridge_ok_def)
  next
    case False
    with \<open>drain_token (br_drain b) = 1\<close> token bell show ?thesis
      by (intro armed_ok; cases "(br_drain b, b)" rule: drain_step.cases)
        (auto simp: tokens_def bell_token_def quiet_step_def split: doorbell.splits)
  qed
next
  case False
  show ?thesis
  proof (cases "br_drain b")
    case At_recheck
    with ok show ?thesis by (auto simp: bridge_ok_def tokens_def bell_token_def swapping_def)
  next
    case At_rearm
    show ?thesis
    proof (cases "br_armed b")
      case True
      with At_rearm ok show ?thesis by (auto simp: bridge_ok_def tokens_def bell_token_def)
    next
      case unarmed: False
      with At_rearm ok have "tokens (drain_step (br_drain b) b) = 1" by (simp add: bridge_ok_def tokens_def bell_token_def)
      with unarmed At_rearm ok show ?thesis by (intro armed_ok) (auto simp: bridge_ok_def)
    qed
  qed (use False ok in auto)
qed

lemma wake_ok:
  assumes ok: "bridge_ok b" and "br_drain b = Idle" and "0 < br_wakes b"
  shows "bridge_ok (wake b)"
proof -
  have "1 \<le> tokens b" using assms(2,3) by (simp add: tokens_def bell_token_def)
  with ok have armed: "br_armed b" and one: "tokens b = 1" by (cases "br_armed b"; auto simp: bridge_ok_def)+
  have bell: "bell_ok (br_bell b)" "br_wakes b \<le> 1" using ok by (simp_all add: bridge_ok_def)
  from bell assms(3) have w: "br_wakes b = 1" by simp
  with one assms(2) have calls: "sum_list (map call_token (br_calls b)) = 0" by (simp add: tokens_def bell_token_def)
  have "tokens (wake b) = 1"
    using w calls by (cases "br_bell b") (simp_all add: wake_def tokens_def bell_token_def del: sum_list_eq_0_iff)
  with armed bell show ?thesis by (intro armed_ok) (auto simp: wake_def split: doorbell.splits)
qed


section \<open>In order, and none lost\<close>

fun batch :: "'c draining \<Rightarrow> 'c list" where
  "batch (At_deliver cs) = cs"
| "batch _ = []"

definition in_order :: "'c bridge \<Rightarrow> bool" where
  "in_order b \<longleftrightarrow> mset (br_pushed b) = mset (br_delivered b @ batch (br_drain b) @ br_queue b @ br_dropped b) \<and>
     (br_open b \<longrightarrow> br_dropped b = [] \<and> br_pushed b = br_delivered b @ batch (br_drain b) @ br_queue b)"

definition stale_closed :: "'c bridge \<Rightarrow> bool" where
  "stale_closed b \<longleftrightarrow> (br_open b \<longrightarrow> At_take_stale \<notin> set (br_calls b) \<and> At_disarm_stale \<notin> set (br_calls b))"

definition bridge_inv :: "'c bridge \<Rightarrow> bool" where
  "bridge_inv b \<longleftrightarrow> bridge_ok b \<and> in_order b \<and> stale_closed b"

lemma stale_closedD: "stale_closed b \<Longrightarrow> n < length (br_calls b) \<Longrightarrow>
    br_calls b ! n \<in> {At_take_stale, At_disarm_stale} \<Longrightarrow> \<not> br_open b"
  unfolding stale_closed_def by (metis insertE nth_mem singletonD)

lemma complete_step_in_order:
  assumes "in_order b" and "complete_step pc b = (pc', b')" and "pc = At_take_stale \<Longrightarrow> \<not> br_open b"
  shows "in_order b'"
proof (cases pc)
  case At_ring
  with assms show ?thesis
    by (auto simp: in_order_def ring_pipe_def ring_call_soon_def split: doorbell.splits if_splits)
qed (use assms in \<open>auto simp: in_order_def split: if_splits\<close>)

lemma complete_step_stale:
  assumes "complete_step pc b = (pc', b')" and "br_open b" and "pc \<noteq> At_take_stale" and "pc \<noteq> At_disarm_stale"
  shows "pc' \<noteq> At_take_stale \<and> pc' \<noteq> At_disarm_stale"
  using assms by (cases pc) (auto simp: ring_pipe_def ring_call_soon_def split: doorbell.splits if_splits)

lemma drain_step_in_order: "in_order b \<Longrightarrow> in_order (drain_step (br_drain b) b)"
  by (cases "(br_drain b, b)" rule: drain_step.cases)
    (auto simp: in_order_def quiet_step_def split: doorbell.splits if_splits)

lemma bridge_ok_start: "bridge_ok b \<Longrightarrow> bridge_ok (b\<lparr>br_calls := br_calls b @ [At_push c]\<rparr>)"
  by (auto simp: bridge_ok_def tokens_def bell_token_def swapping_def)

lemma bridge_ok_down: "bridge_ok b \<Longrightarrow> bridge_ok (b\<lparr>br_alive := False\<rparr>) \<and> bridge_ok (b\<lparr>br_open := False\<rparr>)"
  by (auto simp: bridge_ok_def tokens_def bell_token_def swapping_def)

lemma bridge_inv_run:
  assumes inv: "bridge_inv b" and n: "n < length (br_calls b)" and step: "complete_step (br_calls b ! n) b = (pc, b')"
  shows "bridge_inv (b'\<lparr>br_calls := (br_calls b')[n := pc]\<rparr>)"
proof -
  from inv have ok: "bridge_ok b" and order: "in_order b" and stale: "stale_closed b" by (simp_all add: bridge_inv_def)
  note closed = stale_closedD [OF stale n]
  from complete_step_in_order [OF order step] closed have "in_order b'" by simp
  then have "in_order (b'\<lparr>br_calls := (br_calls b')[n := pc]\<rparr>)" by (simp add: in_order_def)
  moreover have "stale_closed (b'\<lparr>br_calls := (br_calls b')[n := pc]\<rparr>)"
  proof (cases "br_open b")
    case True
    with closed have "br_calls b ! n \<noteq> At_take_stale" "br_calls b ! n \<noteq> At_disarm_stale" by auto
    from complete_step_stale [OF step True this] stale True complete_step_frame [OF step]
      set_update_subset_insert [of "br_calls b" n pc] show ?thesis
      by (auto simp: stale_closed_def)
  next
    case False
    with complete_step_frame [OF step] show ?thesis by (simp add: stale_closed_def)
  qed
  ultimately show ?thesis using complete_step_ok [OF ok n step closed] by (simp add: bridge_inv_def)
qed

lemma bridge_inv_drain: "bridge_inv b \<Longrightarrow> bridge_inv (drain_step (br_drain b) b)"
  using drain_step_ok [of b] drain_step_in_order [of b] drain_step_frame [of "br_drain b" b]
  by (simp add: bridge_inv_def stale_closed_def)

lemma bridge_inv_wake: "bridge_inv b \<Longrightarrow> br_drain b = Idle \<Longrightarrow> 0 < br_wakes b \<Longrightarrow> bridge_inv (wake b)"
  using wake_ok [of b] by (auto simp: bridge_inv_def in_order_def stale_closed_def wake_def)

lemma bridge_inv_step: "bridge_step b b' \<Longrightarrow> bridge_inv b \<Longrightarrow> bridge_inv b'"
proof (induction rule: bridge_step.induct)
  case (start b c)
  then show ?case using bridge_ok_start [of b c]
    by (auto simp: bridge_inv_def in_order_def stale_closed_def)
next
  case (run n b pc b')
  then show ?case by (simp add: bridge_inv_run)
next
  case (awake b)
  then show ?case by (simp add: bridge_inv_wake)
next
  case (drain b)
  then show ?case by (simp add: bridge_inv_drain)
next
  case (shuts_down b)
  then show ?case using bridge_ok_down [of b] by (auto simp: bridge_inv_def in_order_def stale_closed_def)
next
  case (close_loop b)
  then show ?case using bridge_ok_down [of b] by (auto simp: bridge_inv_def in_order_def stale_closed_def)
qed

lemma bridge_reach_inv: "bridge_reach bell b \<Longrightarrow> bell_ok bell \<Longrightarrow> bridge_inv b"
proof (induction rule: bridge_reach.induct)
  case new
  then show ?case
    by (simp add: bridge_inv_def bridge_ok_def in_order_def stale_closed_def new_bridge_def tokens_def bell_token_def)
qed (rule bridge_inv_step)

end
