(* ===== verification/Frontend.thy ===== *)
theory Frontend
  imports Settle Bridge
begin

text \<open>
  The module \<open>turbofile._turbofile\<close> around its completion queues
  (\<open>crates/turbofile-py/src/lib.rs\<close>): the functions it exports, the driver kept per process,
  the bridge kept per event loop, and the submission of an op with its future.
\<close>

section \<open>The exported functions\<close>

datatype entry =
    E_open path bool bool bool bool bool bool
  | E_read nat u64 nat addr
  | E_read_to_end nat u64
  | E_readinto nat u64 py_buffer
  | E_write nat u64 py_buffer bool
  | E_close nat
  | E_sync nat bool
  | E_set_len nat u64
  | E_size nat
  | E_read_file path u64 "nat option"
  | E_write_file path py_buffer
  | E_probe_nop

fun request_of :: "entry \<Rightarrow> py_error + submission" where
  "request_of (E_open path r w app trunc creat creat_new) = py_open path r w app trunc creat creat_new"
| "request_of (E_read handle pos len base) = py_read handle pos len base"
| "request_of (E_read_to_end handle pos) = py_read_to_end handle pos"
| "request_of (E_readinto handle pos b) = py_readinto handle pos b"
| "request_of (E_write handle pos b app) = py_write handle pos b app"
| "request_of (E_close handle) = py_close handle"
| "request_of (E_sync handle data_only) = py_sync handle data_only"
| "request_of (E_set_len handle sz) = py_set_len handle sz"
| "request_of (E_size handle) = py_size handle"
| "request_of (E_read_file path inline_max hook) = py_read_file path inline_max hook"
| "request_of (E_write_file path b) = py_write_file path b"
| "request_of E_probe_nop = probe_nop"

section \<open>The process and its descriptors\<close>

datatype fd_event = Fd_made fd | Fd_closed fd

datatype fcntl_request = Set_cloexec | Set_nonblock

record 'k posix =
  px_pipe :: "'k \<Rightarrow> (errno + fd \<times> fd) \<times> 'k"
  px_fcntl :: "fd \<Rightarrow> fcntl_request \<Rightarrow> 'k \<Rightarrow> (errno + unit) \<times> 'k"
  px_close :: "fd \<Rightarrow> 'k \<Rightarrow> 'k"
  px_start :: "backend_kind \<Rightarrow> 'k \<Rightarrow> (io_error + driver \<times> msg channel) \<times> 'k"

datatype bell_fds = Bell_pipe fd fd | Bell_call_soon

record 'k front =
  fr_world :: 'k
  fr_fds :: "fd_event list"
  fr_driver :: "(nat \<times> driver \<times> msg channel) option"
  fr_bridges :: "nat \<Rightarrow> bell_fds option"

definition close_fd :: "'k posix \<Rightarrow> fd \<Rightarrow> 'k front \<Rightarrow> 'k front" where
  "close_fd K f s = s\<lparr>fr_world := px_close K f (fr_world s), fr_fds := fr_fds s @ [Fd_closed f]\<rparr>"

text \<open>\<open>Drop for Doorbell\<close>\<close>

fun drop_bell :: "'k posix \<Rightarrow> bell_fds \<Rightarrow> 'k front \<Rightarrow> 'k front" where
  "drop_bell K (Bell_pipe r w) s = close_fd K w (close_fd K r s)"
| "drop_bell K Bell_call_soon s = s"

text \<open>The two flags of one descriptor, the second only if the first was set.\<close>

definition flag_fd :: "'k posix \<Rightarrow> fd \<Rightarrow> 'k front \<Rightarrow> (errno + unit) \<times> 'k front" where
  "flag_fd K f s = (case px_fcntl K f Set_cloexec (fr_world s) of
       (Inl e, w) \<Rightarrow> (Inl e, s\<lparr>fr_world := w\<rparr>)
     | (Inr _, w) \<Rightarrow>
         (case px_fcntl K f Set_nonblock w of
            (Inl e, w) \<Rightarrow> (Inl e, s\<lparr>fr_world := w\<rparr>)
          | (Inr _, w) \<Rightarrow> (Inr (), s\<lparr>fr_world := w\<rparr>)))"

fun flag_fds :: "'k posix \<Rightarrow> fd \<times> fd \<Rightarrow> fd list \<Rightarrow> 'k front \<Rightarrow> (io_error + fd \<times> fd) \<times> 'k front" where
  "flag_fds K fds [] s = (Inr fds, s)"
| "flag_fds K fds (f # fs) s = (case flag_fd K f s of
     (Inr _, s) \<Rightarrow> flag_fds K fds fs s
   | (Inl e, s) \<Rightarrow> (Inl (Os e), close_fd K (snd fds) (close_fd K (fst fds) s)))"

definition nonblocking_pipe :: "'k posix \<Rightarrow> 'k front \<Rightarrow> (io_error + fd \<times> fd) \<times> 'k front" where
  "nonblocking_pipe K s = (case px_pipe K (fr_world s) of
       (Inl e, w) \<Rightarrow> (Inl (Os e), s\<lparr>fr_world := w\<rparr>)
     | (Inr (r, w), world) \<Rightarrow>
         flag_fds K (r, w) [r, w] (s\<lparr>fr_world := world, fr_fds := fr_fds s @ [Fd_made r, Fd_made w]\<rparr>))"

text \<open>
  \<open>add_reader\<close> belongs to the loop: whether it accepts the descriptor is a parameter.  A
  pipe the loop refuses is closed as the \<open>Doorbell\<close> goes out of scope.
\<close>

definition pipe_doorbell :: "'k posix \<Rightarrow> (fd \<Rightarrow> bool) \<Rightarrow> 'k front \<Rightarrow> bell_fds option \<times> 'k front" where
  "pipe_doorbell K add_reader s = (case nonblocking_pipe K s of
       (Inl e, s) \<Rightarrow> (None, s)
     | (Inr (r, w), s) \<Rightarrow>
         (if add_reader r then (Some (Bell_pipe r w), s) else (None, drop_bell K (Bell_pipe r w) s)))"

section \<open>The driver of this process\<close>

definition select_backend :: "platform \<Rightarrow> string option \<Rightarrow> py_error + backend_kind" where
  "select_backend p var = (case var of
       None \<Rightarrow> Inr (default_for_platform p)
     | Some name \<Rightarrow>
         (if name = ''compio'' then Inr Compio
          else if p = Macos \<and> (name = ''aio'' \<or> name = ''darwin-aio'') then Inr DarwinAio
          else Inl (Py_ValueError (''unknown TURBOFILE_BACKEND: '' @ name))))"

definition new_driver :: "'k posix \<Rightarrow> py_error + backend_kind \<Rightarrow> nat \<Rightarrow> 'k front \<Rightarrow> (py_error + driver \<times> msg channel) \<times> 'k front" where
  "new_driver K kind pid s = (case kind of
       Inl e \<Rightarrow> (Inl e, s)
     | Inr k \<Rightarrow>
         (case px_start K k (fr_world s) of
            (Inl e, w) \<Rightarrow> (Inl (io_err_to_pyerr e), s\<lparr>fr_world := w\<rparr>)
          | (Inr d, w) \<Rightarrow> (Inr d, s\<lparr>fr_world := w, fr_driver := Some (pid, d)\<rparr>)))"

definition driver_for ::
  "'k posix \<Rightarrow> py_error + backend_kind \<Rightarrow> nat \<Rightarrow> 'k front \<Rightarrow> (py_error + driver \<times> msg channel) \<times> 'k front" where
  "driver_for K kind pid s = (case fr_driver s of
       Some (stored, d) \<Rightarrow>
         (if stored = pid then (Inr d, s) else new_driver K kind pid (s\<lparr>fr_bridges := Map.empty\<rparr>))
     | None \<Rightarrow> new_driver K kind pid s)"

section \<open>The bridge of the running loop\<close>

text \<open>
  The loop's own methods are parameters: \<open>is_closed\<close>, which may raise (\<^const>\<open>None\<close>), and
  \<open>add_reader\<close>.  Bridges of loops found closed are dropped when a new one is made.
\<close>

definition keep_open :: "(nat \<Rightarrow> bool option) \<Rightarrow> (nat \<Rightarrow> bell_fds option) \<Rightarrow> nat \<Rightarrow> bell_fds option" where
  "keep_open is_closed m = (\<lambda>k. if is_closed k = Some False then m k else None)"

definition bridge_for ::
  "'k posix \<Rightarrow> (nat \<Rightarrow> bool option) \<Rightarrow> (fd \<Rightarrow> bool) \<Rightarrow> nat \<Rightarrow> 'k front \<Rightarrow> bell_fds \<times> 'k front" where
  "bridge_for K is_closed add_reader key s = (case fr_bridges s key of
       Some b \<Rightarrow> (b, s)
     | None \<Rightarrow>
         (let s1 = s\<lparr>fr_bridges := keep_open is_closed (fr_bridges s)\<rparr>
          in case pipe_doorbell K add_reader s1 of
               (bell, s2) \<Rightarrow>
                 (let b = (case bell of Some b \<Rightarrow> b | None \<Rightarrow> Bell_call_soon)
                  in (b, s2\<lparr>fr_bridges := (fr_bridges s2)(key \<mapsto> b)\<rparr>))))"

section \<open>Submission\<close>

text \<open>
  \<open>submit\<close>: the ids of the ops the future may cancel and the callbacks \<open>Driver::submit\<close>
  invoked itself.  The callback, number \<open>c\<close>, completes the future on the loop's bridge.
\<close>

record pending_call =
  pc_fut :: nat
  pc_loop :: nat
  pc_output :: out_kind
  pc_owner :: "owner option"

definition callback_of :: "pending_call \<Rightarrow> reply io \<Rightarrow> completion" where
  "callback_of p r = \<lparr>cm_fut = pc_fut p, cm_result = r, cm_output = pc_output p, cm_owner = pc_owner p\<rparr>"

definition submit_op ::
  "'k posix \<Rightarrow> py_error + backend_kind \<Rightarrow> nat \<Rightarrow> (nat \<Rightarrow> bool option) \<Rightarrow> (fd \<Rightarrow> bool) \<Rightarrow> nat \<Rightarrow> nat \<Rightarrow> cb
     \<Rightarrow> submission \<Rightarrow> 'k front \<Rightarrow> (py_error + nat list \<times> pending_call \<times> (cb \<times> reply io) list) \<times> 'k front" where
  "submit_op K kind pid is_closed add_reader key fut c sb s = (case driver_for K kind pid s of
       (Inl e, s) \<Rightarrow> (Inl e, s)
     | (Inr (d, tx), s) \<Rightarrow>
         (case bridge_for K is_closed add_reader key s of
            (b, s) \<Rightarrow>
              (case submit (sb_op sb) c d tx of
                 (i, d', tx', called) \<Rightarrow>
                   (Inr ([i], \<lparr>pc_fut = fut, pc_loop = key, pc_output = sb_output sb, pc_owner = sb_owner sb\<rparr>, called),
                    s\<lparr>fr_driver := Some (pid, d', tx')\<rparr>))))"

definition cancel_ops :: "'k posix \<Rightarrow> py_error + backend_kind \<Rightarrow> nat \<Rightarrow> nat list \<Rightarrow> 'k front \<Rightarrow> (py_error + unit) \<times> 'k front" where
  "cancel_ops K kind pid ops s = (case driver_for K kind pid s of
       (Inl e, s) \<Rightarrow> (Inl e, s)
     | (Inr (d, tx), s) \<Rightarrow> (Inr (), s\<lparr>fr_driver := Some (pid, d, fold cancel ops tx)\<rparr>))"

definition backend_name :: "'k posix \<Rightarrow> py_error + backend_kind \<Rightarrow> nat \<Rightarrow> 'k front \<Rightarrow> (py_error + string) \<times> 'k front" where
  "backend_name K kind pid s = (case driver_for K kind pid s of
       (Inl e, s) \<Rightarrow> (Inl e, s)
     | (Inr (d, tx), s) \<Rightarrow> (Inr (backend_label d), s))"

end
