(* ===== verification/Aio_Read.thy ===== *)
theory Aio_Read
  imports Aio_Play
begin

text \<open>
  What a read returns.  The kernel hands out prefixes of what is left of a regular file,
  as short as it likes but empty only at the end; chunk by chunk the job then gathers
  exactly the bytes it was asked for, in its own vector or in the caller's memory, and
  the fallback loop ends with them.
\<close>

section \<open>A regular file being read\<close>

text \<open>
  What POSIX promises of \<open>pread\<close> and \<open>fstat\<close> on a regular file that nobody changes:
  while \<open>P\<close> holds of the kernel's state, the descriptor \<open>f\<close> reads from \<open>data\<close>.  A position
  of 2^63 or more is negative as an \<open>off_t\<close> and refused; of such reads nothing is said.
\<close>

definition rest_of :: "byte list \<Rightarrow> u64 \<Rightarrow> byte list" where
  "rest_of data pos = drop (unat pos) data"

definition chunk_ok :: "byte list \<Rightarrow> u64 \<Rightarrow> nat \<Rightarrow> nat \<Rightarrow> byte list \<Rightarrow> bool" where
  "chunk_ok data pos n m bs \<longleftrightarrow> m \<le> n \<and> m \<le> length (rest_of data pos) \<and> bs = take m (rest_of data pos) \<and>
     (m = 0 \<longrightarrow> n = 0 \<or> rest_of data pos = [])"

definition serves :: "'k kernel \<Rightarrow> fd \<Rightarrow> byte list \<Rightarrow> ('k \<Rightarrow> bool) \<Rightarrow> bool" where
  "serves K f data P \<longleftrightarrow> 0 \<le> f \<and> length data < 2 ^ 63 \<and>
     (\<forall>w. P w \<longrightarrow> (\<exists>st w'. sys_fstat K f w = (Inr st, w') \<and> P w' \<and>
        st_mode st AND S_IFMT = S_IFREG \<and> st_size st = of_nat (length data))) \<and>
     (\<forall>w n pos. P w \<and> unat pos < 2 ^ 63 \<longrightarrow> (\<exists>m bs w'. sys_pread K f n pos w = (Inr (m, bs), w') \<and> P w' \<and>
        chunk_ok data pos n m bs))"

lemma serves_pread:
  assumes "serves K f data P" and "P (world s)" and "unat pos < 2 ^ 63"
  obtains m bs w where "syscall (sys_pread K f n pos) s = (Inr (m, bs), s\<lparr>world := w\<rparr>)"
    and "P w" and "chunk_ok data pos n m bs"
proof -
  from assms obtain m bs w where "sys_pread K f n pos (world s) = (Inr (m, bs), w)" "P w" "chunk_ok data pos n m bs"
    unfolding serves_def by blast
  then show ?thesis by (intro that [of m bs w]) (simp_all add: syscall_def)
qed

lemma unat_of_length: "length data < 2 ^ 63 \<Longrightarrow> unat (of_nat (length data) :: u64) = length data"
  by (simp add: word_simps)

lemma sint_of_length: "length data < 2 ^ 63 \<Longrightarrow> sint (of_nat (length data) :: u64) = int (length data)"
  by (simp add: signed_of_nat signed_take_bit_int_eq_self)

lemma serves_size:
  assumes "serves K f data P" and "P (world s)"
  shows "\<exists>w. regular_size K f s = (Some (of_nat (length data)), s\<lparr>world := w\<rparr>) \<and> P w"
proof -
  from assms obtain st w where st: "sys_fstat K f (world s) = (Inr st, w)" "P w"
    "st_mode st AND S_IFMT = S_IFREG" "st_size st = of_nat (length data)" and "0 \<le> f" "length data < 2 ^ 63"
    unfolding serves_def by blast
  then have "0 \<le> sint (st_size st)" by (simp add: sint_of_length)
  with st \<open>0 \<le> f\<close> have "regular_file_size K f (world s) = (Some (of_nat (length data)), w)"
    by (simp add: regular_file_size_def)
  with \<open>P w\<close> show ?thesis by (auto simp: regular_size_def)
qed

lemma unat_pos_add: "unat (pos :: u64) + k < 2 ^ 64 \<Longrightarrow> unat (pos + of_nat k) = unat pos + k"
  by (simp add: unat_word_ariths word_simps)

section \<open>A job half way\<close>

fun cut :: "want \<Rightarrow> byte list \<Rightarrow> byte list" where
  "cut (Want_Exact len) bs = take len bs"
| "cut Want_ToEnd bs = bs"

definition wanted :: "byte list \<Rightarrow> read_job \<Rightarrow> byte list" where
  "wanted data r = cut (r_want r) (rest_of data (r_pos r))"

fun room :: "read_buf \<Rightarrow> nat" where
  "room (Buf_Owned vec cap) = cap"
| "room (Buf_External p len) = len"

fun fits :: "want \<Rightarrow> byte list \<Rightarrow> nat \<Rightarrow> bool" where
  "fits (Want_Exact len) bs n \<longleftrightarrow> n = len"
| "fits Want_ToEnd bs n \<longleftrightarrow> length bs \<le> n \<and> 0 < n"

definition sized :: "byte list \<Rightarrow> read_job \<Rightarrow> bool" where
  "sized data r \<longleftrightarrow> fits (r_want r) (rest_of data (r_pos r)) (room (r_buf r))"

text \<open>The first \<open>r_filled\<close> bytes are in place.\<close>

definition in_place :: "byte list \<Rightarrow> mem \<Rightarrow> read_job \<Rightarrow> bool" where
  "in_place data m r \<longleftrightarrow> (case r_buf r of
       Buf_Owned vec cap \<Rightarrow> take (r_filled r) vec = take (r_filled r) (wanted data r)
     | Buf_External p len \<Rightarrow> (\<forall>i < r_filled r. m (p + i) = wanted data r ! i))"

definition reading :: "byte list \<Rightarrow> mem \<Rightarrow> read_job \<Rightarrow> bool" where
  "reading data m r \<longleftrightarrow> unat (r_pos r) < 2 ^ 63 \<and> r_filled r \<le> length (wanted data r) \<and> sized data r \<and> in_place data m r"

fun answer :: "byte list \<Rightarrow> read_job \<Rightarrow> reply" where
  "answer data r = (case r_buf r of
       Buf_Owned vec cap \<Rightarrow> Reply_Bytes (wanted data r)
     | Buf_External p len \<Rightarrow> Reply_Read (length (wanted data r)))"

text \<open>What a delivered chunk does to the bytes in place.\<close>

lemma wanted_take: "r_filled r + n \<le> length (wanted data r) \<Longrightarrow>
    take n (drop (r_filled r) (wanted data r)) = take n (drop (r_filled r) (rest_of data (r_pos r)))"
  by (cases "r_want r") (auto simp: wanted_def drop_take min_absorb1)

lemma store_same: "store p bs m a = (if p \<le> a \<and> a < p + length bs then bs ! (a - p) else m a)"
  by (simp add: store_def)

lemma in_place_deliver:
  assumes "in_place data (memory s) r" and "deliver_read r bs s = (r1, s1)"
    and "bs = take n (drop (r_filled r) (wanted data r))" and "r_filled r + n \<le> length (wanted data r)"
  shows "in_place data (memory s1) (r1\<lparr>r_filled := r_filled r1 + n\<rparr>)"
proof (cases "r_buf r")
  case (Buf_Owned vec cap)
  have "take (r_filled r + n) (take (r_filled r) vec @ bs) = take (r_filled r + n) (wanted data r)"
    using assms(1,3,4) Buf_Owned by (simp add: in_place_def take_add)
  moreover have "wanted data (r\<lparr>r_buf := b, r_filled := k\<rparr>) = wanted data r" for b k by (simp add: wanted_def)
  ultimately show ?thesis using assms(2) Buf_Owned by (auto simp: deliver_read_def in_place_def)
next
  case (Buf_External p len)
  have len: "length bs = n" using assms(3,4) by simp
  have "store (p + r_filled r) bs (memory s) (p + i) = wanted data r ! i" if "i < r_filled r + n" for i
    using that assms(1,3,4) Buf_External len by (auto simp: store_same in_place_def)
  moreover have "wanted data (r\<lparr>r_filled := k\<rparr>) = wanted data r" for k by (simp add: wanted_def)
  ultimately show ?thesis using assms(2) Buf_External by (auto simp: deliver_read_def in_place_def)
qed

lemma deliver_read_frame:
  assumes "deliver_read r bs s = (r1, s1)"
  shows "r_pos r1 = r_pos r \<and> r_want r1 = r_want r \<and> r_fd r1 = r_fd r \<and> r_filled r1 = r_filled r \<and>
    room (r_buf r1) = room (r_buf r) \<and> world s1 = world s \<and> answer data r1 = answer data r"
  using assms by (auto simp: deliver_read_def wanted_def split: read_buf.splits)

lemma wanted_cong: "r_pos r' = r_pos r \<Longrightarrow> r_want r' = r_want r \<Longrightarrow> wanted data r' = wanted data r"
  by (simp add: wanted_def)

lemma sized_cong: "r_pos r' = r_pos r \<Longrightarrow> r_want r' = r_want r \<Longrightarrow> room (r_buf r') = room (r_buf r) \<Longrightarrow>
    sized data r' = sized data r"
  by (simp add: sized_def)

lemma read_reply_answer:
  "in_place data m r \<Longrightarrow> r_filled r = length (wanted data r) \<Longrightarrow> read_reply r = answer data r"
  by (auto simp: in_place_def split: read_buf.split)

text \<open>A partly filled buffer never has to grow.\<close>

lemma grow_room: "r_filled r < room (r_buf r) \<Longrightarrow> grow r = r"
  by (cases "r_buf r") (auto simp: grow_def)

lemma complete_iff:
  assumes "serves K (r_fd r) data P" and "P (world s)" and "r_filled r \<le> length (wanted data r)"
    and "0 < r_filled r"
  shows "\<exists>w. complete K r s = (case r_want r of Want_Exact len \<Rightarrow> len \<le> r_filled r
      | Want_ToEnd \<Rightarrow> r_filled r = length (wanted data r), s\<lparr>world := w\<rparr>) \<and> P w"
proof (cases "r_want r")
  case (Want_Exact len)
  have "s\<lparr>world := world s\<rparr> = s" by simp
  with Want_Exact assms(2) show ?thesis by (auto simp: complete_def intro!: exI [of _ "world s"])
next
  case Want_ToEnd
  obtain w where w: "regular_size K (r_fd r) s = (Some (of_nat (length data)), s\<lparr>world := w\<rparr>)" "P w"
    using serves_size [OF assms(1,2)] by blast
  from assms(1) have small: "length data < 2 ^ 63" by (simp add: serves_def)
  have "unat (r_pos r) + r_filled r \<le> length data"
    using assms(3,4) Want_ToEnd by (auto simp: wanted_def rest_of_def)
  with small have "unat (r_pos r + of_nat (r_filled r)) = unat (r_pos r) + r_filled r"
    by (intro unat_pos_add) simp
  then have "of_nat (length data) \<le> r_pos r + of_nat (r_filled r) \<longleftrightarrow> length data \<le> unat (r_pos r) + r_filled r"
    by (simp add: word_le_nat_alt unat_of_length [OF small])
  moreover have "length data \<le> unat (r_pos r) + r_filled r \<longleftrightarrow> r_filled r = length (wanted data r)"
    using assms(3,4) Want_ToEnd by (auto simp: wanted_def rest_of_def)
  ultimately show ?thesis using w Want_ToEnd by (auto simp: complete_def)
qed

section \<open>One chunk\<close>

lemma rest_of_later:
  assumes "length data < 2 ^ 63" and "k \<le> length (rest_of data pos)"
  shows "rest_of data (pos + of_nat k) = drop k (rest_of data pos)"
proof (cases "k = 0")
  case False
  with assms have "unat pos + k \<le> length data" by (auto simp: rest_of_def)
  with assms(1) have "unat (pos + of_nat k) = unat pos + k" by (intro unat_pos_add) simp
  then show ?thesis by (simp add: rest_of_def add.commute)
qed simp

lemma wanted_length: "length (wanted data r) \<le> length (rest_of data (r_pos r))"
  by (cases "r_want r") (auto simp: wanted_def)

text \<open>
  A chunk of what the job still lacks: the job is done with the right answer, or it has
  more in place than before.
\<close>

lemma read_chunk:
  assumes K: "serves K (r_fd r) data P" and w: "P (world s)" and job: "reading data (memory s) r"
    and chunk: "chunk_ok data (r_pos r + of_nat (r_filled r)) (room (r_buf r) - r_filled r) n bs"
    and deliver: "deliver_read r bs s = (r1, s1)" and step: "step_read K r1 n s1 = (res, r2, s2)"
  shows "P (world s2) \<and> memory s2 = memory s1 \<and>
    (res = Step_Done (Inr (answer data r)) \<and> r_filled r2 = length (wanted data r) \<and> in_place data (memory s2) r2 \<or>
     res = Step_More \<and> reading data (memory s2) r2 \<and> r_filled r < r_filled r2) \<and>
    r_pos r2 = r_pos r \<and> r_want r2 = r_want r \<and> r_fd r2 = r_fd r \<and> r_buf r2 = r_buf r1 \<and> answer data r2 = answer data r"
proof -
  from K have small: "length data < 2 ^ 63" by (simp add: serves_def)
  from job have fill: "r_filled r \<le> length (wanted data r)" and size: "sized data r"
    and place: "in_place data (memory s) r" and pos: "unat (r_pos r) < 2 ^ 63" by (simp_all add: reading_def)
  have rest: "rest_of data (r_pos r + of_nat (r_filled r)) = drop (r_filled r) (rest_of data (r_pos r))"
    by (rule rest_of_later [OF small]) (use fill wanted_length [of data r] in simp)
  let ?r = "r1\<lparr>r_filled := r_filled r + n\<rparr>"
  note frame = deliver_read_frame [OF deliver, where data = data]
  note [simp del] = read_reply.simps answer.simps
  from chunk rest size fill have le: "r_filled r + n \<le> length (wanted data r)"
    by (cases "r_want r") (auto simp: chunk_ok_def sized_def wanted_def)
  from chunk rest wanted_take [OF le] have "bs = take n (drop (r_filled r) (wanted data r))"
    by (simp add: chunk_ok_def)
  from in_place_deliver [OF place deliver this le] frame
  have now: "in_place data (memory s1) ?r" by simp
  have "answer data ?r = answer data r1" by (cases "r_buf r1") (simp_all add: answer.simps wanted_def)
  then have same: "wanted data ?r = wanted data r" "sized data ?r" "answer data ?r = answer data r"
    using frame size sized_cong [of ?r r data] wanted_cong [of ?r r data] by simp_all
  show ?thesis
  proof (cases "n = 0")
    case True
    with chunk rest size fill have all: "r_filled r = length (wanted data r)"
      by (cases "r_want r") (auto simp: chunk_ok_def sized_def wanted_def)
    from step True frame have "res = Step_Done (Inr (read_reply ?r))" "r2 = ?r" "s2 = s1"
      by (auto simp: step_read_def Let_def)
    with True all now same frame w show ?thesis by (simp add: read_reply_answer)
  next
    case False
    obtain w' where comp: "complete K ?r s1 = (case r_want ?r of Want_Exact len \<Rightarrow> len \<le> r_filled ?r
        | Want_ToEnd \<Rightarrow> r_filled ?r = length (wanted data ?r), s1\<lparr>world := w'\<rparr>)" and w': "P w'"
      using complete_iff [of K ?r data P s1] K w frame le same False by auto
    show ?thesis
    proof (cases "fst (complete K ?r s1)")
      case True
      with comp le same size frame have all: "r_filled ?r = length (wanted data r)"
        by (cases "r_want r") (auto simp: wanted_def sized_def)
      from step False True comp frame have "res = Step_Done (Inr (read_reply ?r))" "r2 = ?r" "s2 = s1\<lparr>world := w'\<rparr>"
        by (auto simp: step_read_def Let_def)
      with all now same frame w' show ?thesis
        by (simp add: read_reply_answer)
    next
      case more: False
      with comp le same size frame have "r_filled ?r < room (r_buf ?r)"
        by (cases "r_want r") (auto simp: wanted_def sized_def)
      with step False more comp frame have "res = Step_More" "r2 = ?r" "s2 = s1\<lparr>world := w'\<rparr>"
        by (auto simp: step_read_def Let_def grow_room)
      with le now same frame w' False pos show ?thesis
        by (simp add: reading_def)
    qed
  qed
qed

text \<open>The next chunk's position is one the kernel reads at.\<close>

lemma reading_offset:
  assumes "length data < 2 ^ 63" and "reading data m r"
  shows "unat (r_pos r + of_nat (r_filled r)) < 2 ^ 63"
proof (cases "r_filled r = 0")
  case False
  from assms(2) wanted_length [of data r] have "r_filled r \<le> length (rest_of data (r_pos r))"
    by (auto simp: reading_def)
  with False assms(1) have less: "unat (r_pos r) + r_filled r < 2 ^ 63" by (auto simp: rest_of_def)
  then have "unat (r_pos r + of_nat (r_filled r)) = unat (r_pos r) + r_filled r" by (intro unat_pos_add) simp
  with less show ?thesis by simp
qed (use assms(2) in \<open>simp add: reading_def\<close>)

section \<open>The whole read\<close>

text \<open>The addresses a buffer leaves alone.\<close>

fun beyond :: "read_buf \<Rightarrow> addr \<Rightarrow> bool" where
  "beyond (Buf_Owned vec cap) a \<longleftrightarrow> True"
| "beyond (Buf_External p len) a \<longleftrightarrow> a < p \<or> p + len \<le> a"

lemma chunk_room: "snd (chunk b k) = room b - k"
  by (cases b) simp_all

lemma deliver_beyond:
  assumes "deliver_read r bs s = (r1, s1)" and "length bs \<le> room (r_buf r) - r_filled r"
  shows "(\<forall>a. beyond (r_buf r) a \<longrightarrow> memory s1 a = memory s a) \<and> (\<forall>a. beyond (r_buf r1) a = beyond (r_buf r) a) \<and>
    (\<forall>p len. r_buf r = Buf_External p len \<longrightarrow> r_buf r1 = r_buf r)"
  using assms by (auto simp: deliver_read_def store_same split: read_buf.splits)

definition gathers :: "byte list \<Rightarrow> read_job \<Rightarrow> 'k os \<Rightarrow> job \<Rightarrow> 'k os \<Rightarrow> bool" where
  "gathers data r s j' s' \<longleftrightarrow>
     (\<exists>r'. j_kind j' = Job_Read r' \<and> r_filled r' = length (wanted data r) \<and> in_place data (memory s') r' \<and>
        wanted data r' = wanted data r \<and> (\<forall>p len. r_buf r = Buf_External p len \<longrightarrow> r_buf r' = r_buf r)) \<and>
     (\<forall>a. beyond (r_buf r) a \<longrightarrow> memory s' a = memory s a)"

lemma sync_loop_read:
  assumes "j_kind j = Job_Read r"
    and "syscall (sys_pread K (r_fd r) (room (r_buf r) - r_filled r) (r_pos r + of_nat (r_filled r))) s = (Inr (m, bs), s1)"
    and "deliver_read r bs s1 = (r1, s2)" and "step_read K r1 m s2 = (res, r2, s3)"
  shows "sync_loop K j s = (case res of
      Step_Done x \<Rightarrow> Some (j\<lparr>j_kind := Job_Read r2\<rparr>, x, s3)
    | Step_More \<Rightarrow> sync_loop K (j\<lparr>j_kind := Job_Read r2\<rparr>) s3)"
  by (subst sync_loop.simps)
     (simp add: sync_chunk_def assms chunk_room deliver_bytes_def step_def split: step_result.split)

lemma sync_read:
  assumes K: "serves K f data P"
  shows "j_kind j = Job_Read r \<Longrightarrow> r_fd r = f \<Longrightarrow> reading data (memory s) r \<Longrightarrow> P (world s) \<Longrightarrow>
    \<exists>j' s'. sync_loop K j s = Some (j', Inr (answer data r), s') \<and> P (world s') \<and> gathers data r s j' s'"
proof (induction "length (wanted data r) - r_filled r" arbitrary: j r s rule: less_induct)
  case less
  note j = less.prems(1) and fd = less.prems(2) and job = less.prems(3) and w = less.prems(4)
  have small: "length data < 2 ^ 63" using K by (simp add: serves_def)
  let ?n = "room (r_buf r) - r_filled r" and ?pos = "r_pos r + of_nat (r_filled r)"
  obtain m bs v where read: "syscall (sys_pread K f ?n ?pos) s = (Inr (m, bs), s\<lparr>world := v\<rparr>)"
    and v: "P v" and chunk: "chunk_ok data ?pos ?n m bs"
    using serves_pread [OF K w reading_offset [OF small job]] .
  let ?s = "s\<lparr>world := v\<rparr>"
  obtain r1 s1 where del: "deliver_read r bs ?s = (r1, s1)" by (cases "deliver_read r bs ?s")
  obtain res r2 s2 where st: "step_read K r1 m s1 = (res, r2, s2)" by (cases "step_read K r1 m s1") auto
  have now: "sync_loop K j s = (case res of
      Step_Done x \<Rightarrow> Some (j\<lparr>j_kind := Job_Read r2\<rparr>, x, s2)
    | Step_More \<Rightarrow> sync_loop K (j\<lparr>j_kind := Job_Read r2\<rparr>) s2)"
    by (rule sync_loop_read [OF j _ del st]) (use read fd in simp)
  have "reading data (memory ?s) r" and Kr: "serves K (r_fd r) data P" and Pv: "P (world ?s)" using job K fd v by auto
  note facts = read_chunk [OF Kr Pv this(1) chunk del st]
  have "length bs \<le> ?n" using chunk by (auto simp: chunk_ok_def)
  from deliver_beyond [OF del this] have frame: "\<forall>a. beyond (r_buf r) a \<longrightarrow> memory s1 a = memory s a"
    and buf: "\<forall>a. beyond (r_buf r1) a = beyond (r_buf r) a"
    and ext: "\<forall>p len. r_buf r = Buf_External p len \<longrightarrow> r_buf r1 = r_buf r" by simp_all
  show ?case
  proof (cases res)
    case (Step_Done x)
    from facts have "wanted data r2 = wanted data r" by (intro wanted_cong) auto
    with Step_Done facts now frame ext show ?thesis by (auto simp: gathers_def simp del: answer.simps)
  next
    case Step_More
    with facts have r2: "reading data (memory s2) r2" "r_filled r < r_filled r2" "r_fd r2 = f" "P (world s2)"
      and wtd: "wanted data r2 = wanted data r" and ans: "answer data r2 = answer data r" and mem: "memory s2 = memory s1"
      using fd by (auto simp: wanted_def simp del: answer.simps)
    have "length (wanted data r2) - r_filled r2 < length (wanted data r) - r_filled r"
      using r2 wtd by (auto simp: reading_def)
    then obtain j' s' where rec: "sync_loop K (j\<lparr>j_kind := Job_Read r2\<rparr>) s2 = Some (j', Inr (answer data r2), s')"
      "P (world s')" "gathers data r2 s2 j' s'"
      using less.hyps [of r2 "j\<lparr>j_kind := Job_Read r2\<rparr>" s2] r2 by (auto simp del: answer.simps)
    from facts have "r_buf r2 = r_buf r1" by blast
    with rec(3) frame buf mem wtd ext have "gathers data r s j' s'" by (auto simp: gathers_def)
    with now Step_More rec(1,2) ans show ?thesis by (simp del: answer.simps)
  qed
qed

section \<open>The reads the driver makes\<close>

text \<open>A kernel on which a request is tried out: \<open>disk_kernel\<close> serves its content.\<close>

lemma disk_serves:
  assumes "0 < most" and "0 \<le> f" and "length data < 2 ^ 63"
  shows "serves (disk_kernel most) f data (\<lambda>w. content w = data)"
proof -
  have "chunk_ok data pos n (length (disk_read most n (unat pos) w)) (disk_read most n (unat pos) w)"
    if "content w = data" for pos n w
    using that assms(1) by (auto simp: chunk_ok_def disk_read_def rest_of_def min_def)
  with assms(2,3) show ?thesis
    by (auto simp: serves_def disk_kernel_def Let_def S_IFMT_def S_IFREG_def)
qed

text \<open>
  A sized read into a fresh vector returns exactly the bytes of the file from its
  position on, as many as were asked for or as there are, however the kernel splits the
  transfer; and it returns.
\<close>

lemma read_alloc_correct:
  assumes "serves K f data P" and "P (world s)" and "unat pos < 2 ^ 63"
  shows "\<exists>j' s'. sync_loop K \<lparr>j_id = i, j_cancelled = False, j_kind = Job_Read
             \<lparr>r_handle = h, r_fd = f, r_owned_fd = x, r_pos = pos, r_want = Want_Exact len,
              r_buf = Buf_Owned [] len, r_filled = 0\<rparr>, j_cb = c\<rparr> s =
           Some (j', Inr (Reply_Bytes (take len (drop (unat pos) data))), s') \<and> memory s' = memory s"
proof -
  let ?r = "\<lparr>r_handle = h, r_fd = f, r_owned_fd = x, r_pos = pos, r_want = Want_Exact len,
              r_buf = Buf_Owned [] len, r_filled = 0\<rparr>"
  have "reading data (memory s) ?r" using assms(3) by (simp add: reading_def sized_def in_place_def)
  from sync_read [OF assms(1) _ _ this assms(2), of "\<lparr>j_id = i, j_cancelled = False, j_kind = Job_Read ?r, j_cb = c\<rparr>"]
  show ?thesis by (auto simp: wanted_def rest_of_def gathers_def fun_eq_iff)
qed

text \<open>
  C28: A sized read into caller memory reports the number of bytes there were to read, has
  put exactly those bytes at the caller's address, and has changed no byte outside the
  caller's range.
\<close>

theorem read_into_correct:
  assumes "serves K f data P" and "P (world s)" and "unat pos < 2 ^ 63"
  shows "\<exists>j' s'. sync_loop K \<lparr>j_id = i, j_cancelled = False, j_kind = Job_Read
             \<lparr>r_handle = h, r_fd = f, r_owned_fd = x, r_pos = pos, r_want = Want_Exact len,
              r_buf = Buf_External p len, r_filled = 0\<rparr>, j_cb = c\<rparr> s =
           Some (j', Inr (Reply_Read (min len (length data - unat pos))), s') \<and>
         (\<forall>k < min len (length data - unat pos). memory s' (p + k) = data ! (unat pos + k)) \<and>
         (\<forall>a. a < p \<or> p + len \<le> a \<longrightarrow> memory s' a = memory s a)"
proof -
  let ?r = "\<lparr>r_handle = h, r_fd = f, r_owned_fd = x, r_pos = pos, r_want = Want_Exact len,
              r_buf = Buf_External p len, r_filled = 0\<rparr>"
  let ?j = "\<lparr>j_id = i, j_cancelled = False, j_kind = Job_Read ?r, j_cb = c\<rparr>"
  have "reading data (memory s) ?r" using assms(3) by (simp add: reading_def sized_def in_place_def)
  from sync_read [OF assms(1) _ _ this assms(2), of ?j]
  obtain j' s' where loop: "sync_loop K ?j s = Some (j', Inr (answer data ?r), s')"
    and got: "gathers data ?r s j' s'" by auto
  have "wanted data ?r = take len (drop (unat pos) data)" by (simp add: wanted_def rest_of_def)
  moreover from this got have "memory s' (p + k) = take len (drop (unat pos) data) ! k"
    if "k < min len (length data - unat pos)" for k
    using that by (auto simp: gathers_def in_place_def)
  ultimately show ?thesis using loop got by (auto simp: gathers_def)
qed

theorem read_into_correct_witness:
  "\<exists>j' s'. sync_loop (disk_kernel 2) \<lparr>j_id = 1, j_cancelled = False, j_kind = Job_Read
       \<lparr>r_handle = Some 1, r_fd = 3, r_owned_fd = False, r_pos = 4, r_want = Want_Exact 4,
        r_buf = Buf_External 100 4, r_filled = 0\<rparr>, j_cb = 0\<rparr> (disk_os [1, 2, 3, 4, 5, 6]) =
     Some (j', Inr (Reply_Read 2), s') \<and> memory s' 100 = 5 \<and> memory s' 101 = 6 \<and> memory s' 104 = 0"
proof -
  have "content (world (disk_os [1, 2, 3, 4, 5, 6])) = [1, 2, 3, 4, 5, 6]" by (simp add: disk_os_def)
  from read_into_correct [OF disk_serves [of 2 3 "[1, 2, 3, 4, 5, 6]"] this, of 4 1 "Some 1" False 4 100 0]
  obtain j' s' where loop: "sync_loop (disk_kernel 2) \<lparr>j_id = 1, j_cancelled = False, j_kind = Job_Read
       \<lparr>r_handle = Some 1, r_fd = 3, r_owned_fd = False, r_pos = 4, r_want = Want_Exact 4,
        r_buf = Buf_External 100 4, r_filled = 0\<rparr>, j_cb = 0\<rparr> (disk_os [1, 2, 3, 4, 5, 6]) =
     Some (j', Inr (Reply_Read 2), s')"
    and mem: "\<forall>k < 2. memory s' (100 + k) = [1, 2, 3, 4, 5, 6] ! (4 + k)"
    and out: "memory s' 104 = memory (disk_os [1, 2, 3, 4, 5, 6]) 104" by auto
  have "memory s' 100 = 5" "memory s' 101 = 6" using mem [rule_format, of 0] mem [rule_format, of 1] by simp_all
  moreover have "memory s' 104 = 0" using out by (simp add: disk_os_def)
  ultimately show ?thesis using loop by blast
qed

text \<open>
  C27: A read to the end of a regular file returns everything from its position on, with
  any vector at least as large as what is left, which is what \<open>ReadToEnd\<close> and
  \<open>ReadFile\<close> reserve.
\<close>

theorem read_to_end_correct:
  assumes "serves K f data P" and "P (world s)" and "length data - unat pos \<le> cap" and "0 < cap"
    and "unat pos < 2 ^ 63"
  shows "\<exists>j' s'. sync_loop K \<lparr>j_id = i, j_cancelled = False, j_kind = Job_Read
             \<lparr>r_handle = h, r_fd = f, r_owned_fd = x, r_pos = pos, r_want = Want_ToEnd,
              r_buf = Buf_Owned [] cap, r_filled = 0\<rparr>, j_cb = c\<rparr> s =
           Some (j', Inr (Reply_Bytes (drop (unat pos) data)), s')"
proof -
  let ?r = "\<lparr>r_handle = h, r_fd = f, r_owned_fd = x, r_pos = pos, r_want = Want_ToEnd,
              r_buf = Buf_Owned [] cap, r_filled = 0\<rparr>"
  have "reading data (memory s) ?r" using assms(3-5) by (simp add: reading_def sized_def in_place_def rest_of_def)
  from sync_read [OF assms(1) _ _ this assms(2), of "\<lparr>j_id = i, j_cancelled = False, j_kind = Job_Read ?r, j_cb = c\<rparr>"]
  show ?thesis by (auto simp: wanted_def rest_of_def)
qed

theorem read_to_end_correct_witness:
  "\<exists>j' s'. sync_loop (disk_kernel 2) \<lparr>j_id = 1, j_cancelled = False, j_kind = Job_Read
       \<lparr>r_handle = None, r_fd = 3, r_owned_fd = True, r_pos = 3, r_want = Want_ToEnd,
        r_buf = Buf_Owned [] 3, r_filled = 0\<rparr>, j_cb = 0\<rparr> (disk_os [1, 2, 3, 4, 5, 6]) =
     Some (j', Inr (Reply_Bytes [4, 5, 6]), s')"
  using read_to_end_correct [OF disk_serves [of 2 3 "[1, 2, 3, 4, 5, 6]"], of "disk_os [1, 2, 3, 4, 5, 6]" 3 3 1 None True 0]
  by (auto simp: disk_os_def)

text \<open>
  C29: On the asynchronous path every reaped chunk takes the read further: with the bytes
  the kernel promised for the control block, the job either finishes with the answer the
  whole file gives, or goes back to the head of the queue with strictly more bytes in
  place, and, unless cancelled, is submitted again.
\<close>

theorem reaped_chunk_progress:
  assumes "serves K (r_fd r) data P" and "P (world (os d))" and "reading data (memory (os d)) r"
    and "j_kind j = Job_Read r" and "\<not> j_cancelled j"
    and "chunk_ok data (aio_offset (control_block j)) (aio_nbytes (control_block j)) n bs"
    and "settle_reaped K j None n bs d = Some d'"
  shows "(\<exists>j' s'. d' = finish K j' (Inr (answer data r)) (d\<lparr>os := s'\<rparr>) \<and> j_cb j' = j_cb j) \<or>
         (\<exists>j' r' s'. j_kind j' = Job_Read r' \<and> j_id j' = j_id j \<and> j_cb j' = j_cb j \<and>
            reading data (memory s') r' \<and> r_filled r < r_filled r' \<and> answer data r' = answer data r \<and>
            submit_ready K (d\<lparr>os := s', queue := j' # queue d\<rparr>) = Some d')"
proof -
  obtain r1 s1 where del: "deliver_read r bs (os d) = (r1, s1)" by (cases "deliver_read r bs (os d)")
  obtain res r2 s2 where st: "step_read K r1 n s1 = (res, r2, s2)" by (cases "step_read K r1 n s1") auto
  have block: "aio_offset (control_block j) = r_pos r + of_nat (r_filled r)"
    "aio_nbytes (control_block j) = room (r_buf r) - r_filled r"
    using assms(4) by (cases "r_buf r"; simp add: control_block_def)+
  note facts = read_chunk [OF assms(1-3) assms(6) [unfolded block] del st]
  let ?j = "j\<lparr>j_kind := Job_Read r2\<rparr>"
  have "(case res of Step_Done x \<Rightarrow> Some (finish K ?j x (d\<lparr>os := s2\<rparr>))
      | Step_More \<Rightarrow> submit_ready K (d\<lparr>os := s2, queue := ?j # queue d\<rparr>)) = Some d'"
    using assms(4,5,7) del st
    by (auto simp: settle_reaped_def advance_def deliver_bytes_def step_def split: step_result.splits)
  moreover have "j_cb ?j = j_cb j" "j_id ?j = j_id j" "j_kind ?j = Job_Read r2" by simp_all
  ultimately show ?thesis using facts by (cases res) (auto simp del: answer.simps)
qed

definition demo_idle :: "disk aio" where
  "demo_idle = aio_new (disk_kernel 2) new_channel new_channel new_channel (disk_os [1, 2, 3, 4, 5, 6])"

definition demo_job :: job where
  "demo_job = \<lparr>j_id = 1, j_cancelled = False, j_kind = Job_Read
     \<lparr>r_handle = None, r_fd = 3, r_owned_fd = False, r_pos = 1, r_want = Want_Exact 4,
      r_buf = Buf_Owned [] 4, r_filled = 0\<rparr>, j_cb = 7\<rparr>"

theorem reaped_chunk_progress_witness:
  "\<exists>d' j' s'. settle_reaped (disk_kernel 2) demo_job None 2 [2, 3] demo_idle = Some d' \<and> j_cb j' = 7 \<and>
     (d' = finish (disk_kernel 2) j' (Inr (Reply_Bytes [2, 3, 4, 5])) (demo_idle\<lparr>os := s'\<rparr>) \<or>
      submit_ready (disk_kernel 2) (demo_idle\<lparr>os := s', queue := j' # queue demo_idle\<rparr>) = Some d')"
proof -
  let ?r = "\<lparr>r_handle = None, r_fd = 3, r_owned_fd = False, r_pos = 1, r_want = Want_Exact 4,
      r_buf = Buf_Owned [] 4, r_filled = 0\<rparr> :: read_job"
  have "settle_reaped (disk_kernel 2) demo_job None 2 [2, 3] demo_idle \<noteq> None" by code_simp
  then obtain d' where d': "settle_reaped (disk_kernel 2) demo_job None 2 [2, 3] demo_idle = Some d'" by auto
  have serve: "serves (disk_kernel 2) (r_fd ?r) [1, 2, 3, 4, 5, 6] (\<lambda>w. content w = [1, 2, 3, 4, 5, 6])"
    by (rule disk_serves) simp_all
  have world: "content (world (os demo_idle)) = [1, 2, 3, 4, 5, 6]" by (simp add: demo_idle_def aio_new_def disk_os_def)
  have start: "reading [1, 2, 3, 4, 5, 6] (memory (os demo_idle)) ?r"
    by (simp add: reading_def sized_def in_place_def)
  have chunk: "chunk_ok [1, 2, 3, 4, 5, 6] (aio_offset (control_block demo_job)) (aio_nbytes (control_block demo_job)) 2 [2, 3]"
    by (simp add: chunk_ok_def demo_job_def control_block_def rest_of_def)
  have kind: "j_kind demo_job = Job_Read ?r" "\<not> j_cancelled demo_job" "j_cb demo_job = 7" by (simp_all add: demo_job_def)
  have answer: "answer [1, 2, 3, 4, 5, 6] ?r = Reply_Bytes [2, 3, 4, 5]" by (simp add: wanted_def rest_of_def)
  show ?thesis
    using reaped_chunk_progress [OF serve world start kind(1,2) chunk d'] d' unfolding answer kind(3) by blast
qed

section \<open>A stream that is longer than the vector\<close>

text \<open>
  \<open>grow\<close> asks for room with \<open>Vec::reserve\<close> while the vector's length is still 0, so a
  vector with a capacity of 65536 or more never grows: the request is already satisfied.
\<close>

lemma grow_stuck: "r_buf r = Buf_Owned vec cap \<Longrightarrow> 65536 \<le> cap \<Longrightarrow> grow r = r"
  by (cases r) (auto simp: grow_def vec_reserve_def)

text \<open>What is not a regular file, read in whole chunks.\<close>

definition streams :: "'k kernel \<Rightarrow> fd \<Rightarrow> byte list \<Rightarrow> bool" where
  "streams K f data \<longleftrightarrow>
     (\<forall>w. \<exists>st. sys_fstat K f w = (Inr st, w) \<and> st_mode st AND S_IFMT \<noteq> S_IFREG) \<and>
     (\<forall>w n pos. sys_pread K f n pos w =
        (Inr (min n (length data - unat pos), take n (drop (unat pos) data)), w))"

lemma stream_chunk:
  assumes K: "streams K f data" and r: "r = \<lparr>r_handle = h, r_fd = f, r_owned_fd = x, r_pos = 0,
      r_want = Want_ToEnd, r_buf = Buf_Owned (take k data) cap, r_filled = k\<rparr>"
    and k: "k < cap" "cap \<le> length data" "cap \<le> 65536" and j: "j_kind j = Job_Read r"
  shows "sync_loop K j s = sync_loop K (j\<lparr>j_kind := Job_Read (r\<lparr>
      r_buf := Buf_Owned (take cap data) (vec_reserve 0 cap 65536), r_filled := cap\<rparr>)\<rparr>) s"
proof -
  have pos: "unat (of_nat k :: u64) = k" using k by (simp add: word_simps)
  have size: "regular_file_size K f w = (None, w)" for w
  proof -
    from K obtain st where "sys_fstat K f w = (Inr st, w)" "st_mode st AND S_IFMT \<noteq> S_IFREG"
      unfolding streams_def by blast
    then show ?thesis by (simp add: regular_file_size_def)
  qed
  have read: "syscall (sys_pread K f (cap - k) (of_nat k)) s = (Inr (cap - k, take (cap - k) (drop k data)), s)"
    using K k by (simp add: streams_def syscall_def pos min_def)
  have bytes: "take k data @ take (cap - k) (drop k data) = take cap data"
    using k by (metis le_add_diff_inverse less_imp_le take_add)
  let ?r1 = "r\<lparr>r_buf := Buf_Owned (take cap data) cap\<rparr>"
  have del: "deliver_read r (take (cap - k) (drop k data)) s = (?r1, s)"
    using r k bytes by (simp add: deliver_read_def min_def)
  have st: "step_read K ?r1 (cap - k) s = (Step_More, ?r1\<lparr>r_buf := Buf_Owned (take cap data) (vec_reserve 0 cap 65536),
      r_filled := cap\<rparr>, s)"
    using r k by (simp add: step_read_def Let_def complete_def regular_size_def size grow_def max_def)
  show ?thesis by (subst sync_loop_read [OF j _ del st]) (use read r in simp_all)
qed

text \<open>
  C40: A read to the end of anything but a regular file stops after 65536 bytes, though
  more are there and the kernel would deliver them: the vector first grows to 65536 and
  never again, the kernel is then asked for 0 bytes, and its answer is taken for the
  end.
\<close>

theorem read_to_end_truncates_streams:
  assumes "streams K f data" and "65536 \<le> length data"
  shows "\<exists>j'. sync_loop K \<lparr>j_id = i, j_cancelled = False, j_kind = Job_Read
             \<lparr>r_handle = h, r_fd = f, r_owned_fd = x, r_pos = 0, r_want = Want_ToEnd,
              r_buf = Buf_Owned [] 1, r_filled = 0\<rparr>, j_cb = c\<rparr> s =
           Some (j', Inr (Reply_Bytes (take 65536 data)), s)"
proof -
  define job where "job r = \<lparr>j_id = i, j_cancelled = False, j_kind = Job_Read r, j_cb = c\<rparr>" for r
  define at where "at k cap = \<lparr>r_handle = h, r_fd = f, r_owned_fd = x, r_pos = 0, r_want = Want_ToEnd,
      r_buf = Buf_Owned (take k data) cap, r_filled = k\<rparr>" for k cap
  have "sync_loop K (job (at 0 1)) s = sync_loop K (job (at 1 65536)) s"
    using stream_chunk [OF assms(1), of "at 0 1" h x 0 1 "job (at 0 1)" s] assms(2)
    by (simp add: at_def job_def vec_reserve_def)
  also have "\<dots> = sync_loop K (job (at 65536 65536)) s"
    using stream_chunk [OF assms(1), of "at 1 65536" h x 1 65536 "job (at 1 65536)" s] assms(2)
    by (simp add: at_def job_def vec_reserve_def)
  also have "\<dots> = Some (job (at 65536 65536), Inr (Reply_Bytes (take 65536 data)), s)"
  proof -
    have "syscall (sys_pread K f 0 pos) s = (Inr (0, []), s)" for pos
      using assms(1) by (simp add: streams_def syscall_def)
    moreover have "deliver_read (at 65536 65536) [] s = (at 65536 65536, s)" by (simp add: deliver_read_def at_def)
    moreover have "step_read K (at 65536 65536) 0 s =
        (Step_Done (Inr (Reply_Bytes (take 65536 data))), at 65536 65536, s)"
      by (simp add: step_read_def at_def)
    ultimately show ?thesis
      by (subst sync_loop_read [where bs = "[]" and m = 0]) (auto simp: job_def at_def)
  qed
  finally show ?thesis by (simp add: job_def at_def)
qed

text \<open>The disk's content behind a descriptor that is not a regular file.\<close>

definition tape_kernel :: "byte list \<Rightarrow> disk kernel" where
  "tape_kernel data = (disk_kernel 1)\<lparr>
     sys_fstat := (\<lambda>f w. (Inr \<lparr>st_mode = 0x2000, st_size = 0\<rparr>, w)),
     sys_pread := (\<lambda>f n pos w. (Inr (min n (length data - unat pos), take n (drop (unat pos) data)), w))\<rparr>"

lemma tape_streams: "streams (tape_kernel data) f data"
  by (simp add: streams_def tape_kernel_def S_IFMT_def S_IFREG_def)

theorem read_to_end_truncates_streams_witness:
  "\<exists>j'. sync_loop (tape_kernel (replicate 70000 7)) \<lparr>j_id = 1, j_cancelled = False, j_kind = Job_Read
       \<lparr>r_handle = None, r_fd = 3, r_owned_fd = True, r_pos = 0, r_want = Want_ToEnd,
        r_buf = Buf_Owned [] 1, r_filled = 0\<rparr>, j_cb = 0\<rparr> (disk_os []) =
     Some (j', Inr (Reply_Bytes (replicate 65536 7)), disk_os [])"
  using read_to_end_truncates_streams [OF tape_streams [of "replicate 70000 7" 3], of 1 None True 0 "disk_os []"]
  by (simp add: take_replicate)

end
