(* ===== verification/Read_Group.thy ===== *)
theory Read_Group
  imports Settle Aio_Read
begin

text \<open>
  A read split into chunks that the kernel serves side by side (\<open>read_parallel\<close>, \<open>ReadGroup\<close>
  and \<open>GroupState\<close> of \<open>crates/turbofile-py/src/lib.rs\<close>): how the range is cut, and how the
  chunks, finishing in any order, make one completion.
\<close>

section \<open>Cutting the range\<close>

text \<open>\<open>(0..len).step_by(chunk)\<close>\<close>

function step_by :: "nat \<Rightarrow> nat \<Rightarrow> nat \<Rightarrow> nat list" where
  "step_by start len stride = (if start < len \<and> 0 < stride then start # step_by (start + stride) len stride else [])"
  by pat_completeness auto
termination
  by (relation "measure (\<lambda>(start, len, stride). len - start)") auto

declare step_by.simps [simp del]

definition read_chunks :: "nat \<Rightarrow> nat \<Rightarrow> (nat \<times> nat) list" where
  "read_chunks len piece = map (\<lambda>start. (start, min piece (len - start))) (step_by 0 len piece)"

definition chunk_op :: "nat \<Rightarrow> u64 \<Rightarrow> addr \<Rightarrow> nat \<times> nat \<Rightarrow> op" where
  "chunk_op handle pos base c =
     (case c of (start, n) \<Rightarrow> Op_ReadAt handle (pos + of_nat start) (Dest_Into (base + start) n))"

section \<open>The group\<close>

record group =
  gr_remaining :: nat
  gr_fut :: "nat option"
  gr_bytes :: "(addr \<times> nat) option"
  gr_limit :: nat
  gr_error :: "io_error option"

definition new_group :: "nat \<Rightarrow> nat \<Rightarrow> addr \<Rightarrow> nat \<Rightarrow> group" where
  "new_group len piece base fut =
     \<lparr>gr_remaining = max (div_ceil len piece) 1, gr_fut = Some fut, gr_bytes = Some (base, len),
      gr_limit = len, gr_error = None\<rparr>"

text \<open>
  The first half of \<open>chunk_done\<close>, under the lock, and the second, from the decrement on.
  Chunks may finish on different threads: the halves of different chunks interleave.
  The outer \<^const>\<open>None\<close> of the second half is the panic of \<open>expect\<close>.
\<close>

definition get_or_insert :: "'a \<Rightarrow> 'a option \<Rightarrow> 'a option" where
  "get_or_insert x o' = (case o' of None \<Rightarrow> Some x | Some y \<Rightarrow> Some y)"

fun note_chunk :: "nat \<times> nat \<Rightarrow> reply io \<Rightarrow> group \<Rightarrow> group" where
  "note_chunk (start, len) (Inr (Reply_Read n)) g =
     (if n < len then g\<lparr>gr_limit := min (gr_limit g) (start + n)\<rparr> else g)"
| "note_chunk c (Inr r) g =
     g\<lparr>gr_error := get_or_insert (Other ''mismatched turbofile reply in read group'') (gr_error g)\<rparr>"
| "note_chunk c (Inl e) g = g\<lparr>gr_error := get_or_insert e (gr_error g)\<rparr>"

definition finish_chunk :: "group \<Rightarrow> (completion option \<times> group) option" where
  "finish_chunk g =
     (let before = gr_remaining g;
          g = g\<lparr>gr_remaining := (if before = 0 then 2 ^ 64 - 1 else before - 1)\<rparr>
      in if before \<noteq> 1 then Some (None, g)
         else case (gr_fut g, gr_bytes g) of
             (Some fut, Some (base, len)) \<Rightarrow>
               Some (Some \<lparr>cm_fut = fut,
                           cm_result = (case gr_error g of Some e \<Rightarrow> Inl e | None \<Rightarrow> Inr (Reply_Read (gr_limit g))),
                           cm_output = Output_FillBytes base len, cm_owner = None\<rparr>,
                     g\<lparr>gr_fut := None, gr_bytes := None, gr_error := None\<rparr>)
           | _ \<Rightarrow> None)"

text \<open>
  \<open>read_parallel\<close>: the ops it submits, or, for an empty range, the completion it makes
  without submitting any.
\<close>

definition read_parallel ::
  "nat \<Rightarrow> u64 \<Rightarrow> nat \<Rightarrow> nat \<Rightarrow> addr \<Rightarrow> nat \<Rightarrow> py_error + (op list \<times> completion option \<times> group) option" where
  "read_parallel handle pos len piece base fut =
     (if piece = 0 then Inl (Py_ValueError ''chunk must be positive'')
      else let g = new_group len piece base fut
           in if len = 0
              then Inr (case finish_chunk (note_chunk (0, 0) (Inr (Reply_Read 0)) g) of
                          None \<Rightarrow> None | Some (c, g') \<Rightarrow> Some ([], c, g'))
              else Inr (Some (map (chunk_op handle pos base) (read_chunks len piece), None, g)))"

section \<open>The chunks tile the range\<close>

lemma step_by_conv: "0 < stride \<Longrightarrow> step_by (i * stride) len stride = map (\<lambda>j. j * stride) [i..<div_ceil len stride]"
proof (induction "div_ceil len stride - i" arbitrary: i)
  case 0
  then have "div_ceil len stride * stride \<le> i * stride" by (intro mult_le_mono1) simp
  with div_ceil_mult_ge [OF 0(2), of len] have "\<not> i * stride < len" by linarith
  with 0 show ?case by (subst step_by.simps) simp
next
  case (Suc n)
  then have i: "i < div_ceil len stride" by simp
  have "Suc i * stride \<le> div_ceil len stride * stride" using i by (intro mult_le_mono1) simp
  with div_ceil_mult_less [OF Suc(3), of len] have less: "i * stride < len" by simp
  have "step_by (Suc i * stride) len stride = map (\<lambda>j. j * stride) [Suc i..<div_ceil len stride]"
    using Suc by (intro Suc(1)) auto
  with less i Suc(3) show ?case by (subst step_by.simps) (simp add: upt_conv_Cons add.commute)
qed

lemma read_chunks_conv:
  "0 < piece \<Longrightarrow> read_chunks len piece = map (\<lambda>j. (j * piece, min piece (len - j * piece))) [0..<div_ceil len piece]"
  using step_by_conv [of piece 0 len] by (simp add: read_chunks_def)

lemma chunk_start_less: "0 < piece \<Longrightarrow> j < div_ceil len piece \<Longrightarrow> j * piece < len"
proof -
  assume piece: "0 < piece" and "j < div_ceil len piece"
  then have "Suc j * piece \<le> div_ceil len piece * piece" by (intro mult_le_mono1) simp
  with div_ceil_mult_less [OF piece, of len] show "j * piece < len" by simp
qed

text \<open>Every offset below \<open>len\<close> is in the chunk with its quotient, and in no other.\<close>

lemma chunk_of_offset:
  assumes "0 < piece" and "k < len"
  shows "k div piece < div_ceil len piece \<and> k div piece * piece \<le> k \<and>
    k < k div piece * piece + min piece (len - k div piece * piece)"
proof -
  have "k < k div piece * piece + piece" using div_mult_mod_eq [of k piece] mod_less_divisor [OF assms(1), of k] by linarith
  moreover have "k div piece * piece \<le> k" by simp
  moreover have "k div piece < div_ceil len piece"
  proof (rule ccontr)
    assume "\<not> k div piece < div_ceil len piece"
    then have "div_ceil len piece * piece \<le> k div piece * piece" by (intro mult_le_mono1) simp
    with div_ceil_mult_ge [OF assms(1), of len] assms(2) \<open>k div piece * piece \<le> k\<close> show False by linarith
  qed
  ultimately show ?thesis using assms(2) by auto
qed

section \<open>Any order of finishing\<close>

text \<open>The two halves of every chunk's \<open>chunk_done\<close>, by the chunk's number.\<close>

datatype group_event = Note nat | Finish nat

fun group_run ::
  "(nat \<times> nat) list \<Rightarrow> reply io list \<Rightarrow> group_event list \<Rightarrow> group \<Rightarrow> (completion list \<times> group) option" where
  "group_run cs rs [] g = Some ([], g)"
| "group_run cs rs (Note i # evs) g = group_run cs rs evs (note_chunk (cs ! i) (rs ! i) g)"
| "group_run cs rs (Finish i # evs) g = (case finish_chunk g of
     None \<Rightarrow> None
   | Some (c, g') \<Rightarrow> map_option (\<lambda>(done, g''). ((case c of None \<Rightarrow> done | Some c \<Rightarrow> c # done), g'')) (group_run cs rs evs g'))"

text \<open>The first half of a chunk comes before its second.\<close>

fun note_first :: "group_event list \<Rightarrow> bool" where
  "note_first [] \<longleftrightarrow> True"
| "note_first (Note i # evs) \<longleftrightarrow> Finish i \<in> set evs \<and> note_first evs"
| "note_first (Finish i # evs) \<longleftrightarrow> note_first evs"

text \<open>Both halves of each of \<open>n\<close> chunks, each once.\<close>

definition interleaving :: "nat \<Rightarrow> group_event list \<Rightarrow> bool" where
  "interleaving n evs \<longleftrightarrow> distinct evs \<and> set evs = Note ` {..<n} \<union> Finish ` {..<n} \<and> note_first evs"

fun note_order :: "group_event list \<Rightarrow> nat list" where
  "note_order [] = []"
| "note_order (Note i # evs) = i # note_order evs"
| "note_order (Finish i # evs) = note_order evs"

fun finishes :: "group_event list \<Rightarrow> nat" where
  "finishes [] = 0"
| "finishes (Note i # evs) = finishes evs"
| "finishes (Finish i # evs) = Suc (finishes evs)"

definition note_all :: "(nat \<times> nat) list \<Rightarrow> reply io list \<Rightarrow> nat list \<Rightarrow> group \<Rightarrow> group" where
  "note_all cs rs ns g = fold (\<lambda>i. note_chunk (cs ! i) (rs ! i)) ns g"

definition group_result :: "group \<Rightarrow> reply io" where
  "group_result g = (case gr_error g of Some e \<Rightarrow> Inl e | None \<Rightarrow> Inr (Reply_Read (gr_limit g)))"

lemma note_chunk_frame:
  "gr_remaining (note_chunk c r g) = gr_remaining g \<and> gr_fut (note_chunk c r g) = gr_fut g \<and>
     gr_bytes (note_chunk c r g) = gr_bytes g \<and>
     note_chunk c r (g\<lparr>gr_remaining := x\<rparr>) = (note_chunk c r g)\<lparr>gr_remaining := x\<rparr>"
  by (cases "(c, r, g)" rule: note_chunk.cases) simp_all

lemma note_all_remaining: "note_all cs rs ns (g\<lparr>gr_remaining := x\<rparr>) = (note_all cs rs ns g)\<lparr>gr_remaining := x\<rparr>"
  unfolding note_all_def by (induction ns arbitrary: g) (simp_all add: note_chunk_frame)

lemma group_result_remaining: "group_result (g\<lparr>gr_remaining := x\<rparr>) = group_result g"
  by (cases "gr_error g") (simp_all add: group_result_def)

lemma note_first_nothing: "note_first evs \<Longrightarrow> finishes evs = 0 \<Longrightarrow> evs = []"
proof (induction evs rule: note_first.induct)
  case (2 i evs)
  then show ?case by simp
qed simp_all

lemma group_run_once:
  assumes "note_first evs" and "gr_remaining g = finishes evs" and "0 < finishes evs"
    and "gr_fut g = Some fut" and "gr_bytes g = Some (base, len)"
  shows "\<exists>g'. group_run cs rs evs g = Some ([\<lparr>cm_fut = fut, cm_result = group_result (note_all cs rs (note_order evs) g),
      cm_output = Output_FillBytes base len, cm_owner = None\<rparr>], g')"
  using assms
proof (induction evs arbitrary: g rule: note_first.induct)
  case (2 i evs)
  show ?case using 2(1) [of "note_chunk (cs ! i) (rs ! i) g"] 2(2-)
    by (simp add: note_chunk_frame note_all_def)
next
  case (3 i evs)
  let ?g = "g\<lparr>gr_remaining := finishes evs\<rparr>"
  show ?case
  proof (cases "finishes evs = 0")
    case True
    with note_first_nothing 3(2) have "evs = []" by simp
    with 3(3-) show ?thesis
      by (cases "gr_error g") (simp_all add: finish_chunk_def Let_def note_all_def group_result_def)
  next
    case False
    with 3(3) have "finish_chunk g = Some (None, ?g)" by (simp add: finish_chunk_def Let_def)
    moreover from 3(1) [of ?g] 3(2-) False
    have "\<exists>g'. group_run cs rs evs ?g = Some ([\<lparr>cm_fut = fut, cm_result = group_result (note_all cs rs (note_order evs) ?g),
      cm_output = Output_FillBytes base len, cm_owner = None\<rparr>], g')" by simp
    ultimately show ?thesis by (auto simp: note_all_remaining group_result_remaining)
  qed
qed simp

section \<open>The result is the same in every order\<close>

fun failure :: "reply io \<Rightarrow> io_error option" where
  "failure (Inl e) = Some e"
| "failure (Inr (Reply_Read n)) = None"
| "failure (Inr r) = Some (Other ''mismatched turbofile reply in read group'')"

text \<open>Where a chunk that got less than it asked for puts the end of the data.\<close>

fun short_at :: "nat \<times> nat \<Rightarrow> reply io \<Rightarrow> nat set" where
  "short_at (start, len) (Inr (Reply_Read n)) = (if n < len then {start + n} else {})"
| "short_at c r = {}"

lemma note_chunk_effect:
  "gr_error (note_chunk c r g) = (case gr_error g of Some e \<Rightarrow> Some e | None \<Rightarrow> failure r) \<and>
     (\<forall>e. failure r = None \<longrightarrow> gr_limit (note_chunk c r g) = Min (insert (gr_limit g) (short_at c r)))"
  by (cases "(c, r, g)" rule: note_chunk.cases) (auto simp: get_or_insert_def split: option.split)

lemma Min_insert_Min:
  fixes x :: nat
  assumes "finite A" and "finite B"
  shows "Min (insert (Min (insert x A)) B) = Min (insert x (A \<union> B))"
proof (cases "B = {}")
  case False
  have "Min (insert x A \<union> B) = min (Min (insert x A)) (Min B)" using assms False by (intro Min_Un) simp_all
  with assms False show ?thesis by simp
qed simp

lemma note_all_ok:
  assumes "\<forall>i \<in> set ns. failure (rs ! i) = None" and "gr_error g = None"
  shows "gr_error (note_all cs rs ns g) = None \<and>
    gr_limit (note_all cs rs ns g) = Min (insert (gr_limit g) (\<Union>i \<in> set ns. short_at (cs ! i) (rs ! i)))"
  using assms
proof (induction ns arbitrary: g)
  case (Cons i ns)
  let ?g = "note_chunk (cs ! i) (rs ! i) g" and ?U = "\<Union>i \<in> set ns. short_at (cs ! i) (rs ! i)"
  have fin: "finite (short_at c r)" for c r by (cases "(c, r)" rule: short_at.cases) auto
  from Cons.prems note_chunk_effect [of "cs ! i" "rs ! i" g]
  have g: "gr_error ?g = None" "gr_limit ?g = Min (insert (gr_limit g) (short_at (cs ! i) (rs ! i)))" by auto
  from Cons.IH [of ?g] Cons.prems(1) g(1)
  have "gr_error (note_all cs rs (i # ns) g) = None \<and> gr_limit (note_all cs rs (i # ns) g) = Min (insert (gr_limit ?g) ?U)"
    by (simp add: note_all_def)
  moreover have "Min (insert (gr_limit ?g) ?U) = Min (insert (gr_limit g) (short_at (cs ! i) (rs ! i)) \<union> ?U)"
    unfolding g(2) using fin by (subst Min_insert_Min) simp_all
  ultimately show ?case by simp
qed (simp add: note_all_def)

lemma note_all_stuck: "gr_error g = Some e \<Longrightarrow> gr_error (note_all cs rs ns g) = Some e"
  unfolding note_all_def
proof (induction ns arbitrary: g)
  case (Cons i ns)
  from Cons.prems note_chunk_effect [of "cs ! i" "rs ! i" g] Cons.IH show ?case by simp
qed simp

lemma note_all_error:
  assumes "i \<in> set ns" and "failure (rs ! i) \<noteq> None" and "gr_error g = None"
  shows "\<exists>j \<in> set ns. \<exists>e. failure (rs ! j) = Some e \<and> gr_error (note_all cs rs ns g) = Some e"
  using assms
proof (induction ns arbitrary: g)
  case (Cons k ns)
  let ?g = "note_chunk (cs ! k) (rs ! k) g"
  have g: "gr_error ?g = failure (rs ! k)" using Cons.prems(3) note_chunk_effect [of "cs ! k" "rs ! k" g] by simp
  show ?case
  proof (cases "failure (rs ! k)")
    case None
    with Cons.prems g Cons.IH [of ?g] show ?thesis by (auto simp: note_all_def)
  next
    case (Some e)
    with g note_all_stuck [of ?g e] show ?thesis by (auto simp: note_all_def)
  qed
qed simp

lemma set_note_order: "set (note_order evs) = {i. Note i \<in> set evs}"
  by (induction evs rule: note_order.induct) auto

lemma finishes_card: "distinct evs \<Longrightarrow> finishes evs = card {i. Finish i \<in> set evs}"
proof (induction evs rule: finishes.induct)
  case (3 i evs)
  have "{j. Finish j \<in> set (Finish i # evs)} = insert i {j. Finish j \<in> set evs}" by auto
  moreover have "finite {j. Finish j \<in> set evs}"
    by (rule finite_subset [of _ "(\<lambda>ev. case ev of Finish j \<Rightarrow> j | Note j \<Rightarrow> j) ` set evs"]) (force simp: image_iff)+
  ultimately show ?case using 3 by simp
qed simp_all

lemma interleaving_counts: "interleaving n evs \<Longrightarrow> finishes evs = n \<and> set (note_order evs) = {..<n} \<and> note_first evs"
proof -
  assume i: "interleaving n evs"
  then have "{i. Finish i \<in> set evs} = {..<n}" "{i. Note i \<in> set evs} = {..<n}" by (auto simp: interleaving_def)
  with i finishes_card [of evs] show ?thesis by (simp add: interleaving_def set_note_order)
qed

section \<open>A stable file\<close>

text \<open>What a chunk's read of a file that nobody changes answers.\<close>

definition chunk_reply :: "byte list \<Rightarrow> u64 \<Rightarrow> nat \<times> nat \<Rightarrow> reply io" where
  "chunk_reply data pos c =
     (case c of (start, n) \<Rightarrow> Inr (Reply_Read (min n (length (rest_of data (pos + of_nat start))))))"

lemma failure_chunk_reply [simp]: "failure (chunk_reply data pos c) = None"
  by (cases c) (simp add: chunk_reply_def)

lemma length_rest_later:
  assumes "unat pos + start < 2 ^ 64"
  shows "length (rest_of data (pos + of_nat start)) = length (rest_of data pos) - start"
  using unat_pos_add [OF assms] by (simp add: rest_of_def)

lemma short_end: "(r :: nat) < s + c \<Longrightarrow> 0 < c \<Longrightarrow> min c (r - s) < c \<and> s + min c (r - s) = max s r"
  by (cases "r \<le> s") (simp_all add: min_def max_def)

lemma chunks_limit:
  assumes "0 < piece" and "unat pos + len < 2 ^ 64"
  shows "Min (insert len (\<Union>i < div_ceil len piece.
      short_at (read_chunks len piece ! i) (chunk_reply data pos (read_chunks len piece ! i)))) =
    min len (length (rest_of data pos))"
    (is "Min (insert len ?S) = _")
proof -
  let ?n = "div_ceil len piece" and ?rest = "length (rest_of data pos)"
  have short: "short_at (read_chunks len piece ! i) (chunk_reply data pos (read_chunks len piece ! i)) =
      (if ?rest < i * piece + min piece (len - i * piece) then {max (i * piece) ?rest} else {})" if "i < ?n" for i
  proof -
    have i: "i * piece < len" using chunk_start_less [OF assms(1) that] .
    then have "unat pos + i * piece < 2 ^ 64" using assms(2) by linarith
    from length_rest_later [OF this, of data] have later: "length (rest_of data (pos + of_nat (i * piece))) = ?rest - i * piece" .
    have nth: "read_chunks len piece ! i = (i * piece, min piece (len - i * piece))"
      using that by (simp add: read_chunks_conv [OF assms(1)])
    show ?thesis
    proof (cases "?rest < i * piece + min piece (len - i * piece)")
      case True
      from i assms(1) have "0 < min piece (len - i * piece)" by simp
      from short_end [OF True this]
      have "min (min piece (len - i * piece)) (?rest - i * piece) < min piece (len - i * piece)"
        and "i * piece + min (min piece (len - i * piece)) (?rest - i * piece) = max (i * piece) ?rest" by blast+
      with True show ?thesis unfolding nth chunk_reply_def prod.case later short_at.simps by (simp only: if_True)
    next
      case False
      then have "\<not> min (min piece (len - i * piece)) (?rest - i * piece) < min piece (len - i * piece)" by linarith
      with False show ?thesis unfolding nth chunk_reply_def prod.case later short_at.simps by (simp only: if_False)
    qed
  qed
  have fin: "finite ?S" using short by (intro finite_UN_I) auto
  have ge: "min len ?rest \<le> x" if "x \<in> ?S" for x
    using that short by (auto split: if_splits)
  have "min len ?rest \<in> insert len ?S"
  proof (cases "?rest < len")
    case False
    then show ?thesis by simp
  next
    case True
    let ?i = "?rest div piece"
    from chunk_of_offset [OF assms(1) True] have i: "?i < ?n" "?i * piece \<le> ?rest"
      "?rest < ?i * piece + min piece (len - ?i * piece)" by auto
    with short [OF i(1)] have "?rest \<in> short_at (read_chunks len piece ! ?i) (chunk_reply data pos (read_chunks len piece ! ?i))"
      by (simp add: max_def)
    with i(1) True show ?thesis by auto
  qed
  then show ?thesis using fin ge by (intro Min_eqI) auto
qed

end
