(* ===== verification/Front_Correct.thy ===== *)
theory Front_Correct
  imports Frontend Read_Group
begin

text \<open>
  The properties of the Python front end: replies have the shape their consumer expects,
  a completion settles its own future and no other, a parallel read amounts to one read,
  and no descriptor of a doorbell is lost.
\<close>

section \<open>Replies become values\<close>

lemma request_ops:
  assumes "request_of e = Inr sb"
  obtains (fill) h pos p len where "sb_op sb = Op_ReadAt h pos (Dest_Into p len)" and "sb_output sb = Output_FillBytes p len"
    | (into) h pos p len where "sb_op sb = Op_ReadAt h pos (Dest_Into p len)" and "sb_output sb = Output_ReadInto"
    | (whole) path n hook where "sb_op sb = Op_ReadFile path n" and "sb_output sb = Output_WholeFile hook"
    | (written) path data where "sb_op sb = Op_WriteFile path data" and "sb_output sb = Output_WrittenCount"
    | (plain) "\<forall>h pos d. sb_op sb \<noteq> Op_ReadAt h pos d" "sb_output sb = Output_Plain"
  using assms
  by (cases e)
    (auto simp: py_open_def py_read_def py_read_to_end_def py_readinto_def py_write_def py_close_def py_sync_def
      py_set_len_def py_size_def py_read_file_def py_write_file_def probe_nop_def write_payload_def
      split: if_splits)

lemma reply_value:
  assumes "request_of e = Inr sb" and "answers (sb_op sb) r"
  shows "\<exists>v. build_value m (sb_output sb) r = Some (Inr v)"
proof (cases rule: request_ops [OF assms(1)])
  case (1 h pos p len)
  with assms(2) show ?thesis by (cases r) (auto simp: Let_def)
next
  case (2 h pos p len)
  with assms(2) show ?thesis by (cases r) auto
next
  case (3 path n hook)
  with assms(2) show ?thesis by (cases r) auto
next
  case (4 path data)
  with assms(2) show ?thesis by (cases r) auto
next
  case 5
  with assms(2) show ?thesis by (cases "(sb_op sb, r)" rule: answers.cases) auto
qed

text \<open>What a completion makes of its future, when no continuation takes it over.\<close>

definition outcome :: "mem \<Rightarrow> completion \<Rightarrow> future" where
  "outcome m c = (case cm_result c of
       Inl e \<Rightarrow> if is_cancelled e then Was_cancelled else Failed (io_err_to_pyerr e)
     | Inr r \<Rightarrow> (case build_value m (cm_output c) r of
           Some (Inr v) \<Rightarrow> Resolved v | Some (Inl e) \<Rightarrow> Failed e | None \<Rightarrow> Pending))"

definition taken_over :: "completion \<Rightarrow> bool" where
  "taken_over c \<longleftrightarrow> (\<exists>h i sz f. cm_output c = Output_WholeFile (Some h) \<and> cm_result c = Inr (Reply_Handle i sz f))"

lemma settle_plain:
  "\<not> (\<exists>h i sz f. out = Output_WholeFile (Some h) \<and> r = Reply_Handle i sz f) \<Longrightarrow>
   settle call m fut r out s = (case build_value m out r of
       None \<Rightarrow> None | Some (Inl e) \<Rightarrow> Some (Inl e, s) | Some (Inr v) \<Rightarrow> Some (set_result fut v s))"
  by (cases "(call, m, fut, r, out, s)" rule: settle.cases) (auto split: option.split sum.split)

lemma deliver_one:
  assumes "request_of e = Inr sb" and "cm_output c = sb_output sb"
    and "\<forall>r. cm_result c = Inr r \<longrightarrow> answers (sb_op sb) r" and "\<not> taken_over c"
    and "futures s (cm_fut c) = Pending"
  shows "deliver call m c s = Some (s\<lparr>futures := (futures s)(cm_fut c := outcome m c)\<rparr>) \<and> outcome m c \<noteq> Pending"
proof (cases "cm_result c")
  case (Inl e)
  with assms(5) show ?thesis
    by (auto simp: deliver_def outcome_def settle_cancelled_def set_exception_def settle_future_def)
next
  case (Inr r)
  from reply_value [OF assms(1), of r m] assms(3) Inr
  have "\<exists>v. build_value m (sb_output sb) r = Some (Inr v)" by simp
  then obtain v where v: "build_value m (cm_output c) r = Some (Inr v)" using assms(2) by auto
  from assms(4) Inr have "settle call m (cm_fut c) r (cm_output c) s = Some (set_result (cm_fut c) v s)"
    by (subst settle_plain) (auto simp: taken_over_def v)
  with Inr v assms(5) show ?thesis
    by (simp add: deliver_def outcome_def set_result_def settle_future_def)
qed

section \<open>Parallel reads\<close>

text \<open>
  The chunks of a parallel read tile its range: there are \<open>ceil(len / chunk)\<close> of them,
  none is empty or longer than \<open>chunk\<close>, all lie inside the range, and every offset of the
  range is in exactly one of them.
\<close>

lemma chunks_tile_range:
  assumes "0 < piece"
  shows "length (read_chunks len piece) = div_ceil len piece \<and>
    (\<forall>(start, n) \<in> set (read_chunks len piece). 0 < n \<and> n \<le> piece \<and> start + n \<le> len) \<and>
    (\<forall>k < len. \<exists>!i. i < length (read_chunks len piece) \<and>
       fst (read_chunks len piece ! i) \<le> k \<and> k < fst (read_chunks len piece ! i) + snd (read_chunks len piece ! i))"
proof (intro conjI allI impI)
  show "length (read_chunks len piece) = div_ceil len piece" by (simp add: read_chunks_conv [OF assms])
next
  show "\<forall>(start, n) \<in> set (read_chunks len piece). 0 < n \<and> n \<le> piece \<and> start + n \<le> len"
    using assms chunk_start_less [OF assms, of _ len] by (fastforce simp: read_chunks_conv [OF assms])
next
  fix k assume k: "k < len"
  show "\<exists>!i. i < length (read_chunks len piece) \<and> fst (read_chunks len piece ! i) \<le> k \<and>
      k < fst (read_chunks len piece ! i) + snd (read_chunks len piece ! i)"
  proof (rule ex1I [of _ "k div piece"])
    from chunk_of_offset [OF assms k]
    show "k div piece < length (read_chunks len piece) \<and> fst (read_chunks len piece ! (k div piece)) \<le> k \<and>
        k < fst (read_chunks len piece ! (k div piece)) + snd (read_chunks len piece ! (k div piece))"
      by (simp add: read_chunks_conv [OF assms])
  next
    fix i
    assume "i < length (read_chunks len piece) \<and> fst (read_chunks len piece ! i) \<le> k \<and>
        k < fst (read_chunks len piece ! i) + snd (read_chunks len piece ! i)"
    then have i: "i * piece \<le> k" "k < i * piece + piece" by (auto simp: read_chunks_conv [OF assms])
    have "k div piece < Suc i" using i(2) by (intro less_mult_imp_div_less) (simp add: add.commute)
    moreover have "i \<le> k div piece" using i(1) assms by (simp add: less_eq_div_iff_mult_less_eq)
    ultimately show "i = k div piece" by simp
  qed
qed

lemma group_start:
  "gr_remaining (new_group len piece base fut) = max (div_ceil len piece) 1 \<and> gr_fut (new_group len piece base fut) = Some fut \<and>
   gr_bytes (new_group len piece base fut) = Some (base, len) \<and> gr_error (new_group len piece base fut) = None \<and>
   gr_limit (new_group len piece base fut) = len"
  by (simp add: new_group_def)

lemma interleaving_run:
  assumes "interleaving (max (div_ceil len piece) 1) evs"
  obtains g' where "group_run cs rs evs (new_group len piece base fut) = Some ([\<lparr>cm_fut = fut,
      cm_result = group_result (note_all cs rs (note_order evs) (new_group len piece base fut)),
      cm_output = Output_FillBytes base len, cm_owner = None\<rparr>], g')"
proof -
  note order = interleaving_counts [OF assms] and start = group_start [of len piece base fut]
  from order have "0 < finishes evs" by simp
  from group_run_once [OF _ _ this, of "new_group len piece base fut" fut base len cs rs] order start that
  show ?thesis by auto
qed

text \<open>
  C15: In whatever order the chunks finish, and however their two halves interleave, the
  group makes exactly one completion.  If every chunk was read, its count is the smallest
  end a short chunk reports, or the whole length; if some chunk failed, its error is the
  error of a chunk that failed.
\<close>

theorem group_completes_once:
  assumes "interleaving (max (div_ceil len piece) 1) evs"
  shows "\<exists>c g'. group_run cs rs evs (new_group len piece base fut) = Some ([c], g') \<and> cm_fut c = fut \<and>
    cm_output c = Output_FillBytes base len \<and>
    ((\<forall>i < max (div_ceil len piece) 1. failure (rs ! i) = None) \<longrightarrow>
       cm_result c = Inr (Reply_Read (Min (insert len (\<Union>i < max (div_ceil len piece) 1. short_at (cs ! i) (rs ! i)))))) \<and>
    ((\<exists>i < max (div_ceil len piece) 1. failure (rs ! i) \<noteq> None) \<longrightarrow>
       (\<exists>i < max (div_ceil len piece) 1. \<exists>e. failure (rs ! i) = Some e \<and> cm_result c = Inl e))"
proof -
  let ?g = "new_group len piece base fut" and ?n = "max (div_ceil len piece) 1"
  obtain g' where run: "group_run cs rs evs ?g = Some ([\<lparr>cm_fut = fut,
      cm_result = group_result (note_all cs rs (note_order evs) ?g),
      cm_output = Output_FillBytes base len, cm_owner = None\<rparr>], g')" using interleaving_run [OF assms] .
  note order = interleaving_counts [OF assms]
  have "group_result (note_all cs rs (note_order evs) ?g) =
      Inr (Reply_Read (Min (insert len (\<Union>i < ?n. short_at (cs ! i) (rs ! i)))))"
    if "\<forall>i < ?n. failure (rs ! i) = None"
    using note_all_ok [of "note_order evs" rs ?g cs] order group_start [of len piece base fut] that
    by (simp add: group_result_def)
  moreover have "\<exists>i < ?n. \<exists>e. failure (rs ! i) = Some e \<and> group_result (note_all cs rs (note_order evs) ?g) = Inl e"
    if "\<exists>i < ?n. failure (rs ! i) \<noteq> None"
  proof -
    from that obtain i where "i \<in> set (note_order evs)" "failure (rs ! i) \<noteq> None" using order by auto
    from note_all_error [OF this, of ?g cs] group_start [of len piece base fut] order show ?thesis
      by (auto simp: group_result_def)
  qed
  ultimately show ?thesis using run by auto
qed

definition two_chunks :: "group_event list" where
  "two_chunks = [Note 1, Note 0, Finish 0, Finish 1]"

lemma two_chunks_interleave: "interleaving 2 two_chunks"
  by (auto simp: interleaving_def two_chunks_def lessThan_Suc numeral_2_eq_2)

theorem group_completes_once_witness:
  "\<exists>c g'. group_run [(0, 4), (4, 2)] [Inr (Reply_Read 4), Inr (Reply_Read 1)] two_chunks (new_group 6 4 100 9) = Some ([c], g') \<and>
     cm_result c = Inr (Reply_Read 5)"
proof -
  have n: "max (div_ceil 6 4) 1 = 2" by (simp add: div_ceil_def)
  let ?cs = "[(0, 4), (4, 2)] :: (nat \<times> nat) list" and ?rs = "[Inr (Reply_Read 4), Inr (Reply_Read 1)] :: reply io list"
  have short: "(\<Union>i < 2. short_at (?cs ! i) (?rs ! i)) = {5}" by (auto simp: lessThan_Suc numeral_2_eq_2)
  have "\<forall>i < 2. failure (?rs ! i) = None" by (simp add: less_2_cases_iff)
  with group_completes_once [of 6 4 two_chunks ?cs ?rs 100 9, unfolded n short, OF two_chunks_interleave]
  show ?thesis by auto
qed

text \<open>
  C16: A parallel read of a file nobody changes amounts to one sized read: however it is cut
  and in whatever order its chunks finish, its single completion reports the number of
  bytes there were to read, and with each chunk's bytes in place the bytes object holds
  exactly those bytes of the file.
\<close>

theorem parallel_read_is_one_read:
  assumes "0 < piece" and "0 < len" and "unat pos + len < 2 ^ 64"
    and "interleaving (div_ceil len piece) evs"
    and "rs = map (chunk_reply data pos) (read_chunks len piece)"
    and "\<forall>(start, n) \<in> set (read_chunks len piece). \<forall>k < min n (length data - unat pos - start).
      m (base + start + k) = data ! (unat pos + start + k)"
  shows "\<exists>c g'. group_run (read_chunks len piece) rs evs (new_group len piece base fut) = Some ([c], g') \<and>
    cm_result c = Inr (Reply_Read (min len (length data - unat pos))) \<and>
    (\<forall>k < min len (length data - unat pos). m (base + k) = data ! (unat pos + k))"
proof -
  let ?cs = "read_chunks len piece" and ?g = "new_group len piece base fut" and ?n = "div_ceil len piece"
  have n: "max ?n 1 = ?n" using chunk_of_offset [OF assms(1,2)] by simp
  obtain g' where run: "group_run ?cs rs evs ?g = Some ([\<lparr>cm_fut = fut,
      cm_result = group_result (note_all ?cs rs (note_order evs) ?g),
      cm_output = Output_FillBytes base len, cm_owner = None\<rparr>], g')"
    using interleaving_run [of len piece evs ?cs rs base fut] assms(4) unfolding n by blast
  have len: "length ?cs = ?n" by (simp add: read_chunks_conv [OF assms(1)])
  have rs: "rs ! i = chunk_reply data pos (?cs ! i)" if "i < ?n" for i using that len assms(5) by simp
  have "group_result (note_all ?cs rs (note_order evs) ?g) = Inr (Reply_Read (min len (length (rest_of data pos))))"
    using note_all_ok [of "note_order evs" rs ?g ?cs] interleaving_counts [OF assms(4)] rs
      group_start [of len piece base fut] chunks_limit [OF assms(1,3), of data]
    by (simp add: group_result_def)
  moreover have "m (base + k) = data ! (unat pos + k)" if k: "k < min len (length data - unat pos)" for k
  proof -
    let ?i = "k div piece"
    have i: "?i < ?n" "?i * piece \<le> k" "k < ?i * piece + min piece (len - ?i * piece)"
      using chunk_of_offset [OF assms(1), of k len] k by auto
    then have "(?i * piece, min piece (len - ?i * piece)) \<in> set ?cs" by (auto simp: read_chunks_conv [OF assms(1)])
    with assms(6) have "\<forall>j < min (min piece (len - ?i * piece)) (length data - unat pos - ?i * piece).
        m (base + ?i * piece + j) = data ! (unat pos + ?i * piece + j)" by blast
    moreover have "k - ?i * piece < min (min piece (len - ?i * piece)) (length data - unat pos - ?i * piece)"
      using i k by linarith
    ultimately have "m (base + ?i * piece + (k - ?i * piece)) = data ! (unat pos + ?i * piece + (k - ?i * piece))" by blast
    with i(2) show ?thesis by simp
  qed
  ultimately show ?thesis using run by (auto simp: rest_of_def)
qed

theorem parallel_read_is_one_read_witness:
  "\<exists>c g'. group_run (read_chunks 6 4) (map (chunk_reply [1, 2, 3, 4, 5, 6] 1) (read_chunks 6 4)) two_chunks (new_group 6 4 0 9) =
     Some ([c], g') \<and> cm_result c = Inr (Reply_Read 5)"
proof -
  have "read_chunks 6 4 = [(0, 4), (4, 2)]" by (simp add: read_chunks_def step_by.simps)
  moreover have "div_ceil 6 4 = 2" by (simp add: div_ceil_def)
  ultimately show ?thesis
    using parallel_read_is_one_read [of 4 6 1 two_chunks _ "[1, 2, 3, 4, 5, 6]" "\<lambda>a. [1, 2, 3, 4, 5, 6] ! (1 + a)" 0 9, OF _ _ _ _ refl]
      two_chunks_interleave by auto
qed

end
