(* ===== verification/Bridge_Correct.thy ===== *)
theory Bridge_Correct
  imports Bridge
begin

text \<open>
  The completion queue as it is meant to work: a mailbox into which completions are put
  and out of which they come in the same order, with one wake per burst and none lost.
\<close>

section \<open>The mailbox\<close>

text \<open>What has been delivered, and what is still to be.\<close>

definition mailbox :: "'c bridge \<Rightarrow> 'c list \<times> 'c list" where
  "mailbox b = (br_delivered b, batch (br_drain b) @ br_queue b)"

inductive mailbox_step :: "'c list \<times> 'c list \<Rightarrow> 'c list \<times> 'c list \<Rightarrow> bool" where
  put: "mailbox_step (done, waiting) (done, waiting @ [c])"
| get: "mailbox_step (done, c # waiting) (done @ [c], waiting)"

section \<open>The loop thread on its own\<close>

text \<open>What the loop thread does next: go on with the drain, or wait for a wake.\<close>

definition loop_turn :: "'c bridge \<Rightarrow> 'c bridge" where
  "loop_turn b = (if br_drain b \<noteq> Idle then drain_step (br_drain b) b
     else if br_open b \<and> 0 < br_wakes b then wake b else b)"

text \<open>No call of \<open>complete\<close> is under way, and the loop and the interpreter live.\<close>

definition calm :: "'c bridge \<Rightarrow> bool" where
  "calm b \<longleftrightarrow> bridge_inv b \<and> br_alive b \<and> br_open b \<and> set (br_calls b) \<subseteq> {At_return}"

definition empties :: "'c bridge \<Rightarrow> bool" where
  "empties b \<longleftrightarrow> (\<exists>k. br_drain ((loop_turn ^^ k) b) = Idle \<and> br_queue ((loop_turn ^^ k) b) = [] \<and>
     br_wakes ((loop_turn ^^ k) b) = 0 \<and> br_delivered ((loop_turn ^^ k) b) = br_pushed b)"

lemma calm_frame: "calm b \<Longrightarrow> calm (loop_turn b) \<and> br_pushed (loop_turn b) = br_pushed b"
  using bridge_inv_drain [of b] bridge_inv_wake [of b] drain_step_frame [of "br_drain b" b]
  by (auto simp: calm_def loop_turn_def wake_def)

lemma calm_unarmed: "calm b \<Longrightarrow> br_drain b = Idle \<Longrightarrow> br_wakes b = 0 \<Longrightarrow> br_queue b = []"
proof -
  assume b: "calm b" "br_drain b = Idle" "br_wakes b = 0"
  then have "\<not> swapping b" by (auto simp: calm_def swapping_def)
  moreover have "sum_list (map call_token (br_calls b)) = 0" using b(1) by (auto simp: calm_def)
  then have "tokens b = 0" using b(2,3) by (simp only: tokens_def bell_token_def) simp
  moreover have "bridge_ok b" "br_alive b" "br_open b" using b(1) by (simp_all add: calm_def bridge_inv_def)
  ultimately show "br_queue b = []" using b(2) by (cases "br_armed b") (simp_all add: bridge_ok_def)
qed

lemma empties_turn: "br_pushed (loop_turn b) = br_pushed b \<Longrightarrow> empties (loop_turn b) \<Longrightarrow> empties b"
  unfolding empties_def by (metis funpow_Suc_right o_apply)

lemma empties_idle: "calm b \<Longrightarrow> br_drain b = Idle \<Longrightarrow> br_wakes b = 0 \<Longrightarrow> empties b"
proof -
  assume b: "calm b" "br_drain b = Idle" "br_wakes b = 0"
  from calm_unarmed [OF b] have q: "br_queue b = []" .
  with b(1,2) have "br_delivered b = br_pushed b" by (simp add: calm_def bridge_inv_def in_order_def)
  with b q show "empties b" unfolding empties_def by (intro exI [of _ 0]) simp
qed

text \<open>Stage by stage, backwards from the idle bridge.\<close>

lemma empties_from_turn: "calm b \<Longrightarrow> (calm (loop_turn b) \<Longrightarrow> empties (loop_turn b)) \<Longrightarrow> empties b"
  using calm_frame [of b] empties_turn [of b] by blast

lemma empties_disarm:
  assumes "calm b" and "br_drain b = At_disarm" and "br_queue b = []"
  shows "empties b"
proof (rule empties_from_turn [OF assms(1)])
  let ?b = "loop_turn b"
  assume b: "calm ?b"
  show "empties ?b"
  proof (rule empties_from_turn [OF b])
    assume "calm (loop_turn ?b)"
    moreover have "br_drain (loop_turn ?b) = Idle" "br_wakes (loop_turn ?b) = br_wakes b"
      using assms(2,3) by (simp_all add: loop_turn_def)
    moreover have "br_wakes b = 0"
      using drain_token_armed [of b] assms(1,2) by (simp add: calm_def bridge_inv_def bell_token_def)
    ultimately show "empties (loop_turn ?b)" by (simp add: empties_idle)
  qed
qed

lemma empties_take_nothing:
  assumes "calm b" and "br_drain b = At_take" and "br_queue b = []"
  shows "empties b"
proof (rule empties_from_turn [OF assms(1)])
  assume "calm (loop_turn b)"
  then show "empties (loop_turn b)" by (rule empties_disarm) (use assms(2,3) in \<open>simp_all add: loop_turn_def\<close>)
qed

lemma empties_deliver: "calm b \<Longrightarrow> br_drain b = At_deliver cs \<Longrightarrow> br_queue b = [] \<Longrightarrow> empties b"
proof (induction cs arbitrary: b)
  case Nil
  show ?case
  proof (rule empties_from_turn [OF Nil(1)])
    assume "calm (loop_turn b)"
    then show "empties (loop_turn b)" by (rule empties_take_nothing) (use Nil in \<open>simp_all add: loop_turn_def\<close>)
  qed
next
  case (Cons c cs)
  show ?case
  proof (rule empties_from_turn [OF Cons.prems(1)])
    assume "calm (loop_turn b)"
    then show "empties (loop_turn b)" by (rule Cons.IH) (use Cons.prems in \<open>simp_all add: loop_turn_def\<close>)
  qed
qed

lemma empties_take:
  assumes "calm b" and "br_drain b = At_take"
  shows "empties b"
proof (cases "br_queue b = []")
  case True
  with assms show ?thesis by (simp add: empties_take_nothing)
next
  case False
  show ?thesis
  proof (rule empties_from_turn [OF assms(1)])
    assume "calm (loop_turn b)"
    then show "empties (loop_turn b)"
      by (rule empties_deliver) (use assms(2) False in \<open>simp_all add: loop_turn_def\<close>)
  qed
qed

lemma empties_quiet:
  assumes "calm b" and "br_drain b = At_quiet"
  shows "empties b"
proof -
  have dry: "empties b" if "calm b" "br_drain b = At_quiet" "br_bell b = CallSoon \<or> br_wakes b = 0" for b :: "'a bridge"
  proof (rule empties_from_turn [OF that(1)])
    assume "calm (loop_turn b)"
    then show "empties (loop_turn b)"
      by (rule empties_take) (use that(2,3) in \<open>auto simp: loop_turn_def quiet_step_def split: doorbell.split\<close>)
  qed
  show ?thesis
  proof (cases "br_bell b = CallSoon \<or> br_wakes b = 0")
    case True
    with assms dry show ?thesis by blast
  next
    case False
    have "br_wakes b \<le> 1" using assms(1) by (simp add: calm_def bridge_inv_def bridge_ok_def)
    with False have "br_wakes (loop_turn b) = 0" "br_drain (loop_turn b) = At_quiet"
      using assms(2) by (auto simp: loop_turn_def quiet_step_def split: doorbell.split)
    then show ?thesis using dry empties_from_turn [OF assms(1)] by blast
  qed
qed

lemma empties_idle_any:
  assumes "calm b" and "br_drain b = Idle"
  shows "empties b"
proof (cases "br_wakes b = 0")
  case True
  with assms show ?thesis by (simp add: empties_idle)
next
  case False
  show ?thesis
  proof (rule empties_from_turn [OF assms(1)])
    assume "calm (loop_turn b)"
    then show "empties (loop_turn b)"
      by (rule empties_quiet) (use assms False in \<open>simp add: loop_turn_def wake_def calm_def\<close>)
  qed
qed

lemma empties_calm: "calm b \<Longrightarrow> empties b"
proof -
  have rearm: "empties b" if "calm b" "br_drain b = At_rearm" for b :: "'a bridge"
  proof (rule empties_from_turn [OF that(1)])
    assume "calm (loop_turn b)"
    with that(2) show "empties (loop_turn b)"
      by (cases "br_armed b") (simp_all add: empties_idle_any empties_take loop_turn_def)
  qed
  have recheck: "empties b" if "calm b" "br_drain b = At_recheck" for b :: "'a bridge"
  proof (rule empties_from_turn [OF that(1)])
    assume "calm (loop_turn b)"
    with that(2) show "empties (loop_turn b)"
      by (cases "br_queue b = []") (simp_all add: empties_idle_any rearm loop_turn_def)
  qed
  have disarm: "empties b" if "calm b" "br_drain b = At_disarm" for b :: "'a bridge"
    by (rule empties_from_turn [OF that(1)]) (use that(2) in \<open>simp add: recheck loop_turn_def\<close>)
  have deliver: "empties b" if "calm b" "br_drain b = At_deliver cs" for b :: "'a bridge" and cs
    using that
  proof (induction cs arbitrary: b)
    case Nil
    show ?case by (rule empties_from_turn [OF Nil(1)]) (use Nil(2) in \<open>simp add: empties_take loop_turn_def\<close>)
  next
    case (Cons c cs)
    show ?case by (rule empties_from_turn [OF Cons.prems(1)]) (use Cons in \<open>simp add: loop_turn_def\<close>)
  qed
  assume "calm b"
  then show "empties b"
    by (cases "br_drain b") (simp_all add: empties_idle_any empties_quiet empties_take deliver disarm recheck rearm)
qed

section \<open>A run to try it on\<close>

definition turn :: "nat \<Rightarrow> 'c bridge \<Rightarrow> 'c bridge" where
  "turn n b = (case complete_step (br_calls b ! n) b of (pc, b') \<Rightarrow> b'\<lparr>br_calls := (br_calls b')[n := pc]\<rparr>)"

lemma reach_turn: "bridge_reach bell b \<Longrightarrow> n < length (br_calls b) \<Longrightarrow> bridge_reach bell (turn n b)"
  unfolding turn_def by (cases "complete_step (br_calls b ! n) b") (auto intro: bridge_reach.step run)

lemma reach_start: "bridge_reach bell b \<Longrightarrow> bridge_reach bell (b\<lparr>br_calls := br_calls b @ [At_push c]\<rparr>)"
  by (rule bridge_reach.step [OF _ start])

lemma reach_drain: "bridge_reach bell b \<Longrightarrow> br_drain b \<noteq> Idle \<Longrightarrow> bridge_reach bell (drain_step (br_drain b) b)"
  by (rule bridge_reach.step [OF _ drain])

text \<open>Two completions pushed; the first call has rung, the second found the bridge armed.\<close>

definition two_pushed :: "nat bridge" where
  "two_pushed = \<lparr>br_queue = [7, 8], br_armed = True, br_bell = Pipe 4, br_wakes = 1, br_alive = True,
     br_open = True, br_calls = [At_return, At_return], br_drain = Idle, br_pushed = [7, 8],
     br_delivered = [], br_dropped = []\<rparr>"

lemma two_pushed_reach: "bridge_reach (Pipe 4) two_pushed"
proof -
  let ?b = "new_bridge (Pipe 4) :: nat bridge"
  let ?b1 = "?b\<lparr>br_calls := br_calls ?b @ [At_push 7]\<rparr>"
  let ?b2 = "?b1\<lparr>br_calls := br_calls ?b1 @ [At_push 8]\<rparr>"
  let ?b3 = "turn 1 (turn 1 (turn 0 (turn 0 (turn 0 (turn 0 ?b2)))))"
  have "bridge_reach (Pipe 4) ?b2" by (intro reach_start new)
  then have "bridge_reach (Pipe 4) ?b3"
    by (intro reach_turn) (simp_all add: turn_def new_bridge_def ring_pipe_def)
  moreover have "?b3 = two_pushed" by (simp add: turn_def new_bridge_def ring_pipe_def two_pushed_def)
  ultimately show ?thesis by simp
qed

section \<open>The properties\<close>

text \<open>
  C2: No wakeup is lost: while interpreter and loop live, whenever the drain is idle, the
  queue is not empty and no call of \<open>complete\<close> is between its push and its ring, the
  doorbell has been rung and the loop will run the drain.
\<close>

theorem no_lost_wakeup:
  assumes "bridge_reach bell b" and "bell_ok bell" and "br_alive b" and "br_open b"
    and "br_drain b = Idle" and "br_queue b \<noteq> []"
    and "\<forall>pc \<in> set (br_calls b). pc = At_return \<or> (\<exists>c. pc = At_push c)"
  shows "0 < br_wakes b"
proof (rule ccontr)
  assume "\<not> 0 < br_wakes b"
  moreover have "sum_list (map call_token (br_calls b)) = 0" using assms(7) by auto
  ultimately have "tokens b = 0" using assms(5) by (simp only: tokens_def bell_token_def) simp
  moreover have "bridge_ok b" using bridge_reach_inv [OF assms(1,2)] by (simp add: bridge_inv_def)
  moreover have "\<not> swapping b" using assms(7) by (auto simp: swapping_def)
  ultimately show False using assms(3-6) by (cases "br_armed b") (simp_all add: bridge_ok_def)
qed

theorem no_lost_wakeup_witness: "br_queue two_pushed \<noteq> [] \<and> 0 < br_wakes two_pushed"
  using no_lost_wakeup [OF two_pushed_reach] by (simp add: two_pushed_def bell_ok_def)

text \<open>
  A burst of completions costs one doorbell: at no time are there two wakes, rung or
  about to be rung, and while the drain takes and delivers nobody rings.
\<close>

lemma burst_rings_once:
  assumes "bridge_reach bell b" and "bell_ok bell"
  shows "br_wakes b + length (filter (\<lambda>pc. pc = At_alive \<or> pc = At_ring) (br_calls b)) \<le> 1 \<and>
    ((\<exists>cs. br_drain b = At_deliver cs) \<longrightarrow> At_ring \<notin> set (br_calls b))"
proof -
  have ok: "bridge_ok b" using bridge_reach_inv [OF assms] by (simp add: bridge_inv_def)
  have calls: "length (filter (\<lambda>pc. pc = At_alive \<or> pc = At_ring) cs) \<le> sum_list (map call_token cs)" for cs :: "'a completing list"
    by (induction cs) (auto intro: le_SucI)
  have le: "tokens b \<le> 1" and w: "br_wakes b \<le> 1" using ok by (cases "br_armed b"; simp add: bridge_ok_def)+
  have one: "br_wakes b + sum_list (map call_token (br_calls b)) \<le> 1"
  proof (cases "br_drain b = At_quiet")
    case True
    with le have "sum_list (map call_token (br_calls b)) = 0" by (simp add: tokens_def)
    with w show ?thesis by linarith
  next
    case False
    with le show ?thesis unfolding tokens_def bell_token_def by (simp only: if_False simp_thms)
  qed
  moreover have "At_ring \<notin> set (br_calls b)" if "br_drain b = At_deliver cs" for cs
  proof
    assume "At_ring \<in> set (br_calls b)"
    then obtain n where n: "n < length (br_calls b)" and at: "br_calls b ! n = At_ring" by (auto simp: in_set_conv_nth)
    from token_in_sum [OF n] at that le show False unfolding tokens_def by (simp del: sum_list_eq_0_iff)
  qed
  ultimately show ?thesis using calls [of "br_calls b"] by (auto simp del: sum_list_eq_0_iff intro: order.trans [OF add_left_mono])
qed

text \<open>
  While the loop lives, completions are delivered in the order in which they were
  pushed, each of them once; and at all times every completion pushed has been delivered,
  waits, or was dropped because the loop had closed.
\<close>

lemma delivered_in_order:
  assumes "bridge_reach bell b" and "bell_ok bell"
  shows "(br_open b \<longrightarrow> br_pushed b = br_delivered b @ batch (br_drain b) @ br_queue b) \<and>
    mset (br_pushed b) = mset (br_delivered b) + mset (batch (br_drain b)) + mset (br_queue b) + mset (br_dropped b)"
  using bridge_reach_inv [OF assms] by (simp add: bridge_inv_def in_order_def)

text \<open>
  C8: The queue, flag, doorbell and drain of a live loop refine a mailbox: every step of
  any thread either leaves the mailbox as it is, puts one completion at its end or delivers
  the one at its front.
\<close>

theorem bridge_refines_mailbox:
  assumes "bridge_reach bell b" and "bell_ok bell" and "bridge_step b b'" and "br_open b"
  shows "mailbox b' = mailbox b \<or> mailbox_step (mailbox b) (mailbox b')"
proof -
  have stale: "stale_closed b" using bridge_reach_inv [OF assms(1,2)] by (simp add: bridge_inv_def)
  from assms(3) show ?thesis
  proof (cases rule: bridge_step.cases)
    case (run n pc b1)
    have frame: "mailbox (b1\<lparr>br_calls := cs\<rparr>) = mailbox b1" for cs by (simp add: mailbox_def)
    from stale_closedD [OF stale run(2)] assms(4) have "br_calls b ! n \<noteq> At_take_stale" by auto
    then have "mailbox b1 = mailbox b \<or> mailbox_step (mailbox b) (mailbox b1)"
      using run(3) mailbox_step.put [of "br_delivered b" "batch (br_drain b) @ br_queue b"]
      by (cases "br_calls b ! n")
        (auto simp: mailbox_def ring_pipe_def ring_call_soon_def split: if_splits doorbell.splits)
    with run(1) show ?thesis by (simp add: frame)
  next
    case drain
    then show ?thesis
      using mailbox_step.get [of "br_delivered b"]
      by (cases "(br_drain b, b)" rule: drain_step.cases)
        (auto simp: mailbox_def quiet_step_def split: doorbell.splits)
  qed (auto simp: mailbox_def wake_def)
qed

theorem bridge_refines_mailbox_witness:
  "mailbox (two_pushed\<lparr>br_calls := br_calls two_pushed @ [At_push 9]\<rparr>) = mailbox two_pushed \<or>
   mailbox_step (mailbox two_pushed) (mailbox (two_pushed\<lparr>br_calls := br_calls two_pushed @ [At_push 9]\<rparr>))"
  using bridge_refines_mailbox [OF two_pushed_reach _ start] by (simp add: two_pushed_def bell_ok_def)

text \<open>
  C14: Once no call of \<open>complete\<close> is under way, the loop thread on its own, wherever its
  drain stands, comes to rest after finitely many steps with the queue empty, no wake left
  over, and everything pushed delivered.
\<close>

theorem drain_delivers_all:
  assumes "bridge_reach bell b" and "bell_ok bell" and "br_alive b" and "br_open b"
    and "set (br_calls b) \<subseteq> {At_return}"
  shows "\<exists>k. br_drain ((loop_turn ^^ k) b) = Idle \<and> br_queue ((loop_turn ^^ k) b) = [] \<and>
    br_wakes ((loop_turn ^^ k) b) = 0 \<and> br_delivered ((loop_turn ^^ k) b) = br_pushed b"
  using empties_calm [of b] bridge_reach_inv [OF assms(1,2)] assms(3-5) by (simp add: calm_def empties_def)

theorem drain_delivers_all_witness:
  "\<exists>k. br_delivered ((loop_turn ^^ k) two_pushed) = [7, 8]"
  using drain_delivers_all [OF two_pushed_reach] by (auto simp: two_pushed_def bell_ok_def)

end
