(* ===== verification/Futures.thy ===== *)
theory Futures
  imports Front_Correct Bridge_Correct
begin

text \<open>
  Where the driver, the completion queue and the futures meet.  \<open>backend\<close> states what the
  extension module relies on of a driver, whichever backend runs it: each op's callback is
  invoked at most once, and once it is idle exactly once, with a reply the op asked for.  From
  that and the delivery of one completion, \<open>Composition\<close> derives that every future settles.
\<close>

section \<open>A batch of completions\<close>

text \<open>A completion of an exported function's op that no continuation takes over.\<close>

definition plain_completion :: "completion \<Rightarrow> bool" where
  "plain_completion c \<longleftrightarrow> \<not> taken_over c \<and>
     (\<exists>e sb. request_of e = Inr sb \<and> cm_output c = sb_output sb \<and>
        (\<forall>r. cm_result c = Inr r \<longrightarrow> answers (sb_op sb) r))"

lemma deliver_plain:
  assumes "plain_completion c" and "futures s (cm_fut c) = Pending"
  shows "deliver call m c s = Some (s\<lparr>futures := (futures s)(cm_fut c := outcome m c)\<rparr>) \<and> outcome m c \<noteq> Pending"
  using assms deliver_one unfolding plain_completion_def by blast

section \<open>From callbacks to completions\<close>

text \<open>What the callbacks of the ops submitted from one loop push onto its bridge.\<close>

definition completions :: "(cb \<Rightarrow> pending_call) \<Rightarrow> nat \<Rightarrow> (cb \<times> reply io) list \<Rightarrow> completion list" where
  "completions calls key rs =
     map (\<lambda>(c, r). callback_of (calls c) r) (filter (\<lambda>(c, r). pc_loop (calls c) = key) rs)"

text \<open>
  The ops were submitted by exported functions, each with a callback and a future of its own,
  and without a continuation.
\<close>

definition from_exports :: "(cb \<Rightarrow> pending_call) \<Rightarrow> (cb \<times> op) list \<Rightarrow> bool" where
  "from_exports calls ops \<longleftrightarrow> distinct (map fst ops) \<and> inj_on (\<lambda>c. pc_fut (calls c)) (set (map fst ops)) \<and>
     (\<forall>(c, oper) \<in> set ops. \<exists>e sb. request_of e = Inr sb \<and> sb_op sb = oper \<and>
        pc_output (calls c) = sb_output sb \<and> (\<forall>h. sb_output sb \<noteq> Output_WholeFile (Some h)))"

lemma completions_futs: "map cm_fut (completions calls key rs) =
    map (\<lambda>c. pc_fut (calls c)) (filter (\<lambda>c. pc_loop (calls c) = key) (map fst rs))"
  by (induction rs) (auto simp: completions_def callback_of_def)

lemma distinct_if_count: "(\<And>x. count (mset xs) x \<le> 1) \<Longrightarrow> distinct xs"
proof (induction xs)
  case (Cons x xs)
  have "count (mset xs) y \<le> 1" for y by (rule order_trans [OF _ Cons.prems [of y]]) simp
  then have "distinct xs" by (rule Cons.IH)
  moreover have "x \<notin> set xs" using Cons.prems [of x] by (simp add: count_mset_0_iff)
  ultimately show ?case by simp
qed simp

lemma distinct_count: "distinct xs \<Longrightarrow> count (mset xs) x \<le> 1"
  by (simp add: distinct_count_atmost_1)

lemma completions_distinct:
  assumes "from_exports calls ops" and "mset (map fst rs) \<subseteq># mset (map fst ops)"
  shows "distinct (map cm_fut (completions calls key rs))"
proof -
  have "distinct (map fst ops)" using assms(1) by (simp add: from_exports_def)
  then have "count (mset (map fst rs)) c \<le> 1" for c
    using mset_subset_eq_count [OF assms(2), of c] distinct_count [of "map fst ops" c] by linarith
  then have "distinct (map fst rs)" by (rule distinct_if_count)
  moreover have "set (map fst rs) \<subseteq> set (map fst ops)" using assms(2) by (metis set_mset_mono set_mset_mset)
  moreover have "inj_on (\<lambda>c. pc_fut (calls c)) (set (map fst ops))" using assms(1) by (simp add: from_exports_def)
  ultimately have "inj_on (\<lambda>c. pc_fut (calls c)) (set (filter (\<lambda>c. pc_loop (calls c) = key) (map fst rs)))"
    by (elim inj_on_subset) auto
  with \<open>distinct (map fst rs)\<close> show ?thesis
    unfolding completions_futs by (simp add: distinct_map)
qed

section \<open>The contract\<close>

locale backend =
  fixes runs :: "'s \<Rightarrow> bool" and quiet :: "'s \<Rightarrow> bool"
    and asked_of :: "'s \<Rightarrow> (cb \<times> op) list" and replied :: "'s \<Rightarrow> (cb \<times> reply io) list"
  assumes at_most_once: "runs s \<Longrightarrow> mset (map fst (replied s)) \<subseteq># mset (map fst (asked_of s))"
    and all_once: "runs s \<Longrightarrow> quiet s \<Longrightarrow> mset (map fst (replied s)) = mset (map fst (asked_of s))"
    and as_asked: "runs s \<Longrightarrow> (c, Inr r) \<in> set (replied s) \<Longrightarrow>
      \<exists>oper. (c, oper) \<in> set (asked_of s) \<and> answers oper r"
begin

lemma replied_asked: "runs s \<Longrightarrow> (c, r) \<in> set (replied s) \<Longrightarrow> c \<in> set (map fst (asked_of s))"
  using at_most_once [of s] by (metis fst_conv in_set_zipE list.set_map mset_subset_eqD set_mset_mset image_eqI)

lemma completions_plain:
  assumes "runs s" and "from_exports calls (asked_of s)" and "c \<in> set (completions calls key (replied s))"
  shows "plain_completion c"
proof -
  from assms(3) obtain n r where n: "(n, r) \<in> set (replied s)" and c: "c = callback_of (calls n) r"
    by (auto simp: completions_def)
  from replied_asked [OF assms(1) n] obtain oper where oper: "(n, oper) \<in> set (asked_of s)" by auto
  with assms(2) obtain e sb where sb: "request_of e = Inr sb" "sb_op sb = oper" "pc_output (calls n) = sb_output sb"
    and free: "\<forall>h. sb_output sb \<noteq> Output_WholeFile (Some h)" unfolding from_exports_def by fastforce
  have "answers oper x" if "r = Inr x" for x
  proof -
    from as_asked [OF assms(1)] n that obtain oper' where "(n, oper') \<in> set (asked_of s)" "answers oper' x" by blast
    moreover have "distinct (map fst (asked_of s))" using assms(2) by (simp add: from_exports_def)
    ultimately show ?thesis using oper by (metis map_of_eq_Some_iff option.inject)
  qed
  with sb free c show ?thesis
    by (auto simp: plain_completion_def callback_of_def taken_over_def)
qed

end

end
