(* ===== verification/Composition.thy ===== *)
theory Composition
  imports Futures
begin

text \<open>
  The whole program: one backend, the completion queues of the event loops, and the futures.
  Every reply a backend gives is a callback that starts a call of \<open>complete\<close> on the bridge of
  the loop its op came from; what the loop's drain delivers settles a future.
\<close>

section \<open>The composition\<close>

text \<open>
  A backend as the rest of the program sees it: where it starts, its steps, the ops it was
  handed and the replies its callbacks were given, both in order.
\<close>

record 's backend_view =
  bk_start :: "'s \<Rightarrow> bool"
  bk_step :: "'s \<Rightarrow> 's \<Rightarrow> bool"
  bk_asked :: "'s \<Rightarrow> (cb \<times> op) list"
  bk_replied :: "'s \<Rightarrow> (cb \<times> reply io) list"

record 's program =
  pg_backend :: 's
  pg_calls :: "cb \<Rightarrow> pending_call"
  pg_bridges :: "nat \<Rightarrow> completion bridge"
  pg_py :: "unit py"

definition new_replies :: "'s backend_view \<Rightarrow> 's \<Rightarrow> 's \<Rightarrow> (cb \<times> reply io) list" where
  "new_replies B b b' = drop (length (bk_replied B b)) (bk_replied B b')"

definition start_calls ::
  "(cb \<Rightarrow> pending_call) \<Rightarrow> (cb \<times> reply io) list \<Rightarrow> (nat \<Rightarrow> completion bridge) \<Rightarrow> nat \<Rightarrow> completion bridge" where
  "start_calls calls rs br = (\<lambda>k. (br k)\<lparr>br_calls := br_calls (br k) @ map At_push (completions calls k rs)\<rparr>)"

text \<open>What the next step of the drain hands to \<open>deliver\<close>.\<close>

fun at_hand :: "'c draining \<Rightarrow> 'c list" where
  "at_hand (At_deliver (c # cs)) = [c]"
| "at_hand _ = []"

text \<open>
  \<open>submits\<close> is a call of an exported function whose op has no continuation, on the loop \<open>key\<close>,
  with a new callback and a new future; \<open>m\<close> is what memory holds when a reply is delivered.
\<close>

inductive prog_step :: "'s backend_view \<Rightarrow> unit hook \<Rightarrow> 's program \<Rightarrow> 's program \<Rightarrow> bool" for B hk where
  submits: "bk_step B (pg_backend s) b \<Longrightarrow> bk_asked B b = bk_asked B (pg_backend s) @ [(c, sb_op sb)] \<Longrightarrow>
    request_of e = Inr sb \<Longrightarrow> \<forall>h. sb_output sb \<noteq> Output_WholeFile (Some h) \<Longrightarrow>
    c \<notin> fst ` set (bk_asked B (pg_backend s)) \<Longrightarrow>
    \<forall>c' \<in> fst ` set (bk_asked B (pg_backend s)). pc_fut (pg_calls s c') \<noteq> fut \<Longrightarrow>
    calls = (pg_calls s)(c := \<lparr>pc_fut = fut, pc_loop = key, pc_output = sb_output sb, pc_owner = sb_owner sb\<rparr>) \<Longrightarrow>
    prog_step B hk s (s\<lparr>pg_backend := b, pg_calls := calls,
      pg_bridges := start_calls calls (new_replies B (pg_backend s) b) (pg_bridges s),
      pg_py := (pg_py s)\<lparr>futures := (futures (pg_py s))(fut := Pending)\<rparr>\<rparr>)"
| works: "bk_step B (pg_backend s) b \<Longrightarrow> bk_asked B b = bk_asked B (pg_backend s) \<Longrightarrow>
    prog_step B hk s (s\<lparr>pg_backend := b,
      pg_bridges := start_calls (pg_calls s) (new_replies B (pg_backend s) b) (pg_bridges s)\<rparr>)"
| completes: "n < length (br_calls (pg_bridges s k)) \<Longrightarrow>
    prog_step B hk s (s\<lparr>pg_bridges := (pg_bridges s)(k := turn n (pg_bridges s k))\<rparr>)"
| wakes: "br_open (pg_bridges s k) \<Longrightarrow> br_drain (pg_bridges s k) = Idle \<Longrightarrow> 0 < br_wakes (pg_bridges s k) \<Longrightarrow>
    prog_step B hk s (s\<lparr>pg_bridges := (pg_bridges s)(k := Bridge.wake (pg_bridges s k))\<rparr>)"
| drains: "br_drain (pg_bridges s k) \<noteq> Idle \<Longrightarrow>
    deliver_all hk m (at_hand (br_drain (pg_bridges s k))) (pg_py s) = Some p \<Longrightarrow>
    prog_step B hk s (s\<lparr>pg_bridges := (pg_bridges s)(k := drain_step (br_drain (pg_bridges s k)) (pg_bridges s k)),
      pg_py := p\<rparr>)"
| shuts_down: "prog_step B hk s (s\<lparr>pg_bridges := (\<lambda>k. shutdown (pg_bridges s k))\<rparr>)"
| closes: "br_drain (pg_bridges s k) = Idle \<Longrightarrow>
    prog_step B hk s (s\<lparr>pg_bridges := (pg_bridges s)(k := (pg_bridges s k)\<lparr>br_open := False\<rparr>)\<rparr>)"

inductive prog_reach :: "'s backend_view \<Rightarrow> unit hook \<Rightarrow> (nat \<Rightarrow> doorbell) \<Rightarrow> 's program \<Rightarrow> bool" for B hk bells where
  starts: "bk_start B b \<Longrightarrow> prog_reach B hk bells
    \<lparr>pg_backend = b, pg_calls = calls, pg_bridges = (\<lambda>k. new_bridge (bells k)), pg_py = p\<rparr>"
| step: "prog_reach B hk bells s \<Longrightarrow> prog_step B hk s s' \<Longrightarrow> prog_reach B hk bells s'"

section \<open>Callbacks on their way to a bridge\<close>

fun push_of :: "'c completing \<Rightarrow> 'c list" where
  "push_of (At_push c) = [c]"
| "push_of _ = []"

definition pushes :: "'c completing list \<Rightarrow> 'c list" where
  "pushes cs = concat (map push_of cs)"

lemma pushes_append [simp]: "pushes (xs @ ys) = pushes xs @ pushes ys"
  by (simp add: pushes_def)

lemma pushes_new [simp]: "pushes (map At_push cs) = cs"
  by (induction cs) (simp_all add: pushes_def)

lemma pushes_replace:
  "n < length cs \<Longrightarrow> mset (pushes (cs[n := pc])) + mset (push_of (cs ! n)) = mset (pushes cs) + mset (push_of pc)"
proof (induction cs arbitrary: n)
  case (Cons x xs)
  show ?case
  proof (cases n)
    case (Suc k)
    with Cons.IH [of k] Cons.prems show ?thesis by (simp add: pushes_def)
  qed (simp add: pushes_def)
qed simp

text \<open>What has come to a bridge from callbacks, pushed or not yet.\<close>

definition arrived :: "'c bridge \<Rightarrow> 'c multiset" where
  "arrived b = mset (br_pushed b) + mset (pushes (br_calls b))"

lemma complete_step_pushes:
  "complete_step pc b = (pc', b') \<Longrightarrow>
     mset (br_pushed b') + mset (push_of pc') = mset (br_pushed b) + mset (push_of pc)"
  by (cases pc) (auto simp: ring_pipe_def ring_call_soon_def split: if_splits doorbell.splits)

lemma turn_frame:
  assumes "n < length (br_calls b)"
  shows "arrived (turn n b) = arrived b \<and> br_delivered (turn n b) = br_delivered b \<and> br_alive (turn n b) = br_alive b \<and>
    br_open (turn n b) = br_open b \<and> br_drain (turn n b) = br_drain b"
proof -
  obtain pc b' where step: "complete_step (br_calls b ! n) b = (pc, b')" by (cases "complete_step (br_calls b ! n) b")
  note frame = complete_step_frame [OF step]
  let ?old = "mset (push_of (br_calls b ! n))" and ?new = "mset (push_of pc)" and ?cs = "mset (pushes ((br_calls b)[n := pc]))"
  have "(mset (br_pushed b') + ?new) + (?cs + ?old) = (mset (br_pushed b) + ?old) + (mset (pushes (br_calls b)) + ?new)"
    unfolding complete_step_pushes [OF step] pushes_replace [OF assms] ..
  then have "(mset (br_pushed b') + ?cs) + (?old + ?new) = (mset (br_pushed b) + mset (pushes (br_calls b))) + (?old + ?new)"
    by (simp only: ac_simps)
  then have "mset (br_pushed b') + ?cs = mset (br_pushed b) + mset (pushes (br_calls b))"
    by (simp only: add_right_cancel)
  with step frame show ?thesis by (simp add: turn_def arrived_def)
qed

lemma drain_step_arrived: "arrived (drain_step d b) = arrived b"
  using drain_step_frame [of d b] by (simp add: arrived_def)

lemma drain_step_delivered: "br_delivered (drain_step (br_drain b) b) = br_delivered b @ at_hand (br_drain b)"
  by (cases "(br_drain b, b)" rule: drain_step.cases) (auto simp: quiet_step_def split: doorbell.splits)

lemma reach_starts: "bridge_reach bell b \<Longrightarrow> bridge_reach bell (b\<lparr>br_calls := br_calls b @ map At_push cs\<rparr>)"
proof (induction cs rule: rev_induct)
  case (snoc c cs)
  from reach_start [OF snoc.IH [OF snoc.prems], of c] show ?case by simp
qed simp

lemma arrived_starts: "arrived (b\<lparr>br_calls := br_calls b @ map At_push cs\<rparr>) = arrived b + mset cs"
  by (simp add: arrived_def)

lemma delivered_arrived:
  assumes "bridge_reach bell b" and "bell_ok bell"
  shows "mset (br_delivered b @ batch (br_drain b)) \<subseteq># arrived b"
  using delivered_in_order [OF assms] by (simp add: arrived_def ac_simps subset_eq_diff_conv)

section \<open>The books of the program\<close>

definition books_ok :: "'s backend_view \<Rightarrow> (nat \<Rightarrow> doorbell) \<Rightarrow> 's program \<Rightarrow> bool" where
  "books_ok B bells s \<longleftrightarrow> from_exports (pg_calls s) (bk_asked B (pg_backend s)) \<and>
     (\<forall>k. bridge_reach (bells k) (pg_bridges s k) \<and>
        arrived (pg_bridges s k) = mset (completions (pg_calls s) k (bk_replied B (pg_backend s))))"

text \<open>The future of op \<open>c\<close> has what a reply to that op stands for.\<close>

definition settled_by :: "'s backend_view \<Rightarrow> 's program \<Rightarrow> cb \<Rightarrow> bool" where
  "settled_by B s c \<longleftrightarrow> (\<exists>m r. (c, r) \<in> set (bk_replied B (pg_backend s)) \<and>
     futures (pg_py s) (pc_fut (pg_calls s c)) = outcome m (callback_of (pg_calls s c) r) \<and>
     outcome m (callback_of (pg_calls s c) r) \<noteq> Pending)"

definition delivered_to :: "'s program \<Rightarrow> cb \<Rightarrow> bool" where
  "delivered_to s c \<longleftrightarrow> pc_fut (pg_calls s c) \<in> cm_fut ` set (br_delivered (pg_bridges s (pc_loop (pg_calls s c))))"

definition futures_ok :: "'s backend_view \<Rightarrow> 's program \<Rightarrow> bool" where
  "futures_ok B s \<longleftrightarrow> (\<forall>c \<in> fst ` set (bk_asked B (pg_backend s)).
     (delivered_to s c \<longrightarrow> settled_by B s c) \<and>
     (\<not> delivered_to s c \<longrightarrow> futures (pg_py s) (pc_fut (pg_calls s c)) = Pending))"

lemma completions_append: "completions calls k (rs @ rs') = completions calls k rs @ completions calls k rs'"
  by (simp add: completions_def)

lemma completions_mem: "d \<in> set (completions calls k rs) \<longleftrightarrow>
    (\<exists>c r. (c, r) \<in> set rs \<and> pc_loop (calls c) = k \<and> d = callback_of (calls c) r)"
  by (auto simp: completions_def)

lemma from_exports_inj_on: "from_exports calls ops \<Longrightarrow> inj_on (\<lambda>c. pc_fut (calls c)) (fst ` set ops)"
  unfolding from_exports_def by simp

lemma from_exports_entry: "from_exports calls ops \<Longrightarrow> (c, oper) \<in> set ops \<Longrightarrow>
    \<exists>e sb. request_of e = Inr sb \<and> sb_op sb = oper \<and> pc_output (calls c) = sb_output sb \<and>
      (\<forall>h. sb_output sb \<noteq> Output_WholeFile (Some h))"
  unfolding from_exports_def by (drule conjunct2, drule conjunct2, drule (1) bspec) simp

lemma from_exports_inj:
  "from_exports calls ops \<Longrightarrow> c \<in> fst ` set ops \<Longrightarrow> c' \<in> fst ` set ops \<Longrightarrow> pc_fut (calls c) = pc_fut (calls c') \<Longrightarrow> c = c'"
  by (blast dest: from_exports_inj_on inj_onD)

lemma from_exports_snoc:
  assumes "from_exports calls ops" and "request_of e = Inr sb" and "\<forall>h. sb_output sb \<noteq> Output_WholeFile (Some h)"
    and "c \<notin> fst ` set ops" and "\<forall>c' \<in> fst ` set ops. pc_fut (calls c') \<noteq> pc_fut x" and "pc_output x = sb_output sb"
  shows "from_exports (calls(c := x)) (ops @ [(c, sb_op sb)])" (is "from_exports ?calls ?ops")
proof -
  have "distinct (map fst ops)" using assms(1) unfolding from_exports_def by simp
  with assms(4) have unlike: "distinct (map fst ?ops)" by simp
  have "inj_on (\<lambda>c. pc_fut (?calls c)) (fst ` set ops) = inj_on (\<lambda>c. pc_fut (calls c)) (fst ` set ops)"
    using assms(4) by (intro inj_on_cong) auto
  with from_exports_inj_on [OF assms(1)] have old: "inj_on (\<lambda>c. pc_fut (?calls c)) (fst ` set ops)" by blast
  have "pc_fut x \<notin> (\<lambda>c. pc_fut (?calls c)) ` (fst ` set ops)" using assms(4,5) by (force split: if_splits)
  with old have "inj_on (\<lambda>c. pc_fut (?calls c)) (set (map fst ?ops))" using assms(4) by (simp add: inj_on_insert)
  moreover have "\<exists>e sb. request_of e = Inr sb \<and> sb_op sb = oper \<and> pc_output (?calls c') = sb_output sb \<and>
      (\<forall>h. sb_output sb \<noteq> Output_WholeFile (Some h))" if "(c', oper) \<in> set ?ops" for c' oper
  proof (cases "(c', oper) \<in> set ops")
    case True
    then have "c' \<noteq> c" using assms(4) by force
    with from_exports_entry [OF assms(1) True] show ?thesis by simp
  next
    case False
    with that have "c' = c" "oper = sb_op sb" by auto
    with assms(2,3,6) show ?thesis by (intro exI [of _ e] exI [of _ sb]) simp
  qed
  ultimately show ?thesis using unlike unfolding from_exports_def by blast
qed

lemma start_calls_reach: "bridge_reach (bells k) (br k) \<Longrightarrow> bridge_reach (bells k) (start_calls calls rs br k)"
  by (simp add: start_calls_def reach_starts)

lemma start_calls_arrived: "arrived (start_calls calls rs br k) = arrived (br k) + mset (completions calls k rs)"
  by (simp add: start_calls_def arrived_starts)

lemma start_calls_delivered [simp]: "br_delivered (start_calls calls rs br k) = br_delivered (br k)"
  by (simp add: start_calls_def)

locale program = backend runs quiet "bk_asked B" "bk_replied B"
  for runs quiet :: "'s \<Rightarrow> bool" and B :: "'s backend_view" +
  fixes env :: bool
  assumes start_runs: "env \<Longrightarrow> bk_start B b \<Longrightarrow> runs b \<and> bk_asked B b = [] \<and> bk_replied B b = []"
    and step_runs: "runs b \<Longrightarrow> bk_step B b b' \<Longrightarrow> runs b'"
    and step_replies: "runs b \<Longrightarrow> bk_step B b b' \<Longrightarrow> \<exists>rs. bk_replied B b' = bk_replied B b @ rs"
begin

lemma replied_known: "runs b \<Longrightarrow> (c, r) \<in> set (bk_replied B b) \<Longrightarrow> c \<in> fst ` set (bk_asked B b)"
  using replied_asked by auto

lemma new_replies_eq: "runs b \<Longrightarrow> bk_step B b b' \<Longrightarrow> bk_replied B b' = bk_replied B b @ new_replies B b b'"
  using step_replies unfolding new_replies_def by fastforce

text \<open>A step of the backend, after which op \<open>c\<close> may be new.\<close>

lemma books_backend:
  assumes "books_ok B bells s" and "runs (pg_backend s)" and "bk_step B (pg_backend s) b"
    and "from_exports calls (bk_asked B b)" and "\<forall>c \<in> fst ` set (bk_asked B (pg_backend s)). calls c = pg_calls s c"
  shows "books_ok B bells (s\<lparr>pg_backend := b, pg_calls := calls,
      pg_bridges := start_calls calls (new_replies B (pg_backend s) b) (pg_bridges s), pg_py := p\<rparr>)"
proof -
  have "completions calls k (bk_replied B (pg_backend s)) = completions (pg_calls s) k (bk_replied B (pg_backend s))" for k
    unfolding completions_def
    using assms(5) replied_known [OF assms(2)] by (intro map_cong filter_cong) fastforce+
  with assms(1,4) show ?thesis
    by (simp add: books_ok_def start_calls_reach start_calls_arrived new_replies_eq [OF assms(2,3)] completions_append)
qed

lemma futures_backend:
  assumes "futures_ok B s" and "runs (pg_backend s)" and "bk_step B (pg_backend s) b"
    and "\<forall>c \<in> fst ` set (bk_asked B (pg_backend s)). calls c = pg_calls s c \<and>
      futures p (pc_fut (calls c)) = futures (pg_py s) (pc_fut (calls c))"
    and "\<forall>c \<in> fst ` set (bk_asked B b) - fst ` set (bk_asked B (pg_backend s)).
      futures p (pc_fut (calls c)) = Pending \<and>
      pc_fut (calls c) \<notin> cm_fut ` set (br_delivered (pg_bridges s (pc_loop (calls c))))"
  shows "futures_ok B (s\<lparr>pg_backend := b, pg_calls := calls,
      pg_bridges := start_calls calls (new_replies B (pg_backend s) b) (pg_bridges s), pg_py := p\<rparr>)" (is "futures_ok B ?s")
  unfolding futures_ok_def
proof
  fix c
  assume c: "c \<in> fst ` set (bk_asked B (pg_backend ?s))"
  show "(delivered_to ?s c \<longrightarrow> settled_by B ?s c) \<and> (\<not> delivered_to ?s c \<longrightarrow> futures (pg_py ?s) (pc_fut (pg_calls ?s c)) = Pending)"
  proof (cases "c \<in> fst ` set (bk_asked B (pg_backend s))")
    case True
    with assms(4) have same: "calls c = pg_calls s c" "futures p (pc_fut (pg_calls s c)) = futures (pg_py s) (pc_fut (pg_calls s c))"
      by auto
    have "settled_by B s c \<Longrightarrow> settled_by B ?s c"
      using same new_replies_eq [OF assms(2,3)] by (auto simp: settled_by_def)
    moreover have "delivered_to ?s c = delivered_to s c" using same by (simp add: delivered_to_def)
    ultimately show ?thesis using assms(1) True same unfolding futures_ok_def by auto
  next
    case False
    with c assms(5) show ?thesis by (auto simp: delivered_to_def)
  qed
qed

lemma delivered_known:
  assumes "books_ok B bells s" and "runs (pg_backend s)" and "bell_ok (bells k)"
    and "d \<in> set (br_delivered (pg_bridges s k) @ batch (br_drain (pg_bridges s k)))"
  shows "\<exists>c r. (c, r) \<in> set (bk_replied B (pg_backend s)) \<and> c \<in> fst ` set (bk_asked B (pg_backend s)) \<and>
    pc_loop (pg_calls s c) = k \<and> d = callback_of (pg_calls s c) r"
proof -
  let ?b = "pg_bridges s k"
  from assms(1) have reach: "bridge_reach (bells k) ?b"
    and arr: "arrived ?b = mset (completions (pg_calls s) k (bk_replied B (pg_backend s)))" by (simp_all add: books_ok_def)
  from assms(4) have "d \<in># mset (br_delivered ?b @ batch (br_drain ?b))" by simp
  with mset_subset_eqD [OF delivered_arrived [OF reach assms(3)]] arr
  have "d \<in> set (completions (pg_calls s) k (bk_replied B (pg_backend s)))" by (metis set_mset_mset)
  then show ?thesis using replied_known [OF assms(2)] unfolding completions_mem by blast
qed

text \<open>What the drain delivers next: a reply to an op whose future nobody has settled.\<close>

lemma next_delivery:
  assumes "books_ok B bells s" and "futures_ok B s" and "runs (pg_backend s)" and "bell_ok (bells k)"
    and "br_drain (pg_bridges s k) = At_deliver (d # ds)"
  shows "\<exists>c r. (c, r) \<in> set (bk_replied B (pg_backend s)) \<and> c \<in> fst ` set (bk_asked B (pg_backend s)) \<and>
    pc_loop (pg_calls s c) = k \<and> d = callback_of (pg_calls s c) r \<and> \<not> delivered_to s c \<and>
    futures (pg_py s) (pc_fut (pg_calls s c)) = Pending \<and> plain_completion d"
proof -
  let ?b = "pg_bridges s k" and ?rs = "bk_replied B (pg_backend s)"
  have "d \<in> set (br_delivered ?b @ batch (br_drain ?b))" using assms(5) by simp
  from delivered_known [OF assms(1,3,4) this] obtain c r where cr: "(c, r) \<in> set ?rs"
    "c \<in> fst ` set (bk_asked B (pg_backend s))" "pc_loop (pg_calls s c) = k" "d = callback_of (pg_calls s c) r" by blast
  from assms(1) have exports: "from_exports (pg_calls s) (bk_asked B (pg_backend s))"
    and reach: "bridge_reach (bells k) ?b" and arr: "arrived ?b = mset (completions (pg_calls s) k ?rs)"
    by (simp_all add: books_ok_def)
  have "distinct (map cm_fut (completions (pg_calls s) k ?rs))"
    using completions_distinct [OF exports] at_most_once [OF assms(3)] by simp
  moreover have "mset (map cm_fut (br_delivered ?b @ batch (br_drain ?b))) \<subseteq>#
      mset (map cm_fut (completions (pg_calls s) k ?rs))"
    using image_mset_subseteq_mono [OF delivered_arrived [OF reach assms(4)], of cm_fut] arr by simp
  ultimately have "distinct (map cm_fut (br_delivered ?b @ batch (br_drain ?b)))"
    by (metis distinct_count distinct_if_count mset_subset_eq_count order_trans)
  then have "cm_fut d \<notin> cm_fut ` set (br_delivered ?b)" using assms(5) by auto
  then have fresh: "\<not> delivered_to s c" using cr(3,4) by (simp add: delivered_to_def callback_of_def)
  with assms(2) cr(2) have "futures (pg_py s) (pc_fut (pg_calls s c)) = Pending" unfolding futures_ok_def by blast
  moreover have "plain_completion d"
    using completions_plain [OF assms(3) exports, of d k] cr by (auto simp: completions_mem)
  ultimately show ?thesis using cr fresh by blast
qed

lemma futures_drain:
  assumes "books_ok B bells s" and "futures_ok B s" and "runs (pg_backend s)" and "bell_ok (bells k)"
    and "deliver_all hk m (at_hand (br_drain (pg_bridges s k))) (pg_py s) = Some p"
  shows "futures_ok B (s\<lparr>pg_bridges := (pg_bridges s)(k := drain_step (br_drain (pg_bridges s k)) (pg_bridges s k)),
      pg_py := p\<rparr>)" (is "futures_ok B ?s")
proof (cases "at_hand (br_drain (pg_bridges s k))")
  case Nil
  then have "delivered_to ?s c = delivered_to s c" "settled_by B ?s c = settled_by B s c" for c
    using assms(5) by (auto simp: delivered_to_def settled_by_def drain_step_delivered)
  with assms(2,5) Nil show ?thesis by (simp add: futures_ok_def)
next
  case (Cons d rest)
  then obtain ds where drain: "br_drain (pg_bridges s k) = At_deliver (d # ds)" and "rest = []"
    by (cases "br_drain (pg_bridges s k)" rule: at_hand.cases) auto
  from next_delivery [OF assms(1-4) drain] obtain n r where n: "(n, r) \<in> set (bk_replied B (pg_backend s))"
    "n \<in> fst ` set (bk_asked B (pg_backend s))" "pc_loop (pg_calls s n) = k" "d = callback_of (pg_calls s n) r"
    "futures (pg_py s) (pc_fut (pg_calls s n)) = Pending" "plain_completion d" by blast
  have fut: "cm_fut d = pc_fut (pg_calls s n)" using n(4) by (simp add: callback_of_def)
  from deliver_plain [OF n(6), of "pg_py s" hk m] n(5) fut assms(5) Cons \<open>rest = []\<close>
  have p: "p = (pg_py s)\<lparr>futures := (futures (pg_py s))(cm_fut d := outcome m d)\<rparr>" and settled: "outcome m d \<noteq> Pending"
    by simp_all
  show ?thesis unfolding futures_ok_def
  proof
    fix c
    assume "c \<in> fst ` set (bk_asked B (pg_backend ?s))"
    then have c: "c \<in> fst ` set (bk_asked B (pg_backend s))" by simp
    show "(delivered_to ?s c \<longrightarrow> settled_by B ?s c) \<and> (\<not> delivered_to ?s c \<longrightarrow> futures (pg_py ?s) (pc_fut (pg_calls ?s c)) = Pending)"
    proof (cases "c = n")
      case True
      then have "delivered_to ?s c" using n(3) fut by (simp add: delivered_to_def drain_step_delivered drain)
      moreover have "settled_by B ?s c" using True n(1,4) p settled fut by (auto simp: settled_by_def)
      ultimately show ?thesis by blast
    next
      case False
      have "pc_fut (pg_calls s c) \<noteq> cm_fut d"
        using from_exports_inj [OF _ c n(2)] assms(1) False fut by (auto simp: books_ok_def)
      then have "delivered_to ?s c = delivered_to s c" "settled_by B ?s c = settled_by B s c"
        "futures p (pc_fut (pg_calls s c)) = futures (pg_py s) (pc_fut (pg_calls s c))"
        using p by (auto simp: delivered_to_def settled_by_def drain_step_delivered drain)
      with assms(2) c show ?thesis unfolding futures_ok_def by auto
    qed
  qed
qed

lemma books_bridge:
  assumes "books_ok B bells s" and "bridge_reach (bells k) b" and "arrived b = arrived (pg_bridges s k)"
  shows "books_ok B bells (s\<lparr>pg_bridges := (pg_bridges s)(k := b), pg_py := p\<rparr>)"
  using assms by (auto simp: books_ok_def)

lemma futures_bridge:
  assumes "futures_ok B s" and "\<forall>k. br_delivered (br k) = br_delivered (pg_bridges s k)"
  shows "futures_ok B (s\<lparr>pg_bridges := br\<rparr>)"
proof -
  have "delivered_to (s\<lparr>pg_bridges := br\<rparr>) c = delivered_to s c" "settled_by B (s\<lparr>pg_bridges := br\<rparr>) c = settled_by B s c" for c
    using assms(2) by (simp_all add: delivered_to_def settled_by_def)
  with assms(1) show ?thesis by (simp add: futures_ok_def)
qed

lemma inv_submits:
  assumes "books_ok B bells s" and "futures_ok B s" and "runs (pg_backend s)" and "\<forall>k. bell_ok (bells k)"
    and "bk_step B (pg_backend s) b" and "bk_asked B b = bk_asked B (pg_backend s) @ [(c, sb_op sb)]"
    and "request_of e = Inr sb" and "\<forall>h. sb_output sb \<noteq> Output_WholeFile (Some h)"
    and "c \<notin> fst ` set (bk_asked B (pg_backend s))"
    and "\<forall>c' \<in> fst ` set (bk_asked B (pg_backend s)). pc_fut (pg_calls s c') \<noteq> pc_fut x" and "pc_output x = sb_output sb"
    and "calls = (pg_calls s)(c := x)"
  shows "books_ok B bells (s\<lparr>pg_backend := b, pg_calls := calls,
        pg_bridges := start_calls calls (new_replies B (pg_backend s) b) (pg_bridges s),
        pg_py := (pg_py s)\<lparr>futures := (futures (pg_py s))(pc_fut x := Pending)\<rparr>\<rparr>) \<and>
    futures_ok B (s\<lparr>pg_backend := b, pg_calls := calls,
        pg_bridges := start_calls calls (new_replies B (pg_backend s) b) (pg_bridges s),
        pg_py := (pg_py s)\<lparr>futures := (futures (pg_py s))(pc_fut x := Pending)\<rparr>\<rparr>)"
proof (intro conjI books_backend futures_backend assms(1-3,5))
  from assms(1) have "from_exports (pg_calls s) (bk_asked B (pg_backend s))" by (simp add: books_ok_def)
  from from_exports_snoc [OF this assms(7-11)] show "from_exports calls (bk_asked B b)" by (simp add: assms(6,12))
  show "\<forall>c \<in> fst ` set (bk_asked B (pg_backend s)). calls c = pg_calls s c" using assms(9,12) by auto
  show "\<forall>c \<in> fst ` set (bk_asked B (pg_backend s)). calls c = pg_calls s c \<and>
      futures ((pg_py s)\<lparr>futures := (futures (pg_py s))(pc_fut x := Pending)\<rparr>) (pc_fut (calls c)) =
      futures (pg_py s) (pc_fut (calls c))" using assms(9,10,12) by auto
  have "pc_fut x \<notin> cm_fut ` set (br_delivered (pg_bridges s (pc_loop x)))"
  proof
    assume "pc_fut x \<in> cm_fut ` set (br_delivered (pg_bridges s (pc_loop x)))"
    then obtain d where "d \<in> set (br_delivered (pg_bridges s (pc_loop x)))" and fut: "pc_fut x = cm_fut d" by auto
    with delivered_known [OF assms(1,3), of "pc_loop x" d] assms(4) obtain c' r
      where "c' \<in> fst ` set (bk_asked B (pg_backend s))" "d = callback_of (pg_calls s c') r" by auto
    with assms(10) fut show False by (auto simp: callback_of_def)
  qed
  then show "\<forall>c \<in> fst ` set (bk_asked B b) - fst ` set (bk_asked B (pg_backend s)).
      futures ((pg_py s)\<lparr>futures := (futures (pg_py s))(pc_fut x := Pending)\<rparr>) (pc_fut (calls c)) = Pending \<and>
      pc_fut (calls c) \<notin> cm_fut ` set (br_delivered (pg_bridges s (pc_loop (calls c))))"
    by (auto simp: assms(6,12))
qed

lemma inv_works:
  assumes "books_ok B bells s" and "futures_ok B s" and "runs (pg_backend s)"
    and "bk_step B (pg_backend s) b" and "bk_asked B b = bk_asked B (pg_backend s)"
  shows "books_ok B bells (s\<lparr>pg_backend := b,
        pg_bridges := start_calls (pg_calls s) (new_replies B (pg_backend s) b) (pg_bridges s)\<rparr>) \<and>
    futures_ok B (s\<lparr>pg_backend := b,
        pg_bridges := start_calls (pg_calls s) (new_replies B (pg_backend s) b) (pg_bridges s)\<rparr>)"
proof -
  from assms(1,5) have exports: "from_exports (pg_calls s) (bk_asked B b)" by (simp add: books_ok_def)
  from books_backend [OF assms(1,3,4) exports, of "pg_py s"] futures_backend [OF assms(2-4), of "pg_calls s" "pg_py s"] assms(5)
  show ?thesis by simp
qed

lemma prog_inv:
  assumes "prog_reach B hk bells s" and "env \<and> (\<forall>k. bell_ok (bells k))"
  shows "runs (pg_backend s) \<and> books_ok B bells s \<and> futures_ok B s"
  using assms(1)
proof (induction rule: prog_reach.induct)
  case (starts b calls p)
  from start_runs [OF _ starts] assms(2) show ?case
    by (auto simp: books_ok_def futures_ok_def from_exports_def completions_def arrived_def new_bridge_def pushes_def
        intro: bridge_reach.new [unfolded new_bridge_def])
next
  case (step s s')
  then have run: "runs (pg_backend s)" and books: "books_ok B bells s" and futs: "futures_ok B s" by simp_all
  then have reach: "bridge_reach (bells k) (pg_bridges s k)" for k by (simp add: books_ok_def)
  from step(2) show ?case
  proof (cases rule: prog_step.cases)
    case (submits b c sb e fut calls key)
    with inv_submits [OF books futs run conjunct2 [OF assms(2)] submits(2-6), of "\<lparr>pc_fut = fut, pc_loop = key, pc_output = sb_output sb,
        pc_owner = sb_owner sb\<rparr>" calls] step_runs [OF run submits(2)] show ?thesis by simp
  next
    case (works b)
    with inv_works [OF books futs run works(2,3)] step_runs [OF run works(2)] show ?thesis by simp
  next
    case (completes n k)
    have "books_ok B bells s'"
      using books_bridge [OF books reach_turn [OF reach completes(2)], of "pg_py s"] turn_frame [OF completes(2)] completes(1)
      by simp
    with futures_bridge [OF futs, of "(pg_bridges s)(k := turn n (pg_bridges s k))"] turn_frame [OF completes(2)] completes(1) run
    show ?thesis by simp
  next
    case (wakes k)
    have "bridge_reach (bells k) (Bridge.wake (pg_bridges s k))"
      using reach wakes(2-4) by (blast intro: bridge_reach.step bridge_step.awake)
    with books_bridge [OF books this, of "pg_py s"] futures_bridge [OF futs, of "(pg_bridges s)(k := Bridge.wake (pg_bridges s k))"]
      wakes(1) run show ?thesis by (simp add: Bridge.wake_def arrived_def)
  next
    case (drains k m p)
    from books_bridge [OF books reach_drain [OF reach drains(2)], of p] futures_drain [OF books futs run _ drains(3)]
      assms(2) drains(1) run show ?thesis by (simp add: drain_step_arrived)
  next
    case shuts_down
    have "bridge_reach (bells k) (shutdown (pg_bridges s k))" for k
      using reach by (blast intro: bridge_reach.step bridge_step.shuts_down)
    with books have "books_ok B bells s'" unfolding shuts_down books_ok_def by (simp add: arrived_def)
    with futures_bridge [OF futs, of "\<lambda>k. shutdown (pg_bridges s k)"] shuts_down run show ?thesis by simp
  next
    case (closes k)
    have "bridge_reach (bells k) ((pg_bridges s k)\<lparr>br_open := False\<rparr>)"
      using reach closes(2) by (blast intro: bridge_reach.step bridge_step.close_loop)
    with books_bridge [OF books this, of "pg_py s"] futures_bridge [OF futs, of "(pg_bridges s)(k := (pg_bridges s k)\<lparr>br_open := False\<rparr>)"]
      closes(1) run show ?thesis by (simp add: arrived_def)
  qed
qed

lemma safe:
  assumes "prog_reach B hk bells s" and "env \<and> (\<forall>k. bell_ok (bells k))" and "c \<in> fst ` set (bk_asked B (pg_backend s))"
  shows "futures (pg_py s) (pc_fut (pg_calls s c)) = Pending \<or> settled_by B s c"
  using prog_inv [OF assms(1,2)] assms(3) unfolding futures_ok_def by blast

lemma safe_typed:
  assumes "prog_reach B hk bells s" and "env \<and> (\<forall>k. bell_ok (bells k))" and "(c, oper) \<in> set (bk_asked B (pg_backend s))"
  shows "futures (pg_py s) (pc_fut (pg_calls s c)) = Pending \<or>
    (\<exists>m r. (c, r) \<in> set (bk_replied B (pg_backend s)) \<and> (\<forall>x. r = Inr x \<longrightarrow> answers oper x) \<and>
       futures (pg_py s) (pc_fut (pg_calls s c)) = outcome m (callback_of (pg_calls s c) r))"
proof -
  from assms(3) have "c \<in> fst ` set (bk_asked B (pg_backend s))" by force
  from safe [OF assms(1,2) this] show ?thesis
  proof
    assume "settled_by B s c"
    then obtain m r where r: "(c, r) \<in> set (bk_replied B (pg_backend s))"
      "futures (pg_py s) (pc_fut (pg_calls s c)) = outcome m (callback_of (pg_calls s c) r)" by (auto simp: settled_by_def)
    have "distinct (map fst (bk_asked B (pg_backend s)))"
      using prog_inv [OF assms(1,2)] unfolding books_ok_def from_exports_def by blast
    with as_asked [of "pg_backend s" c] prog_inv [OF assms(1,2)] r(1) assms(3)
    have "\<forall>x. r = Inr x \<longrightarrow> answers oper x" by (metis map_of_eq_Some_iff option.inject)
    with r show ?thesis by blast
  qed blast
qed

end

section \<open>The program comes to rest\<close>

text \<open>From \<open>s\<close> to \<open>s'\<close> only the loop \<open>k\<close> and futures have moved.\<close>

definition at_loop :: "nat \<Rightarrow> 's program \<Rightarrow> 's program \<Rightarrow> bool" where
  "at_loop k s s' \<longleftrightarrow> pg_backend s' = pg_backend s \<and> pg_calls s' = pg_calls s \<and>
     (\<forall>j. j \<noteq> k \<longrightarrow> pg_bridges s' j = pg_bridges s j) \<and> arrived (pg_bridges s' k) = arrived (pg_bridges s k) \<and>
     br_alive (pg_bridges s' k) = br_alive (pg_bridges s k) \<and> br_open (pg_bridges s' k) = br_open (pg_bridges s k)"

lemma at_loop_refl [simp]: "at_loop k s s"
  by (simp add: at_loop_def)

lemma at_loop_trans: "at_loop k s s1 \<Longrightarrow> at_loop k s1 s2 \<Longrightarrow> at_loop k s s2"
  by (simp add: at_loop_def)

lemma reach_steps: "prog_reach B hk bells s \<Longrightarrow> (prog_step B hk)\<^sup>*\<^sup>* s s' \<Longrightarrow> prog_reach B hk bells s'"
  by (rotate_tac, induction rule: rtranclp_induct) (auto intro: prog_reach.step)

text \<open>Every call of \<open>complete\<close> returns.\<close>

fun to_go :: "'c completing \<Rightarrow> nat" where
  "to_go (At_push c) = 6"
| "to_go At_swap = 5"
| "to_go At_alive = 4"
| "to_go At_ring = 3"
| "to_go At_take_stale = 2"
| "to_go At_disarm_stale = 1"
| "to_go At_return = 0"

lemma complete_step_to_go: "complete_step pc b = (pc', b') \<Longrightarrow> pc \<noteq> At_return \<Longrightarrow> to_go pc' < to_go pc"
  by (cases pc) (auto simp: ring_pipe_def ring_call_soon_def split: if_splits doorbell.splits)

lemma turn_to_go:
  assumes "n < length (br_calls b)" and "br_calls b ! n \<noteq> At_return"
  shows "sum_list (map to_go (br_calls (turn n b))) < sum_list (map to_go (br_calls b))"
proof -
  obtain pc b' where step: "complete_step (br_calls b ! n) b = (pc, b')" by (cases "complete_step (br_calls b ! n) b")
  from complete_step_to_go [OF step assms(2)] sum_list_replace [OF assms(1), of to_go pc] complete_step_frame [OF step] step
  show ?thesis by (simp add: turn_def)
qed

lemma calls_return:
  "\<exists>s'. (prog_step B hk)\<^sup>*\<^sup>* s s' \<and> at_loop k s s' \<and> set (br_calls (pg_bridges s' k)) \<subseteq> {At_return}"
proof (induction "sum_list (map to_go (br_calls (pg_bridges s k)))" arbitrary: s rule: less_induct)
  case less
  show ?case
  proof (cases "set (br_calls (pg_bridges s k)) \<subseteq> {At_return}")
    case False
    then obtain n where n: "n < length (br_calls (pg_bridges s k))" "br_calls (pg_bridges s k) ! n \<noteq> At_return"
      by (metis in_set_conv_nth insertI1 subsetI)
    let ?s = "s\<lparr>pg_bridges := (pg_bridges s)(k := turn n (pg_bridges s k))\<rparr>"
    from less [of ?s] turn_to_go [OF n] obtain s' where s': "(prog_step B hk)\<^sup>*\<^sup>* ?s s'" "at_loop k ?s s'"
      "set (br_calls (pg_bridges s' k)) \<subseteq> {At_return}" by auto
    have "at_loop k s ?s" using turn_frame [OF n(1)] by (simp add: at_loop_def)
    with s' prog_step.completes [OF n(1)] show ?thesis by (meson at_loop_trans converse_rtranclp_into_rtranclp)
  qed (intro exI [of _ s], simp)
qed

text \<open>
  A bridge at rest: every call of \<open>complete\<close> has returned, the queue is empty, the drain is
  not running and no wake is on its way.
\<close>

definition at_rest :: "'c bridge \<Rightarrow> bool" where
  "at_rest b \<longleftrightarrow> set (br_calls b) \<subseteq> {At_return} \<and> br_queue b = [] \<and> br_drain b = Idle \<and> br_wakes b = 0"

lemma pushes_returned: "set cs \<subseteq> {At_return} \<Longrightarrow> pushes cs = []"
  by (induction cs) (auto simp: pushes_def)

lemma at_rest_delivered:
  assumes "at_rest b" and "bridge_reach bell b" and "bell_ok bell" and "br_open b"
  shows "mset (br_delivered b) = arrived b"
  using delivered_in_order [OF assms(2,3)] assms(1,4) by (simp add: at_rest_def arrived_def pushes_returned)

text \<open>A bridge nobody has called is at rest.\<close>

lemma size_arrived: "bridge_reach bell b \<Longrightarrow> size (arrived b) = length (br_calls b)"
proof (induction rule: bridge_reach.induct)
  case new
  show ?case by (simp add: arrived_def new_bridge_def pushes_def)
next
  case (step b b')
  from step.hyps(2) step.IH show ?case
  proof (cases rule: bridge_step.cases)
    case (start c)
    with step.IH show ?thesis by (simp add: arrived_def pushes_def)
  next
    case (run n pc b1)
    then have "b' = turn n b" by (simp add: turn_def)
    moreover from run(3) have "length (br_calls (turn n b)) = length (br_calls b)"
      using complete_step_frame [OF run(3)] by (simp add: turn_def)
    ultimately show ?thesis using turn_frame [OF run(2)] step.IH by simp
  next
    case awake
    with step.IH show ?thesis by (simp add: Bridge.wake_def arrived_def)
  next
    case drain
    with step.IH show ?thesis using drain_step_frame [of "br_drain b" b] by (simp add: drain_step_arrived)
  qed (auto simp: arrived_def)
qed

lemma uncalled_at_rest: "bridge_reach bell b \<Longrightarrow> br_calls b = [] \<Longrightarrow> at_rest b"
proof (induction rule: bridge_reach.induct)
  case new
  show ?case by (simp add: at_rest_def new_bridge_def)
next
  case (step b b')
  from step.hyps(2) step.prems step.IH show ?case
  proof (cases rule: bridge_step.cases)
    case (run n pc b1)
    with step.prems complete_step_frame [OF run(3)] show ?thesis by simp
  next
    case awake
    with step show ?thesis by (simp add: Bridge.wake_def at_rest_def)
  next
    case drain
    with step drain_step_frame [of "br_drain b" b] show ?thesis by (simp add: at_rest_def)
  qed (auto simp: at_rest_def)
qed

context program begin

text \<open>A turn of the loop thread is a step of the program: no delivery fails.\<close>

lemma turn_step:
  assumes "prog_reach B hk bells s" and "env \<and> (\<forall>k. bell_ok (bells k))"
  shows "\<exists>s'. (prog_step B hk)\<^sup>*\<^sup>* s s' \<and> at_loop k s s' \<and> pg_bridges s' k = loop_turn (pg_bridges s k)"
proof (cases "br_drain (pg_bridges s k) = Idle")
  case True
  show ?thesis
  proof (cases "br_open (pg_bridges s k) \<and> 0 < br_wakes (pg_bridges s k)")
    case wake: True
    with True have "prog_step B hk s (s\<lparr>pg_bridges := (pg_bridges s)(k := Bridge.wake (pg_bridges s k))\<rparr>)"
      by (intro prog_step.wakes) simp_all
    with True wake show ?thesis
      by (intro exI [of _ "s\<lparr>pg_bridges := (pg_bridges s)(k := Bridge.wake (pg_bridges s k))\<rparr>"])
        (auto simp: at_loop_def loop_turn_def Bridge.wake_def arrived_def)
  next
    case False
    with True show ?thesis by (intro exI [of _ s]) (auto simp: loop_turn_def)
  qed
next
  case False
  have "\<exists>p. deliver_all hk m (at_hand (br_drain (pg_bridges s k))) (pg_py s) = Some p" for m
  proof (cases "br_drain (pg_bridges s k)" rule: at_hand.cases)
    case (1 d ds)
    from prog_inv [OF assms] assms(2) next_delivery [OF _ _ _ _ 1] obtain c r where
      "d = callback_of (pg_calls s c) r" "futures (pg_py s) (pc_fut (pg_calls s c)) = Pending" "plain_completion d" by blast
    with deliver_plain [of d "pg_py s" hk m] 1 show ?thesis by (simp add: callback_of_def)
  qed simp_all
  then obtain p where "deliver_all hk (\<lambda>_. 0) (at_hand (br_drain (pg_bridges s k))) (pg_py s) = Some p" by blast
  with False have "prog_step B hk s (s\<lparr>pg_bridges := (pg_bridges s)(k := drain_step (br_drain (pg_bridges s k)) (pg_bridges s k)),
      pg_py := p\<rparr>)" by (rule prog_step.drains)
  with False drain_step_frame [of "br_drain (pg_bridges s k)" "pg_bridges s k"] drain_step_arrived show ?thesis
    by (intro exI [of _ "s\<lparr>pg_bridges := (pg_bridges s)(k := drain_step (br_drain (pg_bridges s k)) (pg_bridges s k)),
      pg_py := p\<rparr>"]) (auto simp: at_loop_def loop_turn_def)
qed

text \<open>A live loop comes to rest with all that arrived delivered.\<close>

lemma turn_steps:
  assumes "prog_reach B hk bells s" and "env \<and> (\<forall>k. bell_ok (bells k))"
  shows "\<exists>s'. (prog_step B hk)\<^sup>*\<^sup>* s s' \<and> at_loop k s s' \<and> pg_bridges s' k = (loop_turn ^^ j) (pg_bridges s k)"
proof (induction j)
  case 0
  show ?case by (intro exI [of _ s]) simp
next
  case (Suc j)
  then obtain s1 where s1: "(prog_step B hk)\<^sup>*\<^sup>* s s1" "at_loop k s s1" "pg_bridges s1 k = (loop_turn ^^ j) (pg_bridges s k)" by blast
  from turn_step [OF reach_steps [OF assms(1) s1(1)] assms(2), of k] obtain s2 where
    "(prog_step B hk)\<^sup>*\<^sup>* s1 s2" "at_loop k s1 s2" "pg_bridges s2 k = loop_turn (pg_bridges s1 k)" by blast
  with s1 show ?case by (intro exI [of _ s2]) (auto intro: at_loop_trans)
qed

lemma one_loop:
  assumes "prog_reach B hk bells s" and "env \<and> (\<forall>k. bell_ok (bells k))" and "br_alive (pg_bridges s k)" and "br_open (pg_bridges s k)"
  shows "\<exists>s'. (prog_step B hk)\<^sup>*\<^sup>* s s' \<and> at_loop k s s' \<and> at_rest (pg_bridges s' k)"
proof -
  obtain s1 where s1: "(prog_step B hk)\<^sup>*\<^sup>* s s1" "at_loop k s s1" "set (br_calls (pg_bridges s1 k)) \<subseteq> {At_return}"
    using calls_return by blast
  let ?b = "pg_bridges s1 k"
  have reach: "prog_reach B hk bells s1" using assms(1) s1(1) by (rule reach_steps)
  have "bridge_reach (bells k) ?b" using prog_inv [OF reach assms(2)] by (simp add: books_ok_def)
  moreover have live: "br_alive ?b" "br_open ?b" using s1(2) assms(3,4) by (simp_all add: at_loop_def)
  ultimately have calm: "calm ?b" using bridge_reach_inv [of "bells k" ?b] assms(2) s1(3) by (simp add: calm_def)
  then obtain j where j: "br_drain ((loop_turn ^^ j) ?b) = Idle" "br_queue ((loop_turn ^^ j) ?b) = []" "br_wakes ((loop_turn ^^ j) ?b) = 0"
    using empties_calm unfolding empties_def by blast
  have "calm ((loop_turn ^^ j) ?b)" by (induction j) (simp_all add: calm calm_frame)
  with j have rest: "at_rest ((loop_turn ^^ j) ?b)" by (simp add: at_rest_def calm_def)
  from turn_steps [OF reach assms(2)] obtain s2 where s2: "(prog_step B hk)\<^sup>*\<^sup>* s1 s2" "at_loop k s1 s2"
    "pg_bridges s2 k = (loop_turn ^^ j) ?b" by blast
  have "(prog_step B hk)\<^sup>*\<^sup>* s s2" using s1(1) s2(1) by (rule rtranclp_trans)
  moreover have "at_loop k s s2" using s1(2) s2(2) by (rule at_loop_trans)
  ultimately show ?thesis using s2(3) rest by (intro exI [of _ s2]) simp
qed

lemma all_loops:
  assumes "finite ks" and "prog_reach B hk bells s" and "env \<and> (\<forall>k. bell_ok (bells k))"
    and "\<forall>k \<in> ks. br_alive (pg_bridges s k) \<and> br_open (pg_bridges s k)"
  shows "\<exists>s'. (prog_step B hk)\<^sup>*\<^sup>* s s' \<and> pg_backend s' = pg_backend s \<and> pg_calls s' = pg_calls s \<and>
    (\<forall>k. br_open (pg_bridges s' k) = br_open (pg_bridges s k)) \<and>
    (\<forall>k. k \<notin> ks \<longrightarrow> pg_bridges s' k = pg_bridges s k) \<and> (\<forall>k \<in> ks. at_rest (pg_bridges s' k))"
  using assms(1,4)
proof (induction ks)
  case empty
  show ?case by (intro exI [of _ s]) simp
next
  case (insert k ks)
  then obtain s1 where s1: "(prog_step B hk)\<^sup>*\<^sup>* s s1" "pg_backend s1 = pg_backend s" "pg_calls s1 = pg_calls s"
    "\<forall>k. br_open (pg_bridges s1 k) = br_open (pg_bridges s k)"
    "\<forall>k. k \<notin> ks \<longrightarrow> pg_bridges s1 k = pg_bridges s k" "\<forall>k \<in> ks. at_rest (pg_bridges s1 k)" by auto
  have "br_alive (pg_bridges s1 k)" "br_open (pg_bridges s1 k)" using s1(5) insert.hyps insert.prems by auto
  from one_loop [OF reach_steps [OF assms(2) s1(1)] assms(3) this] obtain s2 where s2:
    "(prog_step B hk)\<^sup>*\<^sup>* s1 s2" "at_loop k s1 s2" "at_rest (pg_bridges s2 k)" by blast
  have "(prog_step B hk)\<^sup>*\<^sup>* s s2" using s1(1) s2(1) by (rule rtranclp_trans)
  moreover have "at_rest (pg_bridges s2 j)" if "j \<in> insert k ks" for j
    using that s1(6) s2(2,3) by (cases "j = k") (auto simp: at_loop_def)
  moreover have "br_open (pg_bridges s2 j) = br_open (pg_bridges s j)" for j
    using s1(4) s2(2) by (cases "j = k") (auto simp: at_loop_def)
  ultimately show ?case using s1 s2(2) by (intro exI [of _ s2]) (auto simp: at_loop_def)
qed

text \<open>Once backend and bridges rest, every future is settled.\<close>

lemma rest_settled:
  assumes "prog_reach B hk bells s" and "env \<and> (\<forall>k. bell_ok (bells k))" and "quiet (pg_backend s)"
    and "\<forall>k. br_open (pg_bridges s k)" and "\<forall>k. at_rest (pg_bridges s k)" and c: "c \<in> fst ` set (bk_asked B (pg_backend s))"
  shows "settled_by B s c"
proof -
  let ?k = "pc_loop (pg_calls s c)" and ?rs = "bk_replied B (pg_backend s)"
  have run: "runs (pg_backend s)" and books: "books_ok B bells s" and futs: "futures_ok B s"
    using prog_inv [OF assms(1,2)] by simp_all
  have "c \<in> set (map fst ?rs)" using all_once [OF run assms(3)] c by (metis set_map set_mset_mset)
  then obtain r where "(c, r) \<in> set ?rs" by auto
  then have "callback_of (pg_calls s c) r \<in> set (completions (pg_calls s) ?k ?rs)" by (auto simp: completions_mem)
  moreover have "mset (br_delivered (pg_bridges s ?k)) = mset (completions (pg_calls s) ?k ?rs)"
    using at_rest_delivered [of "pg_bridges s ?k" "bells ?k"] books assms(2,4,5) by (simp add: books_ok_def)
  ultimately have "callback_of (pg_calls s c) r \<in> set (br_delivered (pg_bridges s ?k))" by (metis set_mset_mset)
  then have "delivered_to s c" by (force simp: delivered_to_def callback_of_def)
  with futs c show ?thesis unfolding futures_ok_def by auto
qed

lemma settles:
  assumes "prog_reach B hk bells s" and "env \<and> (\<forall>k. bell_ok (bells k))" and "quiet (pg_backend s)"
    and "\<forall>k. br_alive (pg_bridges s k) \<and> br_open (pg_bridges s k)"
  shows "\<exists>s'. (prog_step B hk)\<^sup>*\<^sup>* s s' \<and> pg_backend s' = pg_backend s \<and> pg_calls s' = pg_calls s \<and>
    (\<forall>k. at_rest (pg_bridges s' k)) \<and> (\<forall>c \<in> fst ` set (bk_asked B (pg_backend s)). settled_by B s' c)"
proof -
  let ?ks = "(\<lambda>c. pc_loop (pg_calls s c)) ` fst ` set (bk_asked B (pg_backend s))"
  obtain s' where s': "(prog_step B hk)\<^sup>*\<^sup>* s s'" "pg_backend s' = pg_backend s" "pg_calls s' = pg_calls s"
    "\<forall>k. br_open (pg_bridges s' k) = br_open (pg_bridges s k)"
    "\<forall>k \<in> ?ks. at_rest (pg_bridges s' k)" using all_loops [of ?ks, OF _ assms(1,2)] assms(4) by auto
  have reach: "prog_reach B hk bells s'" using assms(1) s'(1) by (rule reach_steps)
  have run: "runs (pg_backend s')" and books: "books_ok B bells s'" using prog_inv [OF reach assms(2)] by simp_all
  have rest: "at_rest (pg_bridges s' k)" for k
  proof (cases "k \<in> ?ks")
    case False
    then have "completions (pg_calls s') k (bk_replied B (pg_backend s')) = []"
      using replied_known [OF run] s'(2,3) by (force simp: completions_def filter_empty_conv)
    with books size_arrived [of "bells k" "pg_bridges s' k"] uncalled_at_rest [of "bells k" "pg_bridges s' k"]
    show ?thesis by (simp add: books_ok_def)
  qed (use s'(5) in blast)
  with rest_settled [OF reach assms(2)] assms(3,4) s' show ?thesis by (intro exI [of _ s']) auto
qed

end

section \<open>Every run of a backend is part of a run of the program\<close>

inductive bk_reach :: "'s backend_view \<Rightarrow> 's \<Rightarrow> bool" for B where
  starts: "bk_start B b \<Longrightarrow> bk_reach B b"
| step: "bk_reach B b \<Longrightarrow> bk_step B b b' \<Longrightarrow> bk_reach B b'"

text \<open>An op of an exported function that hands the reply on as it is.\<close>

definition plain_op :: "op \<Rightarrow> bool" where
  "plain_op oper \<longleftrightarrow> (\<exists>e. request_of e = Inr \<lparr>sb_op = oper, sb_output = Output_Plain, sb_owner = None\<rparr>)"

definition plain_calls :: "cb \<Rightarrow> pending_call" where
  "plain_calls c = \<lparr>pc_fut = c + 100, pc_loop = 0, pc_output = Output_Plain, pc_owner = None\<rparr>"

definition asks_one_by_one :: "'s backend_view \<Rightarrow> bool" where
  "asks_one_by_one B \<longleftrightarrow> (\<forall>b b'. bk_step B b b' \<longrightarrow>
     bk_asked B b' = bk_asked B b \<or> (\<exists>c oper. bk_asked B b' = bk_asked B b @ [(c, oper)]))"

text \<open>A program that runs the backend, each op a call of its own, and has started what the replies start.\<close>

definition hosts :: "'s backend_view \<Rightarrow> 's \<Rightarrow> 's program \<Rightarrow> bool" where
  "hosts B b s \<longleftrightarrow> pg_backend s = b \<and> (\<forall>c \<in> fst ` set (bk_asked B b). pg_calls s c = plain_calls c) \<and>
     (\<forall>k. br_alive (pg_bridges s k) \<and> br_open (pg_bridges s k))"

lemma start_calls_alive [simp]:
  "br_alive (start_calls calls rs br k) = br_alive (br k)" "br_open (start_calls calls rs br k) = br_open (br k)"
  by (simp_all add: start_calls_def)

lemma hosted_start:
  assumes "bk_start B b"
  shows "\<exists>s. prog_reach B hk bells s \<and> hosts B b s"
proof (intro exI conjI)
  show "prog_reach B hk bells \<lparr>pg_backend = b, pg_calls = plain_calls, pg_bridges = (\<lambda>k. new_bridge (bells k)),
      pg_py = \<lparr>futures = (\<lambda>f. Pending), py_rest = ()\<rparr>\<rparr>" using assms by (rule prog_reach.starts)
qed (simp add: hosts_def new_bridge_def)

lemma hosted_works:
  assumes "prog_reach B hk bells s" and "hosts B b s" and "bk_step B b b'" and "bk_asked B b' = bk_asked B b"
  shows "\<exists>s'. prog_reach B hk bells s' \<and> hosts B b' s'"
proof (intro exI conjI)
  let ?s = "s\<lparr>pg_backend := b', pg_bridges := start_calls (pg_calls s) (new_replies B (pg_backend s) b') (pg_bridges s)\<rparr>"
  from assms(2-4) have "prog_step B hk s ?s" by (intro prog_step.works) (simp_all add: hosts_def)
  with assms(1) show "prog_reach B hk bells ?s" by (rule prog_reach.step)
  show "hosts B b' ?s" using assms(2,4) by (simp add: hosts_def)
qed

lemma hosted_submits:
  assumes "prog_reach B hk bells s" and "hosts B b s" and "bk_step B b b'"
    and "bk_asked B b' = bk_asked B b @ [(c, oper)]" and "c \<notin> fst ` set (bk_asked B b)" and "plain_op oper"
  shows "\<exists>s'. prog_reach B hk bells s' \<and> hosts B b' s'"
proof (intro exI conjI)
  from assms(6) obtain e where e: "request_of e = Inr \<lparr>sb_op = oper, sb_output = Output_Plain, sb_owner = None\<rparr>"
    by (auto simp: plain_op_def)
  let ?calls = "(pg_calls s)(c := \<lparr>pc_fut = c + 100, pc_loop = 0, pc_output = Output_Plain, pc_owner = None\<rparr>)"
  let ?s = "s\<lparr>pg_backend := b', pg_calls := ?calls,
      pg_bridges := start_calls ?calls (new_replies B (pg_backend s) b') (pg_bridges s),
      pg_py := (pg_py s)\<lparr>futures := (futures (pg_py s))(c + 100 := Pending)\<rparr>\<rparr>"
  from assms(2-5) e have "prog_step B hk s ?s"
    by (intro prog_step.submits [where e = e and c = c and key = 0 and fut = "c + 100"])
      (auto simp: hosts_def plain_calls_def)
  with assms(1) show "prog_reach B hk bells ?s" by (rule prog_reach.step)
  show "hosts B b' ?s" using assms(2,4,5) by (auto simp: hosts_def plain_calls_def)
qed

lemma hosted:
  assumes "bk_reach B b" and "asks_one_by_one B" and "distinct (map fst (bk_asked B b))"
    and "\<forall>(c, oper) \<in> set (bk_asked B b). plain_op oper"
  shows "\<exists>s. prog_reach B hk bells s \<and> hosts B b s"
  using assms(1,3,4)
proof (induction rule: bk_reach.induct)
  case (starts b)
  then show ?case by (simp add: hosted_start)
next
  case (step b b')
  from assms(2) step.hyps(2) consider "bk_asked B b' = bk_asked B b"
    | c oper where "bk_asked B b' = bk_asked B b @ [(c, oper)]" unfolding asks_one_by_one_def by blast
  then show ?case
  proof cases
    case 1
    with step obtain s where "prog_reach B hk bells s" "hosts B b s" by auto
    then show ?thesis using step.hyps(2) 1 by (rule hosted_works)
  next
    case 2
    with step obtain s where "prog_reach B hk bells s" "hosts B b s" by auto
    then show ?thesis using step.hyps(2) 2 by (rule hosted_submits) (use step.prems 2 in auto)
  qed
qed

end
