(* ===== verification/Aio_Typed.thy ===== *)
theory Aio_Typed
  imports Aio_Bounds Aio_Correct Composition
begin

text \<open>
  Type soundness of the AIO backend.  An op asks for one kind of reply (\<open>answers\<close>); the
  job, the pending open or the closing entry it becomes is of a type that can only end in
  such a reply, the steps keep the type, and so every callback gets what its op asked for.
\<close>

section \<open>Types\<close>

type_synonym typing = "(cb \<times> op) set"

fun result_fits :: "op \<Rightarrow> reply io \<Rightarrow> bool" where
  "result_fits oper (Inl e) \<longleftrightarrow> True"
| "result_fits oper (Inr r) \<longleftrightarrow> answers oper r"

text \<open>What becomes of an op once it is a job.\<close>

inductive typed_kind :: "op \<Rightarrow> job_kind \<Rightarrow> bool" where
  read_alloc: "r_want r = Want_Exact len \<Longrightarrow> r_buf r = Buf_Owned vec len \<Longrightarrow> buf_ok (r_buf r) (r_filled r) \<Longrightarrow>
    typed_kind (Op_ReadAt h pos (Dest_Alloc len)) (Job_Read r)"
| read_into: "r_want r = Want_Exact len \<Longrightarrow> r_buf r = Buf_External p len \<Longrightarrow> buf_ok (r_buf r) (r_filled r) \<Longrightarrow>
    typed_kind (Op_ReadAt h pos (Dest_Into p len)) (Job_Read r)"
| read_to_end: "r_want r = Want_ToEnd \<Longrightarrow> r_buf r = Buf_Owned vec cap \<Longrightarrow> buf_ok (r_buf r) (r_filled r) \<Longrightarrow>
    typed_kind (Op_ReadToEnd h pos) (Job_Read r)"
| read_file: "r_want r = Want_ToEnd \<Longrightarrow> r_buf r = Buf_Owned vec cap \<Longrightarrow> buf_ok (r_buf r) (r_filled r) \<Longrightarrow>
    typed_kind (Op_ReadFile path n) (Job_Read r)"
| write_at: "typed_kind (Op_WriteAt h pos (w_data w) app) (Job_Write w)"
| write_file: "typed_kind (Op_WriteFile path (w_data w)) (Job_Write w)"
| sync: "typed_kind (Op_Sync h data_only) (Job_Fsync f)"

inductive_cases typed_readE: "typed_kind oper (Job_Read r)"
inductive_cases typed_writeE: "typed_kind oper (Job_Write w)"
inductive_cases typed_fsyncE: "typed_kind oper (Job_Fsync f)"

fun typed_open :: "op \<Rightarrow> after_open \<Rightarrow> bool" where
  "typed_open (Op_Open path spec) After_Handle = True"
| "typed_open (Op_ReadFile path n) (After_ReadFile m) = True"
| "typed_open (Op_WriteFile path data) (After_WriteFile data') = (data' = data)"
| "typed_open _ _ = False"

definition fits_result :: "typing \<Rightarrow> cb \<Rightarrow> reply io \<Rightarrow> bool" where
  "fits_result G c res \<longleftrightarrow> (\<exists>oper. (c, oper) \<in> G \<and> result_fits oper res)"

definition fits_job :: "typing \<Rightarrow> job \<Rightarrow> bool" where
  "fits_job G j \<longleftrightarrow> (\<exists>oper. (j_cb j, oper) \<in> G \<and> typed_kind oper (j_kind j))"

definition fits_open :: "typing \<Rightarrow> pending_open \<Rightarrow> bool" where
  "fits_open G p \<longleftrightarrow> (\<exists>oper. (po_cb p, oper) \<in> G \<and> typed_open oper (po_then p))"

definition fits_close :: "typing \<Rightarrow> cb \<Rightarrow> bool" where
  "fits_close G c \<longleftrightarrow> (\<exists>h. (c, Op_Close h) \<in> G)"

fun fits_helper :: "typing \<Rightarrow> helper_job \<Rightarrow> bool" where
  "fits_helper G (Helper_Open path spec p) \<longleftrightarrow> fits_open G p"
| "fits_helper G (Helper_Close f) \<longleftrightarrow> True"

fun fits_event :: "typing \<Rightarrow> event \<Rightarrow> bool" where
  "fits_event G (Ev_call c res) \<longleftrightarrow> fits_result G c res"
| "fits_event G _ \<longleftrightarrow> True"

fun fits_msg :: "typing \<Rightarrow> msg \<Rightarrow> bool" where
  "fits_msg G (Msg_Submit i oper c) \<longleftrightarrow> (c, oper) \<in> G"
| "fits_msg G (Msg_Cancel i) \<longleftrightarrow> True"

text \<open>A driver all of whose parts fit.\<close>

definition well_typed :: "typing \<Rightarrow> 'k aio \<Rightarrow> bool" where
  "well_typed G d \<longleftrightarrow> (\<forall>j \<in> set (jobs d). fits_job G j) \<and>
     (\<forall>h e c. files d h = Some e \<longrightarrow> fe_closing e = Some c \<longrightarrow> fits_close G c) \<and>
     (\<forall>hj \<in> set (pending (helper_tx d)). fits_helper G hj) \<and>
     (\<forall>ev \<in> set (log (os d)). fits_event G ev)"

lemma typed_updates [simp]:
  "well_typed G (d\<lparr>next_id := n\<rparr>) = well_typed G d" "well_typed G (d\<lparr>pending_opens := P\<rparr>) = well_typed G d"
  "well_typed G (d\<lparr>cancelled_opens := P\<rparr>) = well_typed G d" "well_typed G (d\<lparr>progress := x\<rparr>) = well_typed G d"
  "well_typed G (d\<lparr>rx := r\<rparr>) = well_typed G d" "well_typed G (d\<lparr>back_rx := b\<rparr>) = well_typed G d"
  "well_typed G (d\<lparr>disconnected := x\<rparr>) = well_typed G d" "well_typed G (d\<lparr>helpers_gone := x\<rparr>) = well_typed G d"
  "well_typed G (d\<lparr>suspend_ns := n'\<rparr>) = well_typed G d"
  by (simp_all add: well_typed_def jobs_def)

lemma typed_os: "well_typed G d \<Longrightarrow> log s = log (os d) \<Longrightarrow> well_typed G (d\<lparr>os := s\<rparr>)"
  by (simp add: well_typed_def jobs_def)

lemma typed_log: "well_typed G d \<Longrightarrow> log s = log (os d) @ evs \<Longrightarrow> \<forall>ev \<in> set evs. fits_event G ev \<Longrightarrow> well_typed G (d\<lparr>os := s\<rparr>)"
  by (auto simp: well_typed_def jobs_def)

lemma typed_queue: "well_typed G d \<Longrightarrow> \<forall>j \<in> set q. fits_job G j \<Longrightarrow> well_typed G (d\<lparr>queue := q\<rparr>)"
  by (auto simp: well_typed_def jobs_def)

lemma typed_inflight: "well_typed G d \<Longrightarrow> \<forall>e \<in> set l. fits_job G (in_job e) \<Longrightarrow> well_typed G (d\<lparr>inflight := l\<rparr>)"
  by (auto simp: well_typed_def jobs_def)

lemma typed_files: "well_typed G d \<Longrightarrow> (\<forall>h e c. fs h = Some e \<longrightarrow> fe_closing e = Some c \<longrightarrow> fits_close G c) \<Longrightarrow>
    well_typed G (d\<lparr>files := fs\<rparr>)"
  by (simp add: well_typed_def jobs_def)

lemma typed_queueD: "well_typed G d \<Longrightarrow> j \<in> set (queue d) \<Longrightarrow> fits_job G j"
  by (simp add: well_typed_def jobs_def)

lemma typed_inflightD: "well_typed G d \<Longrightarrow> e \<in> set (inflight d) \<Longrightarrow> fits_job G (in_job e)"
  by (simp add: well_typed_def jobs_def)

lemma typed_fileD: "well_typed G d \<Longrightarrow> files d h = Some e \<Longrightarrow> fe_closing e = Some c \<Longrightarrow> fits_close G c"
  by (simp add: well_typed_def)

lemma fits_close_reply: "fits_close G c \<Longrightarrow> fits_result G c (close_reply r)"
  by (auto simp: fits_close_def fits_result_def close_reply_def split: sum.split intro!: exI)

lemma fits_error: "(c, oper) \<in> G \<Longrightarrow> fits_result G c (Inl e)"
  by (auto simp: fits_result_def)

lemma fits_answer: "(c, oper) \<in> G \<Longrightarrow> answers oper r \<Longrightarrow> fits_result G c (Inr r)"
  by (auto simp: fits_result_def)

lemma fits_job_error: "fits_job G j \<Longrightarrow> fits_result G (j_cb j) (Inl e)"
  by (auto simp: fits_job_def intro: fits_error)

lemma fits_open_error: "fits_open G p \<Longrightarrow> fits_result G (po_cb p) (Inl e)"
  by (auto simp: fits_open_def intro: fits_error)

section \<open>A chunk keeps the type\<close>

text \<open>What \<open>bounded\<close> says of one transfer.\<close>

fun moved :: "job_kind \<Rightarrow> nat \<Rightarrow> byte list \<Rightarrow> bool" where
  "moved (Job_Read r) n bs \<longleftrightarrow> n \<le> snd (chunk (r_buf r) (r_filled r)) \<and> length bs = n"
| "moved _ n bs \<longleftrightarrow> True"

lemma moved_return: "bounded K \<Longrightarrow> aio_return K (control_block j) w = ((n, bs), w') \<Longrightarrow> moved (j_kind j) n bs"
  by (cases "j_kind j") (auto simp: control_block_def split: prod.splits dest!: bounded_return)

lemma typed_read_step:
  assumes "typed_kind oper (Job_Read r)" and "moved (Job_Read r) n bs"
    and "deliver_read r bs s = (r1, s1)" and "step_read K r1 n s1 = (res, r2, s2)"
  shows "case res of Step_Done x \<Rightarrow> result_fits oper x | Step_More \<Rightarrow> typed_kind oper (Job_Read r2)"
proof -
  let ?r = "r1\<lparr>r_filled := r_filled r1 + n\<rparr>"
  have ok: "buf_ok (r_buf r1) (r_filled r1 + n)" and want: "r_want r1 = r_want r"
    and buf: "\<And>p len. r_buf r = Buf_External p len \<Longrightarrow> r_buf r1 = Buf_External p len"
      "\<And>vec cap. r_buf r = Buf_Owned vec cap \<Longrightarrow> \<exists>vec. r_buf r1 = Buf_Owned vec cap"
    using assms(1-3) by (auto simp: deliver_read_def elim!: typed_readE split: read_buf.splits)
  from assms(1) ok want buf have now: "typed_kind oper (Job_Read ?r)"
    by (cases rule: typed_readE) (fastforce intro: typed_kind.intros)+
  from now have ended: "result_fits oper (Inr (read_reply ?r))"
    by (cases rule: typed_readE) auto
  have more: "typed_kind oper (Job_Read (grow ?r))" if "\<forall>len. r_want ?r = Want_Exact len \<longrightarrow> r_filled ?r < len"
    using now
  proof (cases rule: typed_kind.cases)
    case (read_alloc len vec h pos)
    with that have "grow ?r = ?r" by (auto simp: grow_def)
    with now show ?thesis by simp
  next
    case (read_into len p h pos)
    then have "grow ?r = ?r" by (auto simp: grow_def)
    with now show ?thesis by simp
  next
    case (read_to_end vec cap h pos)
    then have "r_want (grow ?r) = Want_ToEnd" and "\<exists>cap. r_buf (grow ?r) = Buf_Owned vec cap" by (auto simp: grow_def)
    then show ?thesis using grow_ok [of ?r] read_to_end by (auto intro: typed_kind.intros)
  next
    case (read_file vec cap path m)
    then have "r_want (grow ?r) = Want_ToEnd" and "\<exists>cap. r_buf (grow ?r) = Buf_Owned vec cap" by (auto simp: grow_def)
    then show ?thesis using grow_ok [of ?r] read_file by (auto intro: typed_kind.intros)
  qed
  have "\<forall>len. r_want ?r = Want_Exact len \<longrightarrow> r_filled ?r < len" if "complete K ?r s1 = (False, s3)" for s3
    using that by (auto simp: complete_def)
  with assms(4) ended more show ?thesis
    by (auto simp: step_read_def Let_def split: if_splits prod.splits bool.splits simp del: read_reply.simps)
qed

lemma typed_write_step:
  assumes "typed_kind oper (Job_Write w)" and "step_write K w n s = (res, w', s')"
  shows "case res of Step_Done x \<Rightarrow> result_fits oper x | Step_More \<Rightarrow> typed_kind oper (Job_Write w')"
proof -
  have same: "w_data w' = w_data w"
    using assms(2) by (auto simp: step_write_def Let_def split: if_splits prod.splits sum.splits)
  from assms(1) have "typed_kind oper (Job_Write w')"
    by (cases rule: typed_writeE) (auto simp: same [symmetric] intro: typed_kind.intros)
  moreover have "answers oper (Reply_Written (payload_len (w_data w)) e)" for e
    using assms(1) by (cases rule: typed_writeE) auto
  ultimately show ?thesis
    using assms(2) by (auto simp: step_write_def Let_def split: if_splits prod.splits sum.splits)
qed

lemma typed_step:
  assumes "fits_job G j" and "moved (j_kind j) n bs" and "deliver_bytes j bs s = (j1, s1)"
    and "step K j1 n s1 = (res, j2, s2)"
  shows "case res of Step_Done x \<Rightarrow> fits_result G (j_cb j) x \<and> j_cb j2 = j_cb j | Step_More \<Rightarrow> fits_job G j2"
proof -
  from assms(1) obtain oper where oper: "(j_cb j, oper) \<in> G" and kind: "typed_kind oper (j_kind j)"
    by (auto simp: fits_job_def)
  have cb: "j_cb j2 = j_cb j"
    using deliver_bytes_same [OF assms(3)] step_same [OF assms(4)] by (simp add: same_job_def)
  have "case res of Step_Done x \<Rightarrow> result_fits oper x | Step_More \<Rightarrow> typed_kind oper (j_kind j2)"
  proof (cases "j_kind j")
    case (Job_Read r)
    obtain r1 t1 where del: "deliver_read r bs s = (r1, t1)" by (cases "deliver_read r bs s")
    obtain res' r2 t2 where st: "step_read K r1 n t1 = (res', r2, t2)" by (cases "step_read K r1 n t1") auto
    from typed_read_step [OF kind [unfolded Job_Read] assms(2) [unfolded Job_Read] del st] assms(3,4) Job_Read del st
    show ?thesis by (auto simp: deliver_bytes_def step_def split: step_result.splits)
  next
    case (Job_Write w)
    obtain res' w' t where st: "step_write K w n s = (res', w', t)" by (cases "step_write K w n s") auto
    from typed_write_step [OF kind [unfolded Job_Write] st] assms(3,4) Job_Write st
    show ?thesis by (auto simp: deliver_bytes_def step_def split: step_result.splits)
  next
    case (Job_Fsync f)
    from kind [unfolded Job_Fsync] have "answers oper Reply_Unit" by (cases rule: typed_fsyncE) auto
    with assms(3,4) Job_Fsync show ?thesis by (auto simp: deliver_bytes_def step_def)
  qed
  with oper cb show ?thesis by (auto simp: fits_result_def fits_job_def split: step_result.splits)
qed

text \<open>A whole job in the fallback loop.\<close>

lemma sync_chunk_moved:
  assumes "bounded K" and "sync_chunk K j s = (Inr n, j1, s1)"
  shows "\<exists>bs s0. moved (j_kind j) n bs \<and> memory s0 = memory s \<and> deliver_bytes j bs s0 = (j1, s1)"
proof (cases "j_kind j")
  case (Job_Read r)
  with assms(2) obtain bs w where "sys_pread K (r_fd r) (snd (chunk (r_buf r) (r_filled r)))
      (r_pos r + of_nat (r_filled r)) (world s) = (Inr (n, bs), w)" and "deliver_bytes j bs (s\<lparr>world := w\<rparr>) = (j1, s1)"
    by (auto simp: sync_chunk_def syscall_def split: sum.splits prod.splits)
  with Job_Read bounded_pread [OF assms(1), of "r_fd r"] show ?thesis
    by (intro exI [of _ bs] exI [of _ "s\<lparr>world := w\<rparr>"]) simp
next
  case (Job_Write w)
  with assms(2) have "j1 = j" and "memory s1 = memory s"
    by (auto simp: sync_chunk_def Let_def split: prod.splits if_splits dest: memory_syscallD)
  with Job_Write show ?thesis by (intro exI [of _ "[]"] exI [of _ s1]) (simp add: deliver_bytes_def)
next
  case (Job_Fsync f)
  with assms(2) have "j1 = j" and "memory s1 = memory s"
    by (auto simp: sync_chunk_def split: sum.splits prod.splits dest: memory_syscallD)
  with Job_Fsync show ?thesis by (intro exI [of _ "[]"] exI [of _ s1]) (simp add: deliver_bytes_def)
qed

lemma typed_sync_loop:
  assumes "sync_loop K j s = Some (j', res, s')" and "bounded K" and "fits_job G j"
  shows "fits_result G (j_cb j') res"
proof -
  let ?P = "\<lambda>K j s out. bounded K \<longrightarrow> fits_job G j \<longrightarrow> (case out of (j', res, s') \<Rightarrow> fits_result G (j_cb j') res)"
  have "?P K j s (j', res, s')"
  proof (rule sync_loop.raw_induct [where P = ?P, OF _ assms(1)], goal_cases)
    case (1 loop K j s out)
    show ?case
    proof (intro impI)
      assume K: "bounded K" and j: "fits_job G j"
      obtain r j1 s1 where chunk: "sync_chunk K j s = (r, j1, s1)" by (cases "sync_chunk K j s") auto
      show "case out of (j', res, s') \<Rightarrow> fits_result G (j_cb j') res"
      proof (cases r)
        case (Inl e)
        moreover have "j_cb j1 = j_cb j" using sync_chunk_same [OF chunk] by (simp add: same_job_def)
        ultimately show ?thesis using 1(2) chunk fits_job_error [OF j, of e] by (auto split: prod.splits)
      next
        case (Inr n)
        with sync_chunk_moved [OF K] chunk obtain bs s0
          where moved: "moved (j_kind j) n bs" and del: "deliver_bytes j bs s0 = (j1, s1)" by blast
        obtain x j2 s2 where st: "step K j1 n s1 = (x, j2, s2)" by (cases "step K j1 n s1") auto
        note facts = typed_step [OF j moved del st]
        show ?thesis
        proof (cases x)
          case (Step_Done y)
          with 1(2) chunk Inr st facts show ?thesis by auto
        next
          case Step_More
          with 1(2) chunk Inr st have "loop K j2 s2 = Some out" by simp
          from 1(1) [OF this] K facts Step_More show ?thesis by simp
        qed
      qed
    qed
  qed
  with assms(2,3) show ?thesis by simp
qed

section \<open>The driver keeps the types\<close>

lemma typed_call_cb: "well_typed G d \<Longrightarrow> fits_result G c res \<Longrightarrow> well_typed G (call_cb c res d)"
  by (auto simp: call_cb_def invoke_def emit_def intro: typed_log)

lemma typed_run_close: "well_typed G d \<Longrightarrow> well_typed G (run_close K f d)"
  by (auto simp: run_close_def with_os_def case_prod_beta intro!: typed_log [where evs = "[Ev_close f]"])

lemma typed_with_close: "with_os (close_raw K f) d = (r, d') \<Longrightarrow> well_typed G d \<Longrightarrow> well_typed G d'"
  using typed_run_close [of G d K f] by (simp add: run_close_def)

lemma typed_close_owned: "well_typed G d \<Longrightarrow> well_typed G (close_owned K f d)"
proof -
  assume ok: "well_typed G d"
  then have "well_typed G (d\<lparr>helper_tx := (helper_tx d)\<lparr>pending := pending (helper_tx d) @ [Helper_Close f]\<rparr>\<rparr>)"
    by (auto simp: well_typed_def jobs_def)
  with ok show ?thesis by (auto simp: close_owned_def send_def intro: typed_run_close)
qed

lemma typed_release: "well_typed G d \<Longrightarrow> well_typed G (release K h d)"
proof (cases "files d h")
  case (Some e)
  assume ok: "well_typed G d"
  let ?d = "d\<lparr>files := (files d)(h \<mapsto> e\<lparr>fe_ops := fe_ops e - 1\<rparr>)\<rparr>"
  have one: "well_typed G ?d" and gone: "well_typed G (d\<lparr>files := (files d)(h := None)\<rparr>)"
    using ok Some typed_fileD [OF ok] by (auto intro!: typed_files split: if_splits)
  have "well_typed G (call_cb c (close_reply r) d2)"
    if "with_os (close_raw K f) (d\<lparr>files := (files d)(h := None)\<rparr>) = (r, d2)" "fe_closing e = Some c" for c r f d2
    using typed_with_close [OF that(1) gone] typed_fileD [OF ok Some that(2)]
    by (intro typed_call_cb fits_close_reply)
  with Some one show ?thesis by (auto simp: release_def Let_def split: option.split prod.split)
qed (simp add: release_def)

lemma typed_finish: "well_typed G d \<Longrightarrow> fits_result G (j_cb j) res \<Longrightarrow> well_typed G (finish K j res d)"
  by (auto simp: finish_def Let_def split: option.split intro: typed_release typed_call_cb typed_close_owned)

lemma typed_submit_job:
  assumes "submit_job K j d = Some (r, d')" and "bounded K" and "well_typed G d" and "fits_job G j"
  shows "well_typed G d' \<and> (case r of Submitted_Inflight \<Rightarrow> True | Submitted_Full j' \<Rightarrow> fits_job G j')"
proof -
  obtain x s where call: "syscall (aio_submit K (control_block j)) (os d) = (x, s)"
    by (cases "syscall (aio_submit K (control_block j)) (os d)")
  then have d: "well_typed G (d\<lparr>os := s\<rparr>)" using assms(3) by (auto intro: typed_os dest: log_syscallD)
  show ?thesis
  proof (cases x)
    case (Inr u)
    with assms(1,4) call d show ?thesis
      using typed_inflightD [OF assms(3)] by (auto simp: submit_job_def with_os_def Let_def intro!: typed_inflight)
  next
    case (Inl e)
    have "well_typed G (finish K j' res (d\<lparr>os := s'\<rparr>))" if "sync_loop K j s = Some (j', res, s')" for j' res s'
      using typed_sync_loop [OF that assms(2,4)] typed_os [OF d, of s'] sync_loop_same [OF that]
      by (intro typed_finish) simp_all
    with Inl assms(1,4) call d show ?thesis
      by (auto simp: submit_job_def execute_sync_def with_os_def Let_def split: if_splits option.splits
          intro: typed_finish fits_job_error)
  qed
qed

lemma typed_submit_ready:
  assumes "submit_ready K d = Some d'" and "bounded K" and "well_typed G d"
  shows "well_typed G d'"
  using assms(1,3)
proof (rule submit_ready_rule [where Q = "\<lambda>j e. well_typed G e \<and> fits_job G j"])
  fix j and e e' :: "'a aio" and j'
  assume "well_typed G e \<and> fits_job G j" and "submit_job K j e = Some (Submitted_Full j', e')"
  then have e': "well_typed G e'" and j': "fits_job G j'" using typed_submit_job [OF _ assms(2)] by fastforce+
  show "well_typed G (e'\<lparr>queue := j' # queue e'\<rparr>)"
    by (rule typed_queue [OF e']) (use j' typed_queueD [OF e'] in auto)
next
  fix e :: "'a aio" and j rest
  assume ok: "well_typed G e" and q: "queue e = j # rest"
  from typed_queueD [OF ok] q have "\<forall>i \<in> set rest. fits_job G i" and "fits_job G j" by auto
  with ok show "well_typed G (e\<lparr>queue := rest\<rparr>) \<and> fits_job G j" by (simp add: typed_queue)
qed (use assms(2) in \<open>auto dest: typed_submit_job\<close>)

lemma typed_enqueue:
  assumes "enqueue K i kind handle c d = Some d'" and "bounded K" and "well_typed G d"
    and "(c, oper) \<in> G" and "typed_kind oper kind"
  shows "well_typed G d'"
proof -
  let ?j = "\<lparr>j_id = i, j_cancelled = False, j_kind = kind, j_cb = c\<rparr>" and ?d = "retain handle d"
  have ok: "well_typed G ?d"
    using assms(3) typed_fileD [OF assms(3)] by (auto simp: retain_def intro!: typed_files split: option.split if_splits)
  have "fits_job G ?j" using assms(4,5) by (auto simp: fits_job_def)
  with ok have "well_typed G (?d\<lparr>queue := queue ?d @ [?j]\<rparr>)" using typed_queueD [OF ok]
    by (auto intro!: typed_queue)
  with assms(1,2) show ?thesis by (auto simp: enqueue_def Let_def intro: typed_submit_ready)
qed

lemma typed_register: "register f sz d = (r, d') \<Longrightarrow> well_typed G d \<Longrightarrow> well_typed G d' \<and> r = Reply_Handle (next_id d) sz f"
  using typed_fileD [of G d] by (auto simp: register_def Let_def intro!: typed_files split: if_splits)

lemma typed_opened:
  assumes "opened K p result d = Some d'" and "bounded K" and "well_typed G d" and "fits_open G p"
  shows "well_typed G d'"
proof -
  from assms(4) obtain oper where oper: "(po_cb p, oper) \<in> G" and open_: "typed_open oper (po_then p)"
    by (auto simp: fits_open_def)
  have handle: "well_typed G (call_cb (po_cb p) (Inr r) d1)"
    if "register f sz d = (r, d1)" and "\<And>i sz f. answers oper (Reply_Handle i sz f)" for f sz r d1
    using typed_register [OF that(1) assms(3)] that(2) oper by (auto intro!: typed_call_cb fits_answer)
  show ?thesis
  proof (cases result)
    case (Inl e)
    with assms oper show ?thesis by (auto simp: opened_def intro: typed_call_cb fits_error)
  next
    case (Inr fs)
    then obtain f sz where result: "result = Inr (f, sz)" by (cases fs) auto
    obtain r d1 where reg: "register f sz d = (r, d1)" by (cases "register f sz d")
    show ?thesis
    proof (cases "po_then p")
      case After_Handle
      with open_ obtain path spec where "oper = Op_Open path spec" by (cases oper) auto
      with handle [OF reg] assms(1) result reg After_Handle show ?thesis by (simp add: opened_def)
    next
      case (After_ReadFile m)
      with open_ obtain path k where fop: "oper = Op_ReadFile path k" by (cases oper) auto
      let ?kind = "Job_Read \<lparr>r_handle = None, r_fd = f, r_owned_fd = True, r_pos = 0,
                         r_want = Want_ToEnd, r_buf = Buf_Owned [] (max (unat sz) 1), r_filled = 0\<rparr>"
      have "typed_kind oper ?kind" unfolding fop by (rule typed_kind.intros) simp_all
      with handle [OF reg] assms result reg After_ReadFile oper fop show ?thesis
        by (auto simp: opened_def split: if_splits intro: typed_enqueue)
    next
      case (After_WriteFile data)
      with open_ obtain path where fop: "oper = Op_WriteFile path data" by (cases oper) auto
      let ?w = "\<lparr>w_handle = None, w_fd = f, w_owned_fd = True, w_pos = 0,
                   w_append = False, w_data = data, w_filled = 0\<rparr>"
      have "typed_kind oper (Job_Write ?w)" using typed_kind.write_file [of path ?w] fop by simp
      with assms result After_WriteFile oper show ?thesis by (auto simp: opened_def intro: typed_enqueue)
    qed
  qed
qed

lemma log_open_for:
  assumes "open_for K path spec thn s = (r, s')"
  shows "\<exists>evs. log s' = log s @ evs \<and> (\<forall>ev \<in> set evs. fits_event G ev)"
proof -
  have raw: "\<exists>evs. log s1 = log s @ evs \<and> (\<forall>ev \<in> set evs. fits_event G ev)"
    if "open_raw K path spec s = (x, s1)" for x s1
    using log_open_rawD [OF that] by (cases x) auto
  have "\<exists>evs. log s' = log s @ evs \<and> (\<forall>ev \<in> set evs. fits_event G ev)" if sized: "open_sized K path spec s = (r, s')"
  proof -
    obtain x s1 where one: "open_raw K path spec s = (x, s1)" by (cases "open_raw K path spec s")
    from raw [OF one] obtain evs where evs: "log s1 = log s @ evs" "\<forall>ev \<in> set evs. fits_event G ev" by blast
    show ?thesis
    proof (cases x)
      case (Inl e)
      with sized one evs show ?thesis by (auto simp: open_sized_def)
    next
      case (Inr f)
      obtain y s2 where two: "fd_size K f s1 = (y, s2)" by (cases "fd_size K f s1")
      with evs have s2: "log s2 = log s @ evs" by (auto dest: log_fd_sizeD)
      show ?thesis
      proof (cases y)
        case (Inl e)
        with sized one two Inr have "s' = snd (close_raw K f s2)" by (simp add: open_sized_def)
        with s2 evs(2) show ?thesis by (intro exI [of _ "evs @ [Ev_close f]"]) auto
      next
        case sz: (Inr n)
        with sized one two Inr s2 evs(2) show ?thesis by (auto simp: open_sized_def)
      qed
    qed
  qed
  with assms raw show ?thesis
    by (auto simp: open_for_def split: after_open.splits prod.splits sum.splits)
qed

lemma with_open_for: "with_os (open_for K path spec thn) d = (r, d') \<Longrightarrow> well_typed G d \<Longrightarrow> well_typed G d'"
  using log_open_for [of K path spec thn "os d" r "os d'" G]
  by (auto simp: with_os_def split: prod.splits intro: typed_log)

lemma typed_open_here:
  assumes "open_here K path spec p d = Some d'" and "bounded K" and "well_typed G d" and "fits_open G p"
  shows "well_typed G d'"
  using assms by (auto simp: open_here_def split: prod.splits dest: with_open_for intro: typed_opened)

lemma typed_open_then:
  assumes "open_then K i path spec thn c d = Some d'" and "bounded K" and "well_typed G d"
    and "(c, oper) \<in> G" and "typed_open oper thn"
  shows "well_typed G d'"
proof -
  let ?p = "\<lparr>po_id = i, po_then = thn, po_cb = c\<rparr>"
  have p: "fits_open G ?p" using assms(4,5) by (auto simp: fits_open_def)
  have sent: "well_typed G (d\<lparr>pending_opens := P, helper_tx := (helper_tx d)\<lparr>pending := pending (helper_tx d) @ [Helper_Open path spec ?p]\<rparr>\<rparr>)" for P
    using assms(3) p by (auto simp: well_typed_def jobs_def)
  have here: "well_typed G d'" if "open_here K path spec ?p (d\<lparr>pending_opens := P\<rparr>) = Some d'" for P
    by (rule typed_open_here [OF that assms(2) _ p]) (use assms(3) in simp)
  show ?thesis
  proof (cases "has_backlog d \<and> receivers (helper_tx d)")
    case True
    with assms(1) sent show ?thesis by (auto simp: open_then_def Let_def send_def)
  next
    case False
    with assms p here show ?thesis
      by (cases "has_backlog d") (auto simp: open_then_def Let_def send_def run_here_def intro: typed_open_here)
  qed
qed

lemma typed_with_syscall: "with_os (syscall f) d = (r, d') \<Longrightarrow> well_typed G d \<Longrightarrow> well_typed G d'"
  by (auto simp: with_os_def split: prod.splits intro!: typed_os dest: log_syscallD)

lemma typed_with_size: "with_os (fd_size K f) d = (r, d') \<Longrightarrow> well_typed G d \<Longrightarrow> well_typed G d'"
  by (auto simp: with_os_def split: prod.splits intro!: typed_os dest: log_fd_sizeD)

lemma typed_close:
  assumes "well_typed G d" and "(c, Op_Close h) \<in> G"
  shows "well_typed G (close K h c d)"
proof (cases "files d h")
  case (Some e)
  have c: "fits_close G c" using assms(2) by (auto simp: fits_close_def)
  have marked: "well_typed G (d\<lparr>files := (files d)(h \<mapsto> e\<lparr>fe_closing := Some c\<rparr>)\<rparr>)"
    and gone: "well_typed G (d\<lparr>files := (files d)(h := None)\<rparr>)"
    using assms(1) typed_fileD [OF assms(1)] c by (auto intro!: typed_files split: if_splits)
  have "well_typed G (call_cb c (close_reply r) d2)"
    if "with_os (close_raw K f) (d\<lparr>files := (files d)(h := None)\<rparr>) = (r, d2)" for r f d2
    using typed_with_close [OF that gone] c by (intro typed_call_cb fits_close_reply)
  with Some assms marked show ?thesis
    by (auto simp: close_def split: prod.split intro: typed_call_cb fits_error)
qed (use assms in \<open>auto simp: close_def intro: typed_call_cb fits_error\<close>)

lemma typed_handle_op:
  assumes "handle_op K i oper c d = Some d'" and "bounded K" and ok: "well_typed G d" and oper: "(c, oper) \<in> G"
  shows "well_typed G d'"
proof -
  have failed: "well_typed G (call_cb c (Inl e) d1)" if "well_typed G d1" for e d1
    using that oper by (intro typed_call_cb fits_error)
  have called: "well_typed G (call_cb c (Inr r) d1)" if "well_typed G d1" and "answers oper r" for r d1
    using that oper by (intro typed_call_cb fits_answer)
  have queued: "well_typed G d'" if "enqueue K i kind handle c d1 = Some d'" and "well_typed G d1" and "typed_kind oper kind"
    for kind handle d1
    using that assms(2) oper by (blast intro: typed_enqueue)
  show ?thesis
  proof (cases oper)
    case (Op_ReadAt h pos dst)
    show ?thesis
    proof (cases dst)
      case (Dest_Alloc len)
      have "typed_kind oper (Job_Read \<lparr>r_handle = Some h, r_fd = f, r_owned_fd = False, r_pos = pos,
          r_want = Want_Exact len, r_buf = Buf_Owned [] len, r_filled = 0\<rparr>)" for f
        unfolding Op_ReadAt Dest_Alloc by (rule typed_kind.intros) simp_all
      with assms(1) Op_ReadAt Dest_Alloc ok show ?thesis
        by (auto simp: handle_read_at_def split: sum.splits if_splits intro: failed called queued)
    next
      case (Dest_Into p len)
      have "typed_kind oper (Job_Read \<lparr>r_handle = Some h, r_fd = f, r_owned_fd = False, r_pos = pos,
          r_want = Want_Exact len, r_buf = Buf_External p len, r_filled = 0\<rparr>)" for f
        unfolding Op_ReadAt Dest_Into by (rule typed_kind.intros) simp_all
      with assms(1) Op_ReadAt Dest_Into ok show ?thesis
        by (auto simp: handle_read_at_def split: sum.splits if_splits intro: failed called queued)
    qed
  next
    case (Op_ReadToEnd h pos)
    have "typed_kind oper (Job_Read \<lparr>r_handle = Some h, r_fd = f, r_owned_fd = False, r_pos = pos,
        r_want = Want_ToEnd, r_buf = Buf_Owned [] cap, r_filled = 0\<rparr>)" for f cap
      unfolding Op_ReadToEnd by (rule typed_kind.intros) simp_all
    with assms(1) Op_ReadToEnd ok show ?thesis
      by (auto simp: handle_read_to_end_def Let_def split: sum.splits prod.splits dest: typed_with_size intro: failed queued)
  next
    case (Op_WriteAt h pos data app)
    have "typed_kind oper (Job_Write \<lparr>w_handle = Some h, w_fd = f, w_owned_fd = False, w_pos = pos,
        w_append = app, w_data = data, w_filled = 0\<rparr>)" for f
      using typed_kind.write_at [of h pos "\<lparr>w_handle = Some h, w_fd = f, w_owned_fd = False, w_pos = pos,
        w_append = app, w_data = data, w_filled = 0\<rparr>" app] Op_WriteAt by simp
    with assms(1) Op_WriteAt ok show ?thesis
      by (auto simp: handle_write_at_def payload_is_empty_def split: sum.splits prod.splits if_splits
          dest: typed_with_size intro: failed called queued)
  next
    case (Op_Close h)
    with assms(1) ok oper show ?thesis by (auto intro: typed_close)
  next
    case (Op_Sync h data_only)
    have "typed_kind oper (Job_Fsync f)" for f unfolding Op_Sync by (rule typed_kind.intros)
    with assms(1) Op_Sync ok show ?thesis
      by (auto simp: handle_sync_def split: sum.splits intro: failed queued)
  next
    case (Op_SetLen h sz)
    with assms(1) ok show ?thesis
      by (auto simp: handle_set_len_def close_reply_def split: sum.splits prod.splits dest: typed_with_syscall
          intro: failed called)
  next
    case (Op_Size h)
    with assms(1) ok show ?thesis
      by (auto simp: handle_size_def split: sum.splits prod.splits dest: typed_with_size intro: failed called)
  next
    case Op_Nop
    with assms(1) ok show ?thesis by (auto intro: called)
  qed (use assms in \<open>auto intro: typed_open_then\<close>)
qed

lemma typed_cancel_op:
  assumes "well_typed G d"
  shows "well_typed G (cancel_op K i d)"
proof (cases "position (\<lambda>j. j_id j = i) (queue d)")
  case (Some pos)
  let ?d = "d\<lparr>queue := remove_at (queue d) pos\<rparr>"
  from position_SomeD [OF Some] have job: "fits_job G (queue d ! pos)"
    by (auto intro: typed_queueD [OF assms])
  have "well_typed G ?d"
    using assms set_remove_at [of "queue d" pos] typed_queueD [OF assms] by (auto intro!: typed_queue)
  with job Some show ?thesis by (auto simp: cancel_op_def intro: typed_finish fits_job_error)
next
  case None
  have "well_typed G (d\<lparr>inflight := (inflight d)[k := (inflight d ! k)\<lparr>in_job := (in_job (inflight d ! k))\<lparr>j_cancelled := True\<rparr>\<rparr>], os := s\<rparr>)"
    if "k < length (inflight d)" and "log s = log (os d)" for k s
  proof -
    have "fits_job G (in_job e)" if "e \<in> set ((inflight d)[k := (inflight d ! k)\<lparr>in_job := (in_job (inflight d ! k))\<lparr>j_cancelled := True\<rparr>\<rparr>])" for e
      using that set_update_subset_insert [of "inflight d" k] typed_inflightD [OF assms] nth_mem [OF \<open>k < length (inflight d)\<close>]
      by (fastforce simp: fits_job_def)
    then have "well_typed G (d\<lparr>inflight := (inflight d)[k := (inflight d ! k)\<lparr>in_job := (in_job (inflight d ! k))\<lparr>j_cancelled := True\<rparr>\<rparr>]\<rparr>)"
      using assms by (blast intro: typed_inflight)
    from typed_os [OF this, of s] that(2) show ?thesis by simp
  qed
  with None assms show ?thesis
    by (auto simp: cancel_op_def Let_def split: option.splits dest: position_SomeD)
qed

lemma typed_handle_msg:
  assumes "handle_msg K m d = Some d'" and "bounded K" and "well_typed G d" and "fits_msg G m"
  shows "well_typed G d'"
  using assms by (cases m) (auto intro: typed_handle_op [where d = "d\<lparr>progress := True\<rparr>"] typed_cancel_op)

lemma typed_handle_opened:
  assumes "handle_opened K om d = Some d'" and "bounded K" and "well_typed G d" and "fits_open G (op_pending om)"
  shows "well_typed G d'"
proof -
  let ?d = "d\<lparr>progress := True, pending_opens := pending_opens d - {po_id (op_pending om)}\<rparr>"
  let ?e = "?d\<lparr>cancelled_opens := cancelled_opens d - {po_id (op_pending om)}\<rparr>"
  have ok: "well_typed G ?d" "well_typed G ?e" using assms(3) by simp_all
  have "well_typed G (call_cb (po_cb (op_pending om)) (Inl cancelled_error)
      (case op_result om of Inr (f, _) \<Rightarrow> run_close K f ?e | Inl _ \<Rightarrow> ?e))"
    using ok(2) assms(4) by (auto split: sum.split intro!: typed_call_cb fits_open_error typed_run_close)
  with assms(1,2,4) ok(1) show ?thesis
    by (auto simp: handle_opened_def Let_def split: if_splits intro: typed_opened)
qed

lemma typed_settle_reaped:
  assumes "settle_reaped K j err n bs d = Some d'" and "bounded K" and "well_typed G d"
    and "fits_job G j" and "moved (j_kind j) n bs"
  shows "well_typed G d'"
proof (cases err)
  case (Some e)
  with assms show ?thesis by (auto simp: settle_reaped_def intro: typed_finish fits_job_error)
next
  case None
  obtain j1 s1 where del: "deliver_bytes j bs (os d) = (j1, s1)" by (cases "deliver_bytes j bs (os d)")
  obtain x j2 s2 where st: "step K j1 n s1 = (x, j2, s2)" by (cases "step K j1 n s1") auto
  note facts = typed_step [OF assms(4,5) del st]
  have log: "log s2 = log (os d)" using deliver_bytes_same [OF del] step_same [OF st] by simp
  then have d2: "well_typed G (d\<lparr>os := s2\<rparr>)" using assms(3) by (auto intro: typed_os)
  show ?thesis
  proof (cases x)
    case (Step_Done y)
    with facts d2 assms(1) None del st show ?thesis
      by (auto simp: settle_reaped_def advance_def intro: typed_finish)
  next
    case Step_More
    with facts have j2: "fits_job G j2" by simp
    with d2 have "well_typed G (d\<lparr>os := s2, queue := j2 # queue d\<rparr>)"
      using typed_queueD [OF assms(3)] by (auto intro!: typed_queue)
    with j2 d2 Step_More assms(1,2) None del st show ?thesis
      by (auto simp: settle_reaped_def advance_def split: if_splits intro: typed_finish fits_job_error typed_submit_ready)
  qed
qed

lemma typed_reap_one:
  assumes "reap_one K k d = Some (k', d')" and "k < length (inflight d)" and "bounded K" and "well_typed G d" and "slots_inv d"
  shows "well_typed G d'"
proof -
  let ?e = "inflight d ! k"
  let ?d = "\<lambda>w. d\<lparr>inflight := swap_remove (inflight d) k, progress := True, os := (os d)\<lparr>world := w\<rparr>\<rparr>"
  have e: "fits_job G (in_job ?e)" "in_aiocb ?e = control_block (in_job ?e)"
    using assms(2,5) typed_inflightD [OF assms(4)] by (auto simp: slots_inv_def)
  have "well_typed G (d\<lparr>inflight := swap_remove (inflight d) k\<rparr>)"
    using assms(4) set_swap_remove [OF assms(2)] typed_inflightD [OF assms(4)] by (auto intro!: typed_inflight)
  then have rest: "well_typed G (?d w)" for w by (auto intro!: typed_os [where d = "d\<lparr>inflight := x, progress := y\<rparr>" for x y])
  have idle: "well_typed G (d\<lparr>os := (os d)\<lparr>world := w\<rparr>\<rparr>)" for w using assms(4) by (auto intro: typed_os)
  have "well_typed G d2" if "settle_reaped K (in_job ?e) err n bs (?d w') = Some d2"
    and "aio_return K (control_block (in_job ?e)) w = ((n, bs), w')" for err n bs w w' d2
    using typed_settle_reaped [OF that(1) assms(3) rest e(1) moved_return [OF assms(3) that(2)]] .
  with assms(1) e(2) idle show ?thesis
    by (auto simp: reap_one_def Let_def split: prod.splits if_splits)
qed

lemma typed_lose_helpers: "well_typed G d \<Longrightarrow> well_typed G (lose_helpers d)"
  by (simp add: lose_helpers_def)

text \<open>The messages in the channels fit too.\<close>

definition typed_mail :: "typing \<Rightarrow> 'k aio \<Rightarrow> bool" where
  "typed_mail G d \<longleftrightarrow> (\<forall>m \<in> set (pending (rx d)). fits_msg G m) \<and>
     (\<forall>om \<in> set (pending (back_rx d)). fits_open G (op_pending om))"

lemma typed_take_rx:
  assumes "try_recv (rx d) = (Received m, r)" and "handle_msg K m (d\<lparr>rx := r\<rparr>) = Some d'"
    and "bounded K" and "well_typed G d" and "typed_mail G d"
  shows "well_typed G d'"
  using assms try_recv_D [OF assms(1)]
  by (intro typed_handle_msg [OF assms(2)]) (auto simp: typed_mail_def)

lemma typed_take_back:
  assumes "try_recv (back_rx d) = (Received om, b)" and "handle_opened K om (d\<lparr>back_rx := b\<rparr>) = Some d'"
    and "bounded K" and "well_typed G d" and "typed_mail G d"
  shows "well_typed G d'"
  using assms try_recv_D [OF assms(1)]
  by (intro typed_handle_opened [OF assms(2)]) (auto simp: typed_mail_def)

lemma typed_wait_idle: "wait_idle K d d' \<Longrightarrow> bounded K \<Longrightarrow> well_typed G d \<Longrightarrow> typed_mail G d \<Longrightarrow> well_typed G d'"
  by (induction rule: wait_idle.induct)
     (auto intro: typed_take_rx typed_take_back typed_lose_helpers)

lemma typed_run_step:
  assumes "run_step K (p, d) (p', d')" and "bounded K" and "well_typed G d" and "typed_mail G d" and "slots_inv d"
  shows "well_typed G d'"
  using assms
proof (cases rule: run_step.cases)
  case top_return
  with assms(3) show ?thesis by (auto simp: drop_driver_def well_typed_def jobs_def)
next
  case wait_inflight
  with assms(3) show ?thesis by (auto simp: suspend_def Let_def intro: typed_os)
next
  case (submitting d1)
  with assms have "well_typed G d1" by (auto intro: typed_submit_ready)
  with submitting show ?thesis by (simp add: adapt_def)
qed (auto intro: typed_reap_one typed_wait_idle typed_take_rx typed_take_back typed_lose_helpers)

section \<open>The system keeps the types\<close>

lemma typed_helper_body:
  assumes "well_typed G d" and "fits_helper G hj"
  shows "well_typed G (helper_body K hj d)"
proof (cases hj)
  case (Helper_Open path spec p)
  obtain r d1 where one: "with_os (open_for K path spec (po_then p)) d = (r, d1)"
    by (cases "with_os (open_for K path spec (po_then p)) d")
  with assms(1) have "well_typed G d1" by (auto intro: with_open_for)
  moreover have "fits_result G (po_cb p) (Inl driver_gone)" using assms(2) Helper_Open by (simp add: fits_open_error)
  ultimately show ?thesis using one Helper_Open
    by (auto simp: helper_body_def Let_def send_def split: sum.split intro: typed_call_cb typed_run_close)
qed (use assms in \<open>simp add: helper_body_def typed_run_close\<close>)

text \<open>Handling a message leaves the driver's ends of its channels alone.\<close>

definition same_mail :: "'k aio \<Rightarrow> 'k aio \<Rightarrow> bool" where
  "same_mail d d' \<longleftrightarrow> rx d' = rx d \<and> back_rx d' = back_rx d"

interpretation mail: msg_frame "same_mail :: 'k aio \<Rightarrow> 'k aio \<Rightarrow> bool"
  by unfold_locales (simp_all add: same_mail_def)

lemma same_mail_typed: "same_mail d d' \<Longrightarrow> typed_mail G d \<Longrightarrow> typed_mail G d'"
  by (simp add: same_mail_def typed_mail_def)

lemma typed_mail_received:
  assumes "typed_mail G d"
  shows "try_recv (rx d) = (Received m, r) \<Longrightarrow> typed_mail G (d\<lparr>rx := r\<rparr>)"
    and "try_recv (back_rx d) = (Received om, b) \<Longrightarrow> typed_mail G (d\<lparr>back_rx := b\<rparr>)"
  using assms by (auto simp: typed_mail_def dest: try_recv_D)

lemma mail_take:
  assumes "typed_mail G d"
  shows "try_recv (rx d) = (Received m, r) \<Longrightarrow> handle_msg K m (d\<lparr>rx := r\<rparr>) = Some d' \<Longrightarrow> typed_mail G d'"
    and "try_recv (back_rx d) = (Received om, b) \<Longrightarrow> handle_opened K om (d\<lparr>back_rx := b\<rparr>) = Some d' \<Longrightarrow> typed_mail G d'"
  using typed_mail_received [OF assms] mail.handle_msg mail.handle_opened by (blast intro: same_mail_typed)+

lemma typed_mail_updates [simp]:
  "typed_mail G (d\<lparr>disconnected := x\<rparr>) = typed_mail G d" "typed_mail G (lose_helpers d) = typed_mail G d"
  "typed_mail G (drop_driver d) = typed_mail G d" "typed_mail G (suspend K d) = typed_mail G d"
  "typed_mail G (adapt d) = typed_mail G d" "typed_mail G (d\<lparr>helper_tx := h\<rparr>) = typed_mail G d"
  "typed_mail G (d\<lparr>os := s\<rparr>) = typed_mail G d"
  by (simp_all add: typed_mail_def lose_helpers_def drop_driver_def suspend_def adapt_def Let_def)

lemma mail_wait_idle: "wait_idle K d d' \<Longrightarrow> typed_mail G d \<Longrightarrow> typed_mail G d'"
  by (induction rule: wait_idle.induct) (auto intro: mail_take)

lemma mail_run_step:
  assumes "run_step K (p, d) (p', d')" and "typed_mail G d"
  shows "typed_mail G d'"
  using assms
  by (cases rule: run_step.cases)
     (auto intro: mail_wait_idle mail_take same_mail_typed mail.reap_one mail.submit_ready)

definition typed_system :: "typing \<Rightarrow> 'k system \<Rightarrow> bool" where
  "typed_system G s \<longleftrightarrow> well_typed G (drv s) \<and> typed_mail G (drv s) \<and> (\<forall>hj \<in> set (busy s). fits_helper G hj)"

lemma typed_system_mono:
  assumes "typed_system G s" and "G \<subseteq> H"
  shows "typed_system H s"
proof -
  have result: "fits_result G c res \<Longrightarrow> fits_result H c res" for c res
    using assms(2) by (auto simp: fits_result_def)
  have job: "fits_job G j \<Longrightarrow> fits_job H j" for j using assms(2) by (auto simp: fits_job_def)
  have close: "fits_close G c \<Longrightarrow> fits_close H c" for c using assms(2) by (auto simp: fits_close_def)
  have open_: "fits_open G p \<Longrightarrow> fits_open H p" for p using assms(2) by (auto simp: fits_open_def)
  have helper: "fits_helper G hj \<Longrightarrow> fits_helper H hj" for hj using open_ by (cases hj) auto
  have event: "fits_event G ev \<Longrightarrow> fits_event H ev" for ev using result by (cases ev) auto
  have msg: "fits_msg G m \<Longrightarrow> fits_msg H m" for m using assms(2) by (cases m) auto
  from assms(1) have "well_typed G (drv s)" "typed_mail G (drv s)" "\<forall>hj \<in> set (busy s). fits_helper G hj"
    by (simp_all add: typed_system_def)
  moreover from this(1) have "well_typed H (drv s)" using job close helper event unfolding well_typed_def by blast
  moreover from calculation have "typed_mail H (drv s)" using msg open_ unfolding typed_mail_def by blast
  ultimately show ?thesis using helper by (auto simp: typed_system_def)
qed

lemma typed_submit:
  assumes "submit oper c fr tx = (i, fr', tx', calls)"
  shows "(\<forall>m \<in> set (pending tx'). m \<in> set (pending tx) \<or> m = Msg_Submit i oper c) \<and>
    (\<forall>(c', res) \<in> set calls. c' = c \<and> res = Inl driver_gone)"
  using assms by (auto simp: submit_cases split: if_splits)

lemma typed_system_step:
  assumes "sys_step K n s s'" and "bounded K" and "typed_system (set (asked s)) s" and "slots_inv (drv s)"
  shows "typed_system (set (asked s')) s'"
  using assms(1)
proof (cases rule: sys_step.cases)
  case (submits oper c i fr tx calls)
  let ?G = "insert (c, oper) (set (asked s))" and ?os = "log_calls calls (os (drv s))"
  have all: "typed_system ?G s" using assms(3) by (rule typed_system_mono) auto
  have "\<forall>ev \<in> set (map (\<lambda>(c, r). Ev_call c r) calls). fits_event ?G ev"
    using typed_submit [OF submits(3)] by (fastforce simp: fits_result_def)
  then have "well_typed ?G ((drv s)\<lparr>rx := tx, os := ?os\<rparr>)"
    using all by (intro typed_log) (auto simp: typed_system_def log_calls_def)
  moreover have "typed_mail ?G ((drv s)\<lparr>rx := tx\<rparr>)"
    using all typed_submit [OF submits(3)] by (auto simp: typed_system_def typed_mail_def)
  ultimately show ?thesis using all submits(1) by (simp add: typed_system_def typed_mail_def)
next
  case (cancels i)
  then show ?thesis using assms(3)
    by (auto simp: typed_system_def typed_mail_def cancel_def send_def split: sum.split)
next
  case drops
  then show ?thesis using assms(3) by (simp add: typed_system_def typed_mail_def)
next
  case (drives p d)
  then show ?thesis using assms(2-4) by (auto simp: typed_system_def intro: typed_run_step mail_run_step)
next
  case (takes hj h)
  then have "pending (helper_tx (drv s)) = hj # pending h" by (auto dest: try_recv_D)
  then show ?thesis using assms(3) takes(1) by (auto simp: typed_system_def well_typed_def jobs_def)
next
  case (helps k)
  let ?G = "set (asked s)" and ?hj = "busy s ! k"
  have hj: "fits_helper ?G ?hj" using assms(3) helps(2) by (simp add: typed_system_def)
  have "typed_mail ?G (helper_body K ?hj (drv s))"
    using assms(3) hj
    by (auto simp: helper_body_def run_close_def with_os_def typed_system_def typed_mail_def call_cb_def Let_def send_def
        split: helper_job.split prod.split sum.split)
  moreover have "\<forall>hj \<in> set (remove_at (busy s) k). fits_helper ?G hj"
    using assms(3) set_remove_at [of "busy s" k] by (auto simp: typed_system_def)
  moreover have "well_typed ?G (helper_body K ?hj (drv s))"
    using assms(3) hj by (auto simp: typed_system_def intro: typed_helper_body)
  ultimately show ?thesis using helps(1) by (simp add: typed_system_def)
qed

lemma typed_reachable: "reachable K n s \<Longrightarrow> bounded K \<Longrightarrow> typed_system (set (asked s)) s"
proof (induction rule: reachable.induct)
  case (init s)
  show ?case by (simp add: typed_system_def well_typed_def typed_mail_def start_system_def aio_new_def jobs_def new_channel_def)
next
  case (step s s')
  have "slots_inv (drv s)" using drv_inv_reachable [OF step.hyps(1)] by (simp add: drv_inv_def)
  with step show ?case by (auto intro: typed_system_step)
qed

lemma typed_event:
  assumes "reachable K n s" and "bounded K" and "Ev_call c (Inr r) \<in> set (log (os (drv s)))"
  shows "\<exists>oper. (c, oper) \<in> set (asked s) \<and> answers oper r"
proof -
  from typed_reachable [OF assms(1,2)] assms(3) have "fits_event (set (asked s)) (Ev_call c (Inr r))"
    unfolding typed_system_def well_typed_def by blast
  then show ?thesis by (auto simp: fits_result_def)
qed

section \<open>The contract of a backend\<close>

fun reply_of :: "event \<Rightarrow> (cb \<times> reply io) list" where
  "reply_of (Ev_call c r) = [(c, r)]"
| "reply_of _ = []"

definition aio_replied :: "'k system \<Rightarrow> (cb \<times> reply io) list" where
  "aio_replied s = concat (map reply_of (log (os (drv s))))"

lemma aio_replied_invoked: "map fst (aio_replied s) = invoked s"
proof -
  have "map fst (reply_of ev) = call_of ev" for ev by (cases ev) simp_all
  then show ?thesis by (simp add: aio_replied_def invoked_def map_concat comp_def)
qed

lemma aio_replied_event: "(c, r) \<in> set (aio_replied s) \<longleftrightarrow> Ev_call c r \<in> set (log (os (drv s)))"
proof -
  have "(c, r) \<in> set (reply_of ev) \<longleftrightarrow> ev = Ev_call c r" for ev by (cases ev) auto
  then show ?thesis by (auto simp: aio_replied_def)
qed

text \<open>The AIO system as the backend of the program.\<close>

definition aio_view :: "'k kernel \<Rightarrow> nat \<Rightarrow> 'k system backend_view" where
  "aio_view K n = \<lparr>bk_start = (\<lambda>s. \<exists>w. s = start_system K w), bk_step = sys_step K n,
     bk_asked = asked, bk_replied = aio_replied\<rparr>"

lemma aio_view_simps [simp]:
  "bk_start (aio_view K n) s = (\<exists>w. s = start_system K w)" "bk_step (aio_view K n) = sys_step K n"
  "bk_asked (aio_view K n) = asked" "bk_replied (aio_view K n) = aio_replied"
  by (simp_all add: aio_view_def)

lemma start_system_blank: "asked (start_system K w) = [] \<and> aio_replied (start_system K w) = []"
  by (simp add: aio_replied_def start_system_def aio_new_def)

text \<open>The driver has returned, or has nothing to do and nothing on its way to it.\<close>

definition aio_idle :: "'k system \<Rightarrow> bool" where
  "aio_idle s \<longleftrightarrow> at s = Halted \<or>
     idle (drv s) \<and> pending (rx (drv s)) = [] \<and> pending (back_rx (drv s)) = [] \<and>
       pending (helper_tx (drv s)) = [] \<and> busy s = []"

lemma aio_idle_settled:
  assumes "reachable K n s" and "aio_idle s"
  shows "cbs (outstanding s) = {#}"
  using assms(2) halted_no_callbacks nothing_left sys_inv_reachable [OF assms(1)] unfolding aio_idle_def by blast

interpretation aio_program: program "\<lambda>s. reachable K n s \<and> bounded K" aio_idle "aio_view K n" "bounded K"
  for K :: "'k kernel" and n
proof unfold_locales
  fix s s' :: "'k system"
  assume s: "reachable K n s \<and> bounded K"
  then have books: "mset (invoked s) + cbs (outstanding s) = mset (map fst (asked s))" by (blast intro: reachable_callbacks)
  then show "mset (map fst (bk_replied (aio_view K n) s)) \<subseteq># mset (map fst (bk_asked (aio_view K n) s))"
    by (simp only: aio_view_simps aio_replied_invoked) (metis mset_subset_eq_add_left)
  show "mset (map fst (bk_replied (aio_view K n) s)) = mset (map fst (bk_asked (aio_view K n) s))" if "aio_idle s"
    using s that books aio_idle_settled [of K n s] by (simp only: aio_view_simps aio_replied_invoked) simp
  show "\<exists>oper. (c, oper) \<in> set (bk_asked (aio_view K n) s) \<and> answers oper r"
    if "(c, Inr r) \<in> set (bk_replied (aio_view K n) s)" for c r
    using s that by (auto simp: aio_replied_event intro: typed_event)
  assume "bk_step (aio_view K n) s s'"
  then have one: "sys_step K n s s'" by simp
  with s show "reachable K n s' \<and> bounded K" by (blast intro: reachable.step)
  from logs.sys_step [OF one] show "\<exists>rs. bk_replied (aio_view K n) s' = bk_replied (aio_view K n) s @ rs"
    by (auto simp: grows_def aio_replied_def)
next
  fix s :: "'k system"
  assume "bounded K" and "bk_start (aio_view K n) s"
  then show "(reachable K n s \<and> bounded K) \<and> bk_asked (aio_view K n) s = [] \<and> bk_replied (aio_view K n) s = []"
    using start_system_blank by (auto intro: reachable.init)
qed

lemma aio_asks: "asks_one_by_one (aio_view K n)"
  by (auto simp: asks_one_by_one_def elim: sys_step.cases)

lemma aio_reach: "reachable K n s \<Longrightarrow> bk_reach (aio_view K n) s"
proof (induction rule: reachable.induct)
  case (init s)
  show ?case by (rule bk_reach.starts) auto
next
  case (step s s')
  from step.IH show ?case by (rule bk_reach.step) (use step.hyps in simp)
qed

text \<open>
  C22: Every reply the AIO backend hands to a callback is of the kind its op asked for: a handle
  for an open, at most as many bytes as were asked for by a sized read, the whole payload's
  length for a write, nothing for a close, a sync or a truncation; whatever the kernel does
  and however the threads interleave.
\<close>

theorem aio_replies_typed:
  assumes "reachable K n s" and "bounded K" and "distinct (map fst (asked s))"
    and "(c, oper) \<in> set (asked s)" and "Ev_call c (Inr r) \<in> set (log (os (drv s)))"
  shows "answers oper r"
proof -
  from typed_event [OF assms(1,2,5)] obtain oper' where "(c, oper') \<in> set (asked s)" and "answers oper' r" by blast
  with assms(3,4) show ?thesis by (metis map_of_eq_Some_iff option.inject)
qed

theorem aio_replies_typed_witness:
  "Ev_call 12 (Inr (Reply_Bytes [3, 4, 5, 6])) \<in> set (log (os (drv demo_done))) \<and>
   answers (Op_ReadAt 1 2 (Dest_Alloc 5)) (Reply_Bytes [3, 4, 5, 6])"
proof -
  have call: "Ev_call 12 (Inr (Reply_Bytes [3, 4, 5, 6])) \<in> set (log (os (drv demo_done)))" by code_simp
  have asked: "(12, Op_ReadAt 1 2 (Dest_Alloc 5)) \<in> set (asked demo_done)" by code_simp
  have "distinct (map fst (asked demo_done))" using demo_done_at by simp
  from aio_replies_typed [OF demo_reachable(2) disk_bounded this asked call] call show ?thesis by blast
qed

end
