(* ===== verification/Aio_Memory.thy ===== *)
theory Aio_Memory
  imports Aio_Typed
begin

text \<open>
  Memory safety of the AIO backend.  A caller lends the backend a range of its memory with a
  read into that range, until the callback of the read has been invoked.  Whatever the
  driver does in one step, over all jobs it completes, resubmits or runs on the spot, it
  writes only to memory it has on loan.  The kernel's own copy is part of the step that reaps
  the request; that a request with the kernel asks for nothing outside its buffer is
  shown in \<open>Aio_Bounds\<close>.
\<close>

section \<open>Jobs confined to a region\<close>

definition inside :: "(addr \<Rightarrow> bool) \<Rightarrow> addr \<Rightarrow> nat \<Rightarrow> bool" where
  "inside A p len \<longleftrightarrow> (\<forall>a. p \<le> a \<and> a < p + len \<longrightarrow> A a)"

definition confined :: "(addr \<Rightarrow> bool) \<Rightarrow> job \<Rightarrow> bool" where
  "confined A j \<longleftrightarrow> (\<forall>r p len. j_kind j = Job_Read r \<longrightarrow> r_buf r = Buf_External p len \<longrightarrow>
     r_filled r \<le> len \<and> inside A p len)"

definition same_outside :: "(addr \<Rightarrow> bool) \<Rightarrow> mem \<Rightarrow> mem \<Rightarrow> bool" where
  "same_outside A m m' \<longleftrightarrow> (\<forall>a. \<not> A a \<longrightarrow> m' a = m a)"

lemma confined_deliver:
  assumes "confined A j" and "moved (j_kind j) n bs" and "deliver_bytes j bs s = (j1, s1)"
  shows "same_outside A (memory s) (memory s1)"
proof (cases "j_kind j")
  case (Job_Read r)
  with assms show ?thesis
    by (cases "r_buf r") (auto simp: deliver_bytes_def deliver_read_def store_def confined_def inside_def same_outside_def)
qed (use assms(3) in \<open>auto simp: deliver_bytes_def same_outside_def\<close>)

lemma confined_step:
  assumes "confined A j" and "moved (j_kind j) n bs" and "deliver_bytes j bs s = (j1, s1)"
    and "step K j1 n s1 = (res, j2, s2)"
  shows "confined A j2"
proof (cases "j_kind j")
  case (Job_Read r)
  obtain r1 t1 where del: "deliver_read r bs s = (r1, t1)" by (cases "deliver_read r bs s")
  obtain res' r2 t2 where st: "step_read K r1 n t1 = (res', r2, t2)" by (cases "step_read K r1 n t1") auto
  have kind: "j_kind j2 = Job_Read r2" using Job_Read assms(3,4) del st by (auto simp: deliver_bytes_def step_def)
  have same: "r_buf r1 = Buf_External p len \<and> r_filled r2 = r_filled r1 + n" if "r_buf r2 = Buf_External p len" for p len
    using st that by (auto simp: step_read_def grow_def Let_def split: if_splits prod.splits bool.splits read_buf.splits)
  have "r_buf r = Buf_External p len \<and> r_filled r1 = r_filled r" if "r_buf r1 = Buf_External p len" for p len
    using del that by (auto simp: deliver_read_def split: read_buf.splits)
  with same assms(1,2) Job_Read kind show ?thesis by (fastforce simp: confined_def)
next
  case (Job_Write w)
  with assms(3,4) show ?thesis by (auto simp: deliver_bytes_def step_def confined_def split: prod.splits)
next
  case (Job_Fsync f)
  with assms(3,4) show ?thesis by (auto simp: deliver_bytes_def step_def confined_def)
qed

lemma sync_chunk_stops: "sync_chunk K j s = (Inl e, j1, s1) \<Longrightarrow> memory s1 = memory s"
  by (auto simp: sync_chunk_def Let_def split: job_kind.splits prod.splits sum.splits if_splits
      dest: memory_syscallD)

text \<open>A whole job in the fallback loop.\<close>

lemma confined_sync_loop:
  assumes "sync_loop K j s = Some (j', res, s')" and "bounded K" and "confined A j"
  shows "same_outside A (memory s) (memory s')"
proof -
  let ?P = "\<lambda>K j s out. bounded K \<longrightarrow> confined A j \<longrightarrow>
      (case out of (j', res, s') \<Rightarrow> same_outside A (memory s) (memory s'))"
  have "?P K j s (j', res, s')"
  proof (rule sync_loop.raw_induct [where P = ?P, OF _ assms(1)], goal_cases)
    case (1 loop K j s out)
    show ?case
    proof (intro impI)
      assume K: "bounded K" and j: "confined A j"
      obtain r j1 s1 where chunk: "sync_chunk K j s = (r, j1, s1)" by (cases "sync_chunk K j s") auto
      show "case out of (j', res, s') \<Rightarrow> same_outside A (memory s) (memory s')"
      proof (cases r)
        case (Inl e)
        with 1(2) chunk show ?thesis by (auto simp: same_outside_def dest: sync_chunk_stops)
      next
        case (Inr n)
        with sync_chunk_moved [OF K] chunk obtain bs s0
          where moved: "moved (j_kind j) n bs" and mem: "memory s0 = memory s"
            and del: "deliver_bytes j bs s0 = (j1, s1)" by blast
        obtain x j2 s2 where st: "step K j1 n s1 = (x, j2, s2)" by (cases "step K j1 n s1") auto
        have here: "same_outside A (memory s) (memory s2)"
          using confined_deliver [OF j moved del] memory_stepD [OF st] mem by simp
        have "same_outside A (memory s2) (memory s3)" if "loop K j2 s2 = Some (j3, y, s3)" for j3 y s3
          using 1(1) [OF that] K confined_step [OF j moved del st] by simp
        with 1(2) chunk Inr st here show ?thesis
          by (auto simp: same_outside_def split: step_result.splits prod.splits)
      qed
    qed
  qed
  with assms(2,3) show ?thesis by simp
qed

text \<open>
  Confinement is a law of the jobs of every kernel that keeps its promise, and staying the
  same outside the region one of memory.
\<close>

interpretation region: job_law K "inside A" "\<lambda>j. bounded K \<longrightarrow> confined A j"
    "\<lambda>m. bounded K \<longrightarrow> same_outside A m0 m" for K A m0
proof (unfold_locales, goal_cases)
  case (1 kind i c)
  then show ?case by cases (simp_all add: confined_def inside_def)
next
  case (3 j s w n bs w' j1 s1)
  then show ?case using confined_deliver [OF _ moved_return] by (fastforce simp: same_outside_def)
next
  case (4 j w n bs w' s j1 s1 j2 s2)
  show ?case
  proof
    assume "bounded K"
    with 4(1) confined_step [OF _ moved_return [OF _ 4(2)] 4(3,4)] show "confined A j2" by blast
  qed
next
  case (5 j s j' res s')
  then show ?case using confined_sync_loop by (fastforce simp: same_outside_def)
qed (simp add: confined_def)

section \<open>Memory on loan\<close>

text \<open>The addresses of reads that have been asked for and not been answered.\<close>

definition on_loan :: "'k system \<Rightarrow> addr \<Rightarrow> bool" where
  "on_loan s a \<longleftrightarrow> (\<exists>c h pos p len. (c, Op_ReadAt h pos (Dest_Into p len)) \<in> set (asked s) \<and>
     c \<in># cbs (outstanding s) \<and> p \<le> a \<and> a < p + len)"

lemma token_cbs: "T_cb c \<in># M \<Longrightarrow> c \<in># cbs M"
  by (induction M) (auto simp: cbs_def)

lemma job_outstanding: "j \<in> set (jobs (drv s)) \<Longrightarrow> j_cb j \<in># cbs (outstanding s)"
  by (rule token_cbs) (auto simp: outstanding_def held_def in_sum_list_mset job_tokens_def)

lemma msg_outstanding: "Msg_Submit i oper c \<in> set (pending (rx (drv s))) \<Longrightarrow> c \<in># cbs (outstanding s)"
  by (rule token_cbs) (force simp: outstanding_def transit_def in_sum_list_mset)

lemma job_on_loan:
  assumes "fits_job (set (asked s)) j" and "j \<in> set (jobs (drv s))"
  shows "confined (on_loan s) j"
proof -
  from assms(1) obtain oper where oper: "(j_cb j, oper) \<in> set (asked s)" and kind: "typed_kind oper (j_kind j)"
    by (auto simp: fits_job_def)
  show ?thesis
    unfolding confined_def
  proof (intro allI impI)
    fix r p len
    assume r: "j_kind j = Job_Read r" "r_buf r = Buf_External p len"
    with kind obtain h pos where "oper = Op_ReadAt h pos (Dest_Into p len)" and "r_filled r \<le> len"
      by (auto elim: typed_readE)
    with oper job_outstanding [OF assms(2)]
    show "r_filled r \<le> len \<and> inside (on_loan s) p len"
      unfolding on_loan_def inside_def by blast
  qed
qed

lemma msg_on_loan:
  assumes "fits_msg (set (asked s)) m" and "m \<in> set (pending (rx (drv s)))"
  shows "msg_lends (inside (on_loan s)) m"
proof (cases m)
  case (Msg_Submit i oper c)
  with assms have "(c, oper) \<in> set (asked s)" and "c \<in># cbs (outstanding s)"
    by (auto dest: msg_outstanding)
  then have "op_lends (inside (on_loan s)) oper"
    by (cases "(inside (on_loan s), oper)" rule: op_lends.cases) (simp_all add: inside_def on_loan_def, blast)
  with Msg_Submit show ?thesis by simp
qed simp

lemma memory_sys_step:
  assumes "reachable K n s" and "bounded K" and "sys_step K n s s'"
  shows "same_outside (on_loan s) (memory (os (drv s))) (memory (os (drv s')))"
proof -
  have typed: "typed_system (set (asked s)) s" using assms(1,2) by (rule typed_reachable)
  have "obeys (\<lambda>j. bounded K \<longrightarrow> confined (on_loan s) j)
      (\<lambda>m. bounded K \<longrightarrow> same_outside (on_loan s) (memory (os (drv s))) m) (drv s')"
  proof (rule region.law_sys_step [OF assms(3)])
    show "slots_inv (drv s)" using drv_inv_reachable [OF assms(1)] by (simp add: drv_inv_def)
    show "obeys (\<lambda>j. bounded K \<longrightarrow> confined (on_loan s) j)
        (\<lambda>m. bounded K \<longrightarrow> same_outside (on_loan s) (memory (os (drv s))) m) (drv s)"
      using typed by (auto simp: obeys_def typed_system_def well_typed_def same_outside_def intro: job_on_loan)
    show "\<forall>m \<in> set (pending (rx (drv s))). msg_lends (inside (on_loan s)) m"
      using typed by (auto simp: typed_system_def typed_mail_def intro: msg_on_loan)
  qed
  with assms(2) show ?thesis by (simp add: obeys_def)
qed

text \<open>
  C33: The backend writes only into buffers it has been lent: whatever one step of the
  driver, of a helper or of a submitting thread does, with all the jobs it completes, resubmits
  or runs itself on the way, a byte of the process changes only inside the range of a read
  into caller memory that has been submitted and whose callback has not been invoked before.
  After the callback, and for every other op, the caller's memory is left alone.
\<close>

theorem memory_safe:
  assumes "reachable K n s" and "bounded K" and "distinct (map fst (asked s))"
    and "sys_step K n s s'" and "memory (os (drv s')) a \<noteq> memory (os (drv s)) a"
  shows "\<exists>c h pos p len. (c, Op_ReadAt h pos (Dest_Into p len)) \<in> set (asked s) \<and>
     c \<notin> set (invoked s) \<and> p \<le> a \<and> a < p + len"
proof -
  have "on_loan s a" using memory_sys_step [OF assms(1,2,4)] assms(5) by (auto simp: same_outside_def)
  moreover have "c \<notin> set (invoked s)" if "c \<in># cbs (outstanding s)" for c
  proof
    assume "c \<in> set (invoked s)"
    then have "0 < count (mset (invoked s)) c" and "0 < count (cbs (outstanding s)) c"
      using that by (simp_all only: count_greater_zero_iff set_mset_mset)
    moreover from assms(3) have "count (mset (map fst (asked s))) c \<le> 1"
      unfolding distinct_count_atmost_1 by simp
    ultimately show False unfolding reachable_callbacks [OF assms(1), symmetric] count_union by linarith
  qed
  ultimately show ?thesis unfolding on_loan_def by blast
qed

theorem memory_safe_witness:
  "\<exists>s'. sys_step (disk_kernel 2) 1 demo_into s' \<and> memory (os (drv s')) 104 = 5 \<and>
     (\<exists>c h pos p len. (c, Op_ReadAt h pos (Dest_Into p len)) \<in> set (asked demo_into) \<and>
        c \<notin> set (invoked demo_into) \<and> p \<le> 104 \<and> 104 < p + len)"
proof -
  have "map_option (\<lambda>(p, d). memory (os d) 104)
      (drive (disk_kernel 2) False (at demo_into, drv demo_into)) = Some 5" by code_simp
  then obtain p d where run: "drive (disk_kernel 2) False (at demo_into, drv demo_into) = Some (p, d)"
    and new: "memory (os d) 104 = 5" by auto
  let ?s = "demo_into\<lparr>at := p, drv := d\<rparr>"
  have step: "sys_step (disk_kernel 2) 1 demo_into ?s" by (rule sys_step.drives, rule drive_sound, rule run)
  have reach: "reachable (disk_kernel 2) 1 demo_into" by (simp add: demo_into_def reachable_play)
  have old: "memory (os (drv demo_into)) 104 = 0" and "map fst (asked demo_into) = [10, 11]" by code_simp+
  then have "distinct (map fst (asked demo_into))" by simp
  from memory_safe [OF reach disk_bounded this step, of 104] new old step show ?thesis by fastforce
qed

end
