(* ===== verification/Aio_Write.thy ===== *)
theory Aio_Write
  imports Aio_Read
begin

text \<open>
  What a write leaves behind.  The kernel takes a prefix of what it is handed, as short as
  it likes but never nothing, or fails; chunk by chunk the job puts its bytes into the file,
  and it returns.  What was written is what a read gives back.
\<close>

section \<open>Bytes put into a file\<close>

lemma splice_Nil [simp]: "splice pos [] old = old"
  by (simp add: splice_def)

lemma length_splice: "length (splice pos new old) = (if new = [] then length old else max (length old) (pos + length new))"
  by (auto simp: splice_def)

lemma splice_then:
  "splice (pos + length as) bs (splice pos as old) = splice pos (as @ bs) old"
proof (cases "as = [] \<or> bs = []")
  case False
  have full: "pos - length old + min (length old) pos = pos" by simp
  have "take (pos + length as) (splice pos as old) = take pos (old @ replicate (pos - length old) 0) @ as"
    using False by (simp add: splice_def)
  moreover have "pos + length as - length (splice pos as old) = 0"
    using False by (simp add: length_splice)
  moreover have "drop (pos + length as + length bs) (splice pos as old) = drop (pos + length (as @ bs)) old"
    using False by (simp add: splice_def add.commute add.left_commute full)
  ultimately show ?thesis using False by (simp add: splice_def [of _ bs] splice_def [of _ "as @ bs"])
qed auto

lemma splice_read_back: "take (length new) (drop pos (splice pos new old)) = new"
  by (simp add: splice_def)

lemma splice_elsewhere:
  "i < length old \<Longrightarrow> i < pos \<or> pos + length new \<le> i \<Longrightarrow> splice pos new old ! i = old ! i"
  by (auto simp: splice_def nth_append min_def)

lemma splice_end: "splice (length old) new old = old @ new"
  by (simp add: splice_def)

section \<open>A file being written\<close>

text \<open>
  What POSIX promises of \<open>pwrite\<close> and \<open>write\<close> on a file that nobody else changes, of
  which \<open>file\<close> is the content: a transfer that does not fail takes at least one byte of
  what is left of the payload (whose bytes are \<open>bs\<close>) and puts it where it was told to, at
  the position or, opened with \<open>O_APPEND\<close>, at the end.
\<close>

definition takes :: "byte list \<Rightarrow> nat \<Rightarrow> ('k \<Rightarrow> byte list) \<Rightarrow> (byte list \<Rightarrow> byte list \<Rightarrow> byte list) \<Rightarrow>
    'k \<Rightarrow> (errno + nat) \<times> 'k \<Rightarrow> bool" where
  "takes bs k file put w out = (case out of
       (Inl e, w') \<Rightarrow> file w' = file w
     | (Inr m, w') \<Rightarrow> m \<le> length bs - k \<and> (m = 0 \<longrightarrow> length bs \<le> k) \<and>
         file w' = put (take m (drop k bs)) (file w))"

definition stores :: "'k kernel \<Rightarrow> fd \<Rightarrow> ('k \<Rightarrow> byte list) \<Rightarrow> payload \<Rightarrow> byte list \<Rightarrow> bool" where
  "stores K f file data bs \<longleftrightarrow> payload_len data = length bs \<and>
     (\<forall>w k pos. takes bs k file (splice (unat pos)) w (sys_pwrite K f data k (length bs - k) pos w))"

definition appends :: "'k kernel \<Rightarrow> fd \<Rightarrow> ('k \<Rightarrow> byte list) \<Rightarrow> payload \<Rightarrow> byte list \<Rightarrow> bool" where
  "appends K f file data bs \<longleftrightarrow> payload_len data = length bs \<and>
     (\<forall>w k. takes bs k file (\<lambda>new old. old @ new) w (sys_write K f data k (length bs - k) w)) \<and>
     (\<forall>w. case sys_fstat K f w of
        (Inl e, w') \<Rightarrow> file w' = file w
      | (Inr st, w') \<Rightarrow> file w' = file w \<and> st_size st = of_nat (length (file w)))"

text \<open>The file once the first \<open>n\<close> bytes of the job are in it.\<close>

definition placed :: "write_job \<Rightarrow> byte list \<Rightarrow> byte list \<Rightarrow> byte list" where
  "placed w bs old = (if w_append w then old @ bs else splice (unat (w_pos w)) bs old)"

definition storing :: "'k kernel \<Rightarrow> ('k \<Rightarrow> byte list) \<Rightarrow> write_job \<Rightarrow> byte list \<Rightarrow> bool" where
  "storing K file w bs \<longleftrightarrow> (if w_append w then appends K (w_fd w) file (w_data w) bs
     else stores K (w_fd w) file (w_data w) bs \<and> unat (w_pos w) + length bs < 2 ^ 64)"

lemma storing_len: "storing K file w bs \<Longrightarrow> payload_len (w_data w) = length bs"
  by (auto simp: storing_def appends_def stores_def split: if_splits)

lemma storing_takes:
  "storing K file w bs \<Longrightarrow> takes bs k file (if w_append w then (\<lambda>new old. old @ new)
      else splice (unat (w_pos w + of_nat k))) v
    (if w_append w then sys_write K (w_fd w) (w_data w) k (length bs - k) v
     else sys_pwrite K (w_fd w) (w_data w) k (length bs - k) (w_pos w + of_nat k) v)"
  by (cases "w_append w") (simp_all add: storing_def appends_def stores_def)

lemma placed_then:
  assumes "k \<le> length bs" and "w_append w \<or> unat (w_pos w) + k < 2 ^ 64"
  shows "(if w_append w then placed w (take k bs) old @ take m (drop k bs)
     else splice (unat (w_pos w + of_nat k)) (take m (drop k bs)) (placed w (take k bs) old)) =
     placed w (take (k + m) bs) old"
proof (cases "w_append w")
  case False
  with assms have "unat (w_pos w + of_nat k) = unat (w_pos w) + k" by (intro unat_pos_add) simp
  with False assms(1) splice_then [of "unat (w_pos w)" "take k bs" "take m (drop k bs)" old]
  show ?thesis by (simp add: placed_def take_add min_absorb2)
qed (simp add: placed_def take_add)

section \<open>The whole write\<close>

text \<open>The job has its first \<open>w_filled\<close> bytes in the file, whose content before was \<open>old\<close>.\<close>

definition writing :: "'k kernel \<Rightarrow> ('k \<Rightarrow> byte list) \<Rightarrow> byte list \<Rightarrow> byte list \<Rightarrow> 'k os \<Rightarrow> write_job \<Rightarrow> bool" where
  "writing K file old bs s w \<longleftrightarrow> storing K file w bs \<and> w_filled w \<le> length bs \<and>
     file (world s) = placed w (take (w_filled w) bs) old"

text \<open>What a finished write may say: the error of a call that failed, or that all was written.\<close>

definition write_answer :: "write_job \<Rightarrow> byte list \<Rightarrow> byte list \<Rightarrow> nat \<Rightarrow> reply io \<Rightarrow> bool" where
  "write_answer w bs old n res \<longleftrightarrow> (case res of
       Inl e \<Rightarrow> \<exists>code. e = Os code
     | Inr r \<Rightarrow> n = length bs \<and> r = Reply_Written (length bs)
         (if w_append w then of_nat (length old + length bs) else w_pos w + of_nat (length bs)))"

lemma write_chunk:
  assumes "writing K file old bs s w"
    and "(if w_append w then sys_write K (w_fd w) (w_data w) (w_filled w) (length bs - w_filled w) (world s)
       else sys_pwrite K (w_fd w) (w_data w) (w_filled w) (length bs - w_filled w)
         (w_pos w + of_nat (w_filled w)) (world s)) = (out, v)"
  shows "case out of
       Inl e \<Rightarrow> file v = placed w (take (w_filled w) bs) old
     | Inr m \<Rightarrow> w_filled w + m \<le> length bs \<and> (m = 0 \<longrightarrow> w_filled w = length bs) \<and>
         file v = placed w (take (w_filled w + m) bs) old"
proof -
  from assms(1) have le: "w_filled w \<le> length bs" and small: "w_append w \<or> unat (w_pos w) + w_filled w < 2 ^ 64"
    by (auto simp: writing_def storing_def split: if_splits)
  from assms(1) have now: "file (world s) = placed w (take (w_filled w) bs) old" and sto: "storing K file w bs"
    by (simp_all add: writing_def)
  have "takes bs (w_filled w) file (if w_append w then (\<lambda>new old. old @ new)
      else splice (unat (w_pos w + of_nat (w_filled w)))) (world s) (out, v)"
    using storing_takes [OF sto, of "w_filled w" "world s"] assms(2) by simp
  moreover note placed_then [OF le small]
  ultimately show ?thesis using now le
    by (cases out; cases "w_append w") (auto simp: takes_def)
qed

text \<open>\<open>step\<close> after such a chunk.\<close>

lemma step_write_chunk:
  assumes "storing K file w bs" and "w_filled w + m \<le> length bs" and "file (world s) = placed w (take (w_filled w + m) bs) old"
    and "step_write K w m s = (res, w', s')"
  shows "w' = w\<lparr>w_filled := w_filled w + m\<rparr> \<and> memory s' = memory s \<and> file (world s') = file (world s) \<and>
    (case res of Step_More \<Rightarrow> w_filled w + m < length bs \<and> s' = s
      | Step_Done r \<Rightarrow> w_filled w + m = length bs \<and> write_answer w bs old (length bs) r)"
proof (cases "w_filled w + m < length bs")
  case True
  with assms(4) storing_len [OF assms(1)] show ?thesis by (auto simp: step_write_def Let_def)
next
  case False
  with assms(2) have all: "w_filled w + m = length bs" by simp
  show ?thesis
  proof (cases "w_append w")
    case True
    with assms(1) have "case sys_fstat K (w_fd w) (world s) of
        (Inl e, v) \<Rightarrow> file v = file (world s)
      | (Inr st, v) \<Rightarrow> file v = file (world s) \<and> st_size st = of_nat (length (file (world s)))"
      by (simp add: storing_def appends_def)
    with assms(3,4) all True storing_len [OF assms(1)] show ?thesis
      by (auto simp: step_write_def Let_def fd_size_def syscall_def write_answer_def placed_def split: prod.splits sum.splits)
  next
    case False
    with assms(4) all storing_len [OF assms(1)] show ?thesis
      by (auto simp: step_write_def Let_def write_answer_def)
  qed
qed

lemma sync_write:
  assumes "j_kind j = Job_Write w" and "writing K file old bs s w"
  shows "\<exists>j' res s' n. sync_loop K j s = Some (j', res, s') \<and> memory s' = memory s \<and> n \<le> length bs \<and>
    file (world s') = placed w (take n bs) old \<and> write_answer w bs old n res"
  using assms
proof (induction "length bs - w_filled w" arbitrary: j w s rule: less_induct)
  case less
  note j = less.prems(1) and job = less.prems(2)
  from job have sto: "storing K file w bs" by (simp add: writing_def)
  note len = storing_len [OF sto]
  obtain out v where call: "(if w_append w then sys_write K (w_fd w) (w_data w) (w_filled w) (length bs - w_filled w) (world s)
       else sys_pwrite K (w_fd w) (w_data w) (w_filled w) (length bs - w_filled w)
         (w_pos w + of_nat (w_filled w)) (world s)) = (out, v)" by fastforce
  note facts = write_chunk [OF job call]
  let ?s = "s\<lparr>world := v\<rparr>"
  have chunk: "sync_chunk K j s = ((case out of Inl e \<Rightarrow> Inl (Os e) | Inr m \<Rightarrow> Inr m), j, ?s)"
    using j call len by (auto simp: sync_chunk_def syscall_def Let_def split: if_splits sum.splits)
  show ?case
  proof (cases out)
    case (Inl e)
    with chunk have "sync_loop K j s = Some (j, Inl (Os e), ?s)" by (subst sync_loop.simps) simp
    with facts Inl job show ?thesis
      by (intro exI [of _ j] exI [of _ "Inl (Os e)"] exI [of _ ?s] exI [of _ "w_filled w"])
         (auto simp: write_answer_def writing_def)
  next
    case (Inr m)
    obtain res w' s' where st: "step_write K w m ?s = (res, w', s')" by (cases "step_write K w m ?s") auto
    from facts Inr have m: "w_filled w + m \<le> length bs" "m = 0 \<longrightarrow> w_filled w = length bs"
      "file (world ?s) = placed w (take (w_filled w + m) bs) old" by simp_all
    note after = step_write_chunk [OF sto m(1,3) st]
    have loop: "sync_loop K j s = (case res of
        Step_Done x \<Rightarrow> Some (j\<lparr>j_kind := Job_Write w'\<rparr>, x, s')
      | Step_More \<Rightarrow> sync_loop K (j\<lparr>j_kind := Job_Write w'\<rparr>) s')"
      using chunk Inr j st by (subst sync_loop.simps) (simp add: step_def split: step_result.split)
    show ?thesis
    proof (cases res)
      case (Step_Done x)
      with loop after m show ?thesis
        by (intro exI [of _ "j\<lparr>j_kind := Job_Write w'\<rparr>"] exI [of _ x] exI [of _ s'] exI [of _ "length bs"]) simp
    next
      case Step_More
      with after have more: "w_filled w + m < length bs" "s' = ?s" "w' = w\<lparr>w_filled := w_filled w + m\<rparr>" by simp_all
      have same: "storing K file w' bs = storing K file w bs" "placed w' as old = placed w as old" for as
        using more(3) by (simp_all add: storing_def placed_def)
      have "w_filled w' = w_filled w + m" using more(3) by simp
      with sto more(1,2) m(3) same have "writing K file old bs s' w'" by (simp add: writing_def)
      moreover have "length bs - w_filled w' < length bs - w_filled w" using more m(2) by auto
      ultimately obtain j' r s'' n where "sync_loop K (j\<lparr>j_kind := Job_Write w'\<rparr>) s' = Some (j', r, s'')"
        "memory s'' = memory s'" "n \<le> length bs" "file (world s'') = placed w' (take n bs) old" "write_answer w' bs old n r"
        using less.hyps [of w' "j\<lparr>j_kind := Job_Write w'\<rparr>" s'] by auto
      moreover have "w_append w' = w_append w" "w_pos w' = w_pos w" using more(3) by simp_all
      then have "write_answer w' = write_answer w" by (simp add: write_answer_def fun_eq_iff split: sum.split)
      ultimately show ?thesis using loop Step_More more(2) same by auto
    qed
  qed
qed

section \<open>The writes the driver makes\<close>

definition write_start :: "nat \<Rightarrow> nat option \<Rightarrow> fd \<Rightarrow> bool \<Rightarrow> u64 \<Rightarrow> bool \<Rightarrow> payload \<Rightarrow> cb \<Rightarrow> job" where
  "write_start i h f x pos app data c = \<lparr>j_id = i, j_cancelled = False, j_kind = Job_Write
     \<lparr>w_handle = h, w_fd = f, w_owned_fd = x, w_pos = pos, w_append = app, w_data = data, w_filled = 0\<rparr>, j_cb = c\<rparr>"

lemma sync_write_start:
  assumes "if app then appends K f file data bs else stores K f file data bs \<and> unat pos + length bs < 2 ^ 64"
  obtains j' res s' n where "sync_loop K (write_start i h f x pos app data c) s = Some (j', res, s')"
    and "memory s' = memory s" and "n \<le> length bs"
    and "file (world s') = (if app then file (world s) @ take n bs else splice (unat pos) (take n bs) (file (world s)))"
    and "(\<exists>e. res = Inl (Os e)) \<or> n = length bs \<and> res = Inr (Reply_Written (length bs)
       (if app then of_nat (length (file (world s')))  else pos + of_nat (length bs)))"
proof -
  let ?w = "\<lparr>w_handle = h, w_fd = f, w_owned_fd = x, w_pos = pos, w_append = app, w_data = data, w_filled = 0\<rparr>"
  have kind: "j_kind (write_start i h f x pos app data c) = Job_Write ?w" by (simp add: write_start_def)
  have "writing K file (file (world s)) bs s ?w"
    using assms by (cases app) (simp_all add: writing_def storing_def placed_def)
  from sync_write [OF kind this] obtain j' res s' n
    where run: "sync_loop K (write_start i h f x pos app data c) s = Some (j', res, s')" "memory s' = memory s" "n \<le> length bs"
      and now: "file (world s') = placed ?w (take n bs) (file (world s))"
      and ans: "write_answer ?w bs (file (world s)) n res" by blast
  show ?thesis
  proof (rule that [OF run])
    show now': "file (world s') = (if app then file (world s) @ take n bs else splice (unat pos) (take n bs) (file (world s)))"
      using now by (simp add: placed_def)
    show "(\<exists>e. res = Inl (Os e)) \<or> n = length bs \<and> res = Inr (Reply_Written (length bs)
       (if app then of_nat (length (file (world s')))  else pos + of_nat (length bs)))"
      using ans now' by (cases res; cases app) (auto simp: write_answer_def)
  qed
qed

text \<open>The witnesses' disk takes what it is given, and can be read back.\<close>

lemma disk_stores: "0 < most \<Longrightarrow> stores (disk_kernel most) f content (Payload_Owned bs) bs"
  by (auto simp: stores_def takes_def disk_kernel_def disk_write_def Let_def min_def)

lemma disk_appends: "0 < most \<Longrightarrow> appends (disk_kernel most) f content (Payload_Owned bs) bs"
  by (auto simp: appends_def takes_def disk_kernel_def disk_write_def Let_def min_def splice_end)

text \<open>
  C23: A positional write returns, however the kernel splits the transfer.  It either reports
  every byte written and the position after the last one, and then the file holds exactly
  those bytes there and what it held before everywhere else; or it reports the error of a
  system call, and a prefix of the bytes is in the file and nothing else has changed.
\<close>

theorem write_correct:
  assumes "stores K f file data bs" and "unat pos + length bs < 2 ^ 64"
  shows "\<exists>j' res s' n. sync_loop K (write_start i h f x pos False data c) s = Some (j', res, s') \<and>
    file (world s') = splice (unat pos) (take n bs) (file (world s)) \<and> memory s' = memory s \<and> n \<le> length bs \<and>
    (n = length bs \<and> res = Inr (Reply_Written (length bs) (pos + of_nat (length bs))) \<or> (\<exists>e. res = Inl (Os e)))"
proof -
  from assms have "if False then appends K f file data bs else stores K f file data bs \<and> unat pos + length bs < 2 ^ 64"
    by simp
  from sync_write_start [OF this, of i h x c s] show ?thesis by (metis (no_types, lifting))
qed

theorem write_correct_witness:
  "\<exists>j' s'. sync_loop (disk_kernel 2) (write_start 1 (Some 1) 3 False 2 False (Payload_Owned [7, 8, 9]) 0)
       (disk_os [1, 2, 3, 4, 5, 6]) = Some (j', Inr (Reply_Written 3 5), s') \<and> content (world s') = [1, 2, 7, 8, 9, 6]"
proof -
  have "\<exists>j' res s' n. sync_loop (disk_kernel 2) (write_start 1 (Some 1) 3 False 2 False (Payload_Owned [7, 8, 9]) 0)
       (disk_os [1, 2, 3, 4, 5, 6]) = Some (j', res, s') \<and>
    content (world s') = splice (unat (2 :: u64)) (take n [7, 8, 9]) (content (world (disk_os [1, 2, 3, 4, 5, 6])))  \<and>
    memory s' = memory (disk_os [1, 2, 3, 4, 5, 6]) \<and> n \<le> length [7, 8, 9 :: byte] \<and>
    (n = length [7, 8, 9 :: byte] \<and> res = Inr (Reply_Written (length [7, 8, 9 :: byte]) (2 + of_nat (length [7, 8, 9 :: byte]))) \<or>
      (\<exists>e. res = Inl (Os e)))"
    by (rule write_correct [OF disk_stores]) simp_all
  moreover have "case sync_loop (disk_kernel 2) (write_start 1 (Some 1) 3 False 2 False (Payload_Owned [7, 8, 9]) 0)
       (disk_os [1, 2, 3, 4, 5, 6]) of None \<Rightarrow> False | Some (j', res, s') \<Rightarrow> res = Inr (Reply_Written 3 5)" by code_simp
  ultimately show ?thesis by (auto simp: disk_os_def splice_def)
qed

text \<open>
  C24: A write to a file opened for appending returns too: the bytes, or on an error a prefix of
  them, come after what the file held, and the position it reports is the file's new end,
  whatever position the caller gave.
\<close>

theorem append_correct:
  assumes "appends K f file data bs"
  shows "\<exists>j' res s' n. sync_loop K (write_start i h f x pos True data c) s = Some (j', res, s') \<and>
    file (world s') = file (world s) @ take n bs \<and> memory s' = memory s \<and> n \<le> length bs \<and>
    (n = length bs \<and> res = Inr (Reply_Written (length bs) (of_nat (length (file (world s'))))) \<or> (\<exists>e. res = Inl (Os e)))"
proof -
  from assms have "if True then appends K f file data bs else stores K f file data bs \<and> unat pos + length bs < 2 ^ 64"
    by simp
  from sync_write_start [OF this, of i h x c s] show ?thesis by (metis (no_types, lifting))
qed

theorem append_correct_witness:
  "\<exists>j' s'. sync_loop (disk_kernel 2) (write_start 1 (Some 1) 3 False 0 True (Payload_Owned [7, 8, 9]) 0)
       (disk_os [1, 2]) = Some (j', Inr (Reply_Written 3 5), s') \<and> content (world s') = [1, 2, 7, 8, 9]"
proof -
  have "\<exists>j' res s' n. sync_loop (disk_kernel 2) (write_start 1 (Some 1) 3 False 0 True (Payload_Owned [7, 8, 9]) 0)
       (disk_os [1, 2]) = Some (j', res, s') \<and>
    content (world s') = content (world (disk_os [1, 2])) @ take n [7, 8, 9]  \<and>
    memory s' = memory (disk_os [1, 2]) \<and> n \<le> length [7, 8, 9 :: byte] \<and>
    (n = length [7, 8, 9 :: byte] \<and> res = Inr (Reply_Written (length [7, 8, 9 :: byte]) (of_nat (length (content (world s'))))) \<or>
      (\<exists>e. res = Inl (Os e)))"
    by (rule append_correct [OF disk_appends]) simp
  moreover have "case sync_loop (disk_kernel 2) (write_start 1 (Some 1) 3 False 0 True (Payload_Owned [7, 8, 9]) 0)
       (disk_os [1, 2]) of None \<Rightarrow> False | Some (j', res, s') \<Rightarrow> res = Inr (Reply_Written 3 5)" by code_simp
  ultimately show ?thesis by (auto simp: disk_os_def)
qed

text \<open>
  The progress that \<open>stores\<close> promises is needed: to a kernel that answers 0 to a write of
  something the loop would hand the same bytes again for ever.
\<close>

lemma zero_write_never_returns:
  assumes "\<And>w. sys_pwrite K f data 0 (payload_len data) pos w = (Inr 0, w)" and "0 < payload_len data"
  shows "sync_loop K (write_start i h f x pos False data c) s = None"
proof (rule ccontr)
  let ?P = "\<lambda>K' j s out. K' = K \<longrightarrow> j \<noteq> write_start i h f x pos False data c"
  assume "sync_loop K (write_start i h f x pos False data c) s \<noteq> None"
  then obtain out where run: "sync_loop K (write_start i h f x pos False data c) s = Some out" by blast
  have "?P K (write_start i h f x pos False data c) s out"
  proof (rule sync_loop.raw_induct [where P = ?P, OF _ run], goal_cases)
    case (1 loop K' j s out)
    show ?case
    proof (intro impI notI)
      assume K: "K' = K" and j: "j = write_start i h f x pos False data c"
      have "sync_chunk K j s = (Inr 0, j, s)"
        using assms(1) by (simp add: sync_chunk_def j write_start_def syscall_def Let_def)
      moreover have "step K j 0 s = (Step_More, j, s)"
        using assms(2) by (simp add: step_def step_write_def j write_start_def Let_def)
      ultimately have "loop K j s = Some out" using 1(2) K by simp
      with 1(1) K j show False by blast
    qed
  qed
  then show False by simp
qed

section \<open>Reading back\<close>

text \<open>
  C13: What a successful write put at a position is what a sized read of as many bytes from
  that position returns, and every other byte of the file is the one it was.
\<close>

theorem write_then_read:
  assumes "stores K f file data bs" and "\<And>now. length now < 2 ^ 63 \<Longrightarrow> serves K f now (\<lambda>w. file w = now)"
    and "length (file (world s)) < 2 ^ 63" and "unat pos + length bs < 2 ^ 63"
    and "sync_loop K (write_start i h f x pos False data c) s = Some (j1, Inr r, s1)"
  shows "(\<exists>j2 s2. sync_loop K \<lparr>j_id = i2, j_cancelled = False, j_kind = Job_Read
             \<lparr>r_handle = h2, r_fd = f, r_owned_fd = x2, r_pos = pos, r_want = Want_Exact (length bs),
              r_buf = Buf_Owned [] (length bs), r_filled = 0\<rparr>, j_cb = c2\<rparr> s1 = Some (j2, Inr (Reply_Bytes bs), s2)) \<and>
    (\<forall>k < length (file (world s)). k < unat pos \<or> unat pos + length bs \<le> k \<longrightarrow>
       file (world s1) ! k = file (world s) ! k)"
proof -
  from assms(1,4) have "if False then appends K f file data bs else stores K f file data bs \<and> unat pos + length bs < 2 ^ 64"
    by simp
  from sync_write_start [OF this, of i h x c s] assms(5)
  have now: "file (world s1) = splice (unat pos) bs (file (world s))" by auto
  let ?now = "file (world s1)"
  have "length ?now < 2 ^ 63" using assms(3,4) by (simp add: now length_splice)
  note serve = assms(2) [OF this]
  let ?r = "\<lparr>r_handle = h2, r_fd = f, r_owned_fd = x2, r_pos = pos, r_want = Want_Exact (length bs),
              r_buf = Buf_Owned [] (length bs), r_filled = 0\<rparr>"
  have "reading ?now (memory s1) ?r" using assms(4) by (simp add: reading_def sized_def in_place_def)
  from sync_read [OF serve _ _ this, of "\<lparr>j_id = i2, j_cancelled = False, j_kind = Job_Read ?r, j_cb = c2\<rparr>"]
  have "\<exists>j2 s2. sync_loop K \<lparr>j_id = i2, j_cancelled = False, j_kind = Job_Read ?r, j_cb = c2\<rparr> s1 =
      Some (j2, Inr (Reply_Bytes (take (length bs) (drop (unat pos) ?now))), s2)"
    by (auto simp: wanted_def rest_of_def)
  then show ?thesis by (simp add: now splice_read_back splice_elsewhere)
qed

theorem write_then_read_witness:
  "\<exists>j1 s1. sync_loop (disk_kernel 2) (write_start 1 (Some 1) 3 False 4 False (Payload_Owned [7, 8, 9]) 0)
      (disk_os [1, 2]) = Some (j1, Inr (Reply_Written 3 7), s1) \<and>
    (\<exists>j2 s2. sync_loop (disk_kernel 2) \<lparr>j_id = 2, j_cancelled = False, j_kind = Job_Read
             \<lparr>r_handle = Some 1, r_fd = 3, r_owned_fd = False, r_pos = 4, r_want = Want_Exact 3,
              r_buf = Buf_Owned [] 3, r_filled = 0\<rparr>, j_cb = 1\<rparr> s1 = Some (j2, Inr (Reply_Bytes [7, 8, 9]), s2))"
proof -
  have "case sync_loop (disk_kernel 2) (write_start 1 (Some 1) 3 False 4 False (Payload_Owned [7, 8, 9]) 0)
       (disk_os [1, 2]) of None \<Rightarrow> False | Some (j1, res, s1) \<Rightarrow> res = Inr (Reply_Written 3 7)" by code_simp
  then obtain j1 s1 where run: "sync_loop (disk_kernel 2) (write_start 1 (Some 1) 3 False 4 False (Payload_Owned [7, 8, 9]) 0)
       (disk_os [1, 2]) = Some (j1, Inr (Reply_Written 3 7), s1)" by (auto split: option.splits)
  have "(\<exists>j2 s2. sync_loop (disk_kernel 2) \<lparr>j_id = 2, j_cancelled = False, j_kind = Job_Read
             \<lparr>r_handle = Some 1, r_fd = 3, r_owned_fd = False, r_pos = 4, r_want = Want_Exact (length [7, 8, 9 :: byte]),
              r_buf = Buf_Owned [] (length [7, 8, 9 :: byte]), r_filled = 0\<rparr>, j_cb = 1\<rparr> s1 =
            Some (j2, Inr (Reply_Bytes [7, 8, 9]), s2)) \<and>
      (\<forall>k < length (content (world (disk_os [1, 2]))). k < unat (4 :: u64) \<or> unat (4 :: u64) + length [7, 8, 9 :: byte] \<le> k \<longrightarrow>
         content (world s1) ! k = content (world (disk_os [1, 2])) ! k)"
    by (rule write_then_read [OF disk_stores disk_serves _ _ run]) (simp_all add: disk_os_def)
  then have "\<exists>j2 s2. sync_loop (disk_kernel 2) \<lparr>j_id = 2, j_cancelled = False, j_kind = Job_Read
             \<lparr>r_handle = Some 1, r_fd = 3, r_owned_fd = False, r_pos = 4, r_want = Want_Exact 3,
              r_buf = Buf_Owned [] 3, r_filled = 0\<rparr>, j_cb = 1\<rparr> s1 = Some (j2, Inr (Reply_Bytes [7, 8, 9]), s2)"
    by (simp add: numeral_3_eq_3)
  with run show ?thesis by blast
qed

end
