(* ===== verification/Fast_Path.thy ===== *)
theory Fast_Path
  imports Python
begin

text \<open>
  The page-cache fast path (\<open>crates/turbofile-py/src/fast_path\<close>): what each platform's
  \<open>Inner\<close> does (\<open>linux.rs\<close>, \<open>darwin.rs\<close>, \<open>none.rs\<close>), and \<open>FastPath\<close> on top of any of
  them (\<open>mod.rs\<close>).  A read is answered on the calling thread or declined (\<^const>\<open>None\<close>).
\<close>

section \<open>The calling process\<close>

text \<open>
  The kernel here is the record of \<open>Core\<close> with the calls only the fast path makes;
  \<open>mincore\<close> returns the flags it writes, one per page, and \<open>mmap\<close> the address.
\<close>

record open_how =
  how_flags :: u64
  how_mode :: u64
  how_resolve :: u64

record 'k page_kernel =
  base_calls :: "'k kernel"
  sys_preadv2 :: "fd \<Rightarrow> nat \<Rightarrow> u64 \<Rightarrow> u32 \<Rightarrow> 'k \<Rightarrow> (errno + nat \<times> byte list) \<times> 'k"
  sys_openat2 :: "path \<Rightarrow> open_how \<Rightarrow> 'k \<Rightarrow> (errno + fd) \<times> 'k"
  sys_mmap :: "nat \<Rightarrow> fd \<Rightarrow> 'k \<Rightarrow> addr option \<times> 'k"
  sys_munmap :: "addr \<Rightarrow> nat \<Rightarrow> 'k \<Rightarrow> 'k"
  sys_mincore :: "addr \<Rightarrow> nat \<Rightarrow> 'k \<Rightarrow> byte list option \<times> 'k"
  sys_pagesize :: int

datatype page_event =
    Pe_open fd
  | Pe_close fd
  | Pe_map addr nat
  | Pe_unmap addr nat
  | Pe_mincore addr nat

record 'k proc =
  proc_world :: 'k
  proc_mem :: mem
  proc_log :: "page_event list"

definition proc_emit :: "page_event \<Rightarrow> 'k proc \<Rightarrow> 'k proc" where
  "proc_emit ev s = s\<lparr>proc_log := proc_log s @ [ev]\<rparr>"

definition call :: "('k \<Rightarrow> 'r \<times> 'k) \<Rightarrow> 'k proc \<Rightarrow> 'r \<times> 'k proc" where
  "call f s = (case f (proc_world s) of (r, w) \<Rightarrow> (r, s\<lparr>proc_world := w\<rparr>))"

definition put_bytes :: "addr \<Rightarrow> byte list \<Rightarrow> 'k proc \<Rightarrow> 'k proc" where
  "put_bytes p bs s =
     s\<lparr>proc_mem := (\<lambda>a. if p \<le> a \<and> a < p + length bs then bs ! (a - p) else proc_mem s a)\<rparr>"

definition get_bytes :: "addr \<Rightarrow> nat \<Rightarrow> 'k proc \<Rightarrow> byte list" where
  "get_bytes p n s = map (\<lambda>i. proc_mem s (p + i)) [0..<n]"

section \<open>Shared by the Unix platforms\<close>

text \<open>\<open>off_t\<close> is a signed 64-bit integer.\<close>

definition kernel_offset :: "u64 \<Rightarrow> nat \<Rightarrow> u64 option" where
  "kernel_offset pos filled = (case checked_add pos (of_nat filled) of
       None \<Rightarrow> None
     | Some off \<Rightarrow> if 0 \<le> sint off then Some off else None)"

text \<open>
  The copy loop, the same in \<open>linux.rs\<close> and \<open>darwin.rs\<close> but for the read it makes.  The
  outer \<^const>\<open>None\<close> is a loop that does not end, the inner one a read declined.
\<close>

partial_function (option) fill_loop ::
  "(nat \<Rightarrow> u64 \<Rightarrow> 'k \<Rightarrow> (errno + nat \<times> byte list) \<times> 'k) \<Rightarrow> u64 \<Rightarrow> addr \<Rightarrow> nat \<Rightarrow> nat \<Rightarrow> 'k proc
     \<Rightarrow> (nat option \<times> 'k proc) option" where
  "fill_loop rd pos base len filled s =
     (if filled < len
      then (case kernel_offset pos filled of
              None \<Rightarrow> Some (None, s)
            | Some off \<Rightarrow>
                (case call (rd (len - filled) off) s of
                   (Inl e, s1) \<Rightarrow>
                     (if e = EINTR then fill_loop rd pos base len filled s1 else Some (None, s1))
                 | (Inr (n, bs), s1) \<Rightarrow>
                     (let s2 = put_bytes (base + filled) bs s1
                      in if n = 0 then Some (Some filled, s2)
                         else fill_loop rd pos base len (filled + n) s2)))
      else Some (Some filled, s))"

declare fill_loop.simps [code]

section \<open>Linux\<close>

definition RWF_NOWAIT :: u32 where "RWF_NOWAIT = 0x8"

definition RESOLVE_CACHED :: u64 where "RESOLVE_CACHED = 0x20"

text \<open>Linux's values of \<open>O_RDONLY\<close> and \<open>O_CLOEXEC\<close>.\<close>

definition cached_only :: open_how where
  "cached_only = \<lparr>how_flags = 0x0 OR 0x80000, how_mode = 0, how_resolve = RESOLVE_CACHED\<rparr>"

record linux_inner =
  li_fd :: fd

definition linux_new :: "fd \<Rightarrow> linux_inner" where
  "linux_new f = \<lparr>li_fd = f\<rparr>"

definition linux_size :: "'k page_kernel \<Rightarrow> linux_inner \<Rightarrow> 'k proc \<Rightarrow> u64 option \<times> 'k proc" where
  "linux_size K i s = call (regular_file_size (base_calls K) (li_fd i)) s"

definition nowait :: "'k page_kernel \<Rightarrow> fd \<Rightarrow> nat \<Rightarrow> u64 \<Rightarrow> 'k \<Rightarrow> (errno + nat \<times> byte list) \<times> 'k" where
  "nowait K f n off = sys_preadv2 K f n off RWF_NOWAIT"

definition linux_fill ::
  "'k page_kernel \<Rightarrow> u64 \<Rightarrow> addr \<Rightarrow> nat \<Rightarrow> linux_inner \<Rightarrow> 'k proc
     \<Rightarrow> (nat option \<times> linux_inner \<times> 'k proc) option" where
  "linux_fill K pos base len i s =
     (if li_fd i < 0 then Some (None, i, s)
      else map_option (\<lambda>(r, s). (r, i, s)) (fill_loop (nowait K (li_fd i)) pos base len 0 s))"

definition linux_at_eof :: "'k page_kernel \<Rightarrow> u64 \<Rightarrow> linux_inner \<Rightarrow> 'k proc \<Rightarrow> bool \<times> 'k proc" where
  "linux_at_eof K sz i s = (case kernel_offset sz 0 of
       None \<Rightarrow> (False, s)
     | Some off \<Rightarrow>
         (case call (nowait K (li_fd i) 1 off) s of
            (Inl e, s1) \<Rightarrow> (False, s1)
          | (Inr (n, bs), s1) \<Rightarrow> (n = 0, s1)))"

partial_function (option) probe_loop :: "'k page_kernel \<Rightarrow> fd \<Rightarrow> 'k proc \<Rightarrow> (bool \<times> 'k proc) option" where
  "probe_loop K f s = (case call (nowait K f 1 0) s of
       (Inr r, s1) \<Rightarrow> Some (True, s1)
     | (Inl e, s1) \<Rightarrow>
         (if e = EINTR then probe_loop K f s1
          else if e = EAGAIN then Some (True, s1) else Some (False, s1)))"

declare probe_loop.simps [code]

definition linux_supported ::
  "'k page_kernel \<Rightarrow> linux_inner \<Rightarrow> 'k proc \<Rightarrow> (bool \<times> linux_inner \<times> 'k proc) option" where
  "linux_supported K i s =
     (if li_fd i < 0 then Some (False, i, s)
      else map_option (\<lambda>(r, s). (r, i, s)) (probe_loop K (li_fd i) s))"

section \<open>Darwin\<close>

definition HEADROOM :: u64 where "HEADROOM = 0x100000"

definition MINCORE_INCORE :: byte where "MINCORE_INCORE = 1"

definition FLAGS_PER_CALL :: nat where "FLAGS_PER_CALL = 256"

record view =
  v_addr :: addr
  v_len :: nat

record darwin_inner =
  di_fd :: fd
  di_view :: "view option"

definition page_size :: "'k page_kernel \<Rightarrow> nat" where
  "page_size K = nat (max (sys_pagesize K) 1)"

definition view_len :: "'k page_kernel \<Rightarrow> u64 \<Rightarrow> nat option" where
  "view_len K sz =
     (let page = of_nat (page_size K) :: u64
      in case checked_add sz (page - 1) of
           None \<Rightarrow> None
         | Some x \<Rightarrow> map_option unat (checked_add (x div page * page) HEADROOM))"

definition darwin_new :: "fd \<Rightarrow> darwin_inner" where
  "darwin_new f = \<lparr>di_fd = f, di_view = None\<rparr>"

definition darwin_size :: "'k page_kernel \<Rightarrow> darwin_inner \<Rightarrow> 'k proc \<Rightarrow> u64 option \<times> 'k proc" where
  "darwin_size K i s = call (regular_file_size (base_calls K) (di_fd i)) s"

definition view_covers :: "u64 \<Rightarrow> darwin_inner \<Rightarrow> bool" where
  "view_covers end i = (case di_view i of None \<Rightarrow> False | Some v \<Rightarrow> unat end \<le> v_len v)"

definition drop_view :: "'k page_kernel \<Rightarrow> view option \<Rightarrow> 'k proc \<Rightarrow> 'k proc" where
  "drop_view K v s = (case v of
       None \<Rightarrow> s
     | Some v \<Rightarrow> snd (call (\<lambda>w. ((), sys_munmap K (v_addr v) (v_len v) w))
                    (proc_emit (Pe_unmap (v_addr v) (v_len v)) s)))"

definition ensure_view ::
  "'k page_kernel \<Rightarrow> u64 \<Rightarrow> darwin_inner \<Rightarrow> 'k proc \<Rightarrow> bool \<times> darwin_inner \<times> 'k proc" where
  "ensure_view K end i s =
     (if view_covers end i then (True, i, s)
      else case call (regular_file_size (base_calls K) (di_fd i)) s of
          (None, s1) \<Rightarrow> (False, i, s1)
        | (Some sz, s1) \<Rightarrow>
            (case view_len K sz of
               None \<Rightarrow> (False, i, s1)
             | Some len \<Rightarrow>
                 (if (case di_view i of None \<Rightarrow> False | Some v \<Rightarrow> len \<le> v_len v) then (False, i, s1)
                  else case call (sys_mmap K len (di_fd i)) s1 of
                      (None, s2) \<Rightarrow> (False, i, s2)
                    | (Some a, s2) \<Rightarrow>
                        (let s3 = drop_view K (di_view i) (proc_emit (Pe_map a len) s2);
                             i' = i\<lparr>di_view := Some \<lparr>v_addr = a, v_len = len\<rparr>\<rparr>
                         in (view_covers end i', i', s3)))))"

text \<open>The loop of \<open>resident\<close> from \<open>off\<close> to \<open>stop\<close> (\<open>last\<close> in the source), \<open>page\<close> bytes a page.\<close>

function resident_loop ::
  "'k page_kernel \<Rightarrow> fd \<Rightarrow> addr \<Rightarrow> nat \<Rightarrow> nat \<Rightarrow> nat \<Rightarrow> 'k proc \<Rightarrow> bool \<times> 'k proc" where
  "resident_loop K f a page stop off s =
     (if off < stop \<and> 0 < page
      then (let chunk = min (stop - off) (FLAGS_PER_CALL * page)
            in case call (sys_mincore K (a + off) chunk) (proc_emit (Pe_mincore (a + off) chunk) s) of
                 (None, s1) \<Rightarrow> (False, s1)
               | (Some flags, s1) \<Rightarrow>
                   (case position (\<lambda>x. x AND MINCORE_INCORE = 0) (take (chunk div page) flags) of
                      Some index \<Rightarrow>
                        (case call (regular_file_size (base_calls K) f) s1 of
                           (None, s2) \<Rightarrow> (False, s2)
                         | (Some sz, s2) \<Rightarrow> (unat sz \<le> off + index * page, s2))
                    | None \<Rightarrow> resident_loop K f a page stop (off + chunk) s1))
      else (True, s))"
  by pat_completeness auto
termination
  by (relation "measure (\<lambda>(K, f, a, page, stop, off, s). stop - off)") (auto simp: FLAGS_PER_CALL_def)

declare resident_loop.simps [simp del]

definition resident ::
  "'k page_kernel \<Rightarrow> u64 \<Rightarrow> nat \<Rightarrow> darwin_inner \<Rightarrow> 'k proc \<Rightarrow> bool \<times> darwin_inner \<times> 'k proc" where
  "resident K pos len i s = (case checked_add pos (of_nat len) of
       None \<Rightarrow> (False, i, s)
     | Some end \<Rightarrow>
         (case ensure_view K end i s of
            (False, i1, s1) \<Rightarrow> (False, i1, s1)
          | (True, i1, s1) \<Rightarrow>
              (case di_view i1 of
                 None \<Rightarrow> (False, i1, s1)
               | Some v \<Rightarrow>
                   (let page = page_size K;
                        first = unat pos div page * page;
                        stop = div_ceil (unat end) page * page
                    in case resident_loop K (di_fd i1) (v_addr v) page stop first s1 of
                         (r, s2) \<Rightarrow> (r, i1, s2)))))"

definition darwin_fill ::
  "'k page_kernel \<Rightarrow> u64 \<Rightarrow> addr \<Rightarrow> nat \<Rightarrow> darwin_inner \<Rightarrow> 'k proc
     \<Rightarrow> (nat option \<times> darwin_inner \<times> 'k proc) option" where
  "darwin_fill K pos base len i s = (case resident K pos len i s of
       (False, i1, s1) \<Rightarrow> Some (None, i1, s1)
     | (True, i1, s1) \<Rightarrow>
         map_option (\<lambda>(r, s). (r, i1, s))
           (fill_loop (sys_pread (base_calls K) (di_fd i1)) pos base len 0 s1))"

definition darwin_at_eof :: "'k page_kernel \<Rightarrow> u64 \<Rightarrow> darwin_inner \<Rightarrow> 'k proc \<Rightarrow> bool \<times> 'k proc" where
  "darwin_at_eof K sz i s = (case call (regular_file_size (base_calls K) (di_fd i)) s of
       (r, s1) \<Rightarrow> (r = Some sz, s1))"

definition darwin_supported ::
  "'k page_kernel \<Rightarrow> darwin_inner \<Rightarrow> 'k proc \<Rightarrow> (bool \<times> darwin_inner \<times> 'k proc) option" where
  "darwin_supported K i s =
     Some (if di_view i \<noteq> None then (True, i, s) else ensure_view K 0 i s)"

section \<open>Other platforms\<close>

definition none_new :: "fd \<Rightarrow> unit" where "none_new f = ()"

definition none_size :: "unit \<Rightarrow> 'k proc \<Rightarrow> u64 option \<times> 'k proc" where
  "none_size i s = (None, s)"

definition none_fill ::
  "u64 \<Rightarrow> addr \<Rightarrow> nat \<Rightarrow> unit \<Rightarrow> 'k proc \<Rightarrow> (nat option \<times> unit \<times> 'k proc) option" where
  "none_fill pos base len i s = Some (None, i, s)"

definition none_at_eof :: "u64 \<Rightarrow> unit \<Rightarrow> 'k proc \<Rightarrow> bool \<times> 'k proc" where
  "none_at_eof sz i s = (False, s)"

definition none_supported :: "unit \<Rightarrow> 'k proc \<Rightarrow> (bool \<times> unit \<times> 'k proc) option" where
  "none_supported i s = Some (False, i, s)"

section \<open>\<open>FastPath\<close>\<close>

text \<open>
  The operations \<open>mod.rs\<close> expects of the platform it was built for.
\<close>

record ('i, 'k) inner =
  in_new :: "fd \<Rightarrow> 'i"
  in_size :: "'i \<Rightarrow> 'k proc \<Rightarrow> u64 option \<times> 'k proc"
  in_fill :: "u64 \<Rightarrow> addr \<Rightarrow> nat \<Rightarrow> 'i \<Rightarrow> 'k proc \<Rightarrow> (nat option \<times> 'i \<times> 'k proc) option"
  in_at_eof :: "u64 \<Rightarrow> 'i \<Rightarrow> 'k proc \<Rightarrow> bool \<times> 'k proc"
  in_supported :: "'i \<Rightarrow> 'k proc \<Rightarrow> (bool \<times> 'i \<times> 'k proc) option"

definition linux_ops :: "'k page_kernel \<Rightarrow> (linux_inner, 'k) inner" where
  "linux_ops K = \<lparr>in_new = linux_new, in_size = linux_size K, in_fill = linux_fill K, in_at_eof = linux_at_eof K,
     in_supported = linux_supported K\<rparr>"

definition darwin_ops :: "'k page_kernel \<Rightarrow> (darwin_inner, 'k) inner" where
  "darwin_ops K = \<lparr>in_new = darwin_new, in_size = darwin_size K, in_fill = darwin_fill K, in_at_eof = darwin_at_eof K,
     in_supported = darwin_supported K\<rparr>"

definition none_ops :: "(unit, 'k) inner" where
  "none_ops = \<lparr>in_new = none_new, in_size = none_size, in_fill = none_fill, in_at_eof = none_at_eof,
     in_supported = none_supported\<rparr>"

definition fast_new :: "('i, 'k) inner \<Rightarrow> fd \<Rightarrow> 'i" where
  "fast_new ops f = in_new ops f"

text \<open>
  \<open>FastPath::read\<close>.  \<open>base\<close> is the address of the bytes object Python allocates for the
  call; the object returned holds what is in memory there, cut to the count.
\<close>

definition fast_read ::
  "('i, 'k) inner \<Rightarrow> u64 \<Rightarrow> nat \<Rightarrow> addr \<Rightarrow> 'i \<Rightarrow> 'k proc \<Rightarrow> (byte list option \<times> 'i \<times> 'k proc) option" where
  "fast_read ops pos len base i s =
     (if len = 0 then Some (None, i, s)
      else case in_fill ops pos base len i s of
          None \<Rightarrow> None
        | Some (None, i1, s1) \<Rightarrow> Some (None, i1, s1)
        | Some (Some filled, i1, s1) \<Rightarrow>
            (if filled = len then Some (Some (get_bytes base len s1), i1, s1)
             else Some (Some (take filled (get_bytes base len s1)), i1, s1)))"

definition fast_readinto ::
  "('i, 'k) inner \<Rightarrow> u64 \<Rightarrow> py_buffer \<Rightarrow> 'i \<Rightarrow> 'k proc
     \<Rightarrow> ((py_error + nat option) \<times> 'i \<times> 'k proc) option" where
  "fast_readinto ops pos buffer i s =
     (if buf_readonly buffer then Some (Inl (Py_ValueError ''readinto needs a writable buffer''), i, s)
      else if \<not> buf_contiguous buffer then Some (Inl (Py_ValueError ''buffer must be C-contiguous''), i, s)
      else if buf_len buffer = 0 then Some (Inr None, i, s)
      else map_option (\<lambda>(r, i, s). (Inr r, i, s)) (in_fill ops pos (buf_ptr buffer) (buf_len buffer) i s))"

definition fast_read_all ::
  "('i, 'k) inner \<Rightarrow> u64 \<Rightarrow> addr \<Rightarrow> 'i \<Rightarrow> 'k proc \<Rightarrow> (byte list option \<times> 'i \<times> 'k proc) option" where
  "fast_read_all ops pos base i s = (case in_size ops i s of
       (None, s1) \<Rightarrow> Some (None, i, s1)
     | (Some sz, s1) \<Rightarrow>
         (let len = unat (saturating_sub sz pos)
          in case (if 0 < len then in_fill ops pos base len i s1 else Some (Some len, i, s1)) of
               None \<Rightarrow> None
             | Some (filled, i2, s2) \<Rightarrow>
                 (if filled \<noteq> Some len then Some (None, i2, s2)
                  else case in_at_eof ops sz i2 s2 of
                      (False, s3) \<Rightarrow> Some (None, i2, s3)
                    | (True, s3) \<Rightarrow> Some (Some (get_bytes base len s3), i2, s3))))"

text \<open>\<open>linux::read_file\<close>: the descriptor is closed on every way out (\<open>OwnedFd\<close>).\<close>

definition close_owned_fd :: "'k page_kernel \<Rightarrow> fd \<Rightarrow> 'k proc \<Rightarrow> 'k proc" where
  "close_owned_fd K f s = snd (call (sys_close (base_calls K) f) (proc_emit (Pe_close f) s))"

definition read_file_opened ::
  "'k page_kernel \<Rightarrow> addr \<Rightarrow> linux_inner \<Rightarrow> 'k proc \<Rightarrow> (byte list option \<times> 'k proc) option" where
  "read_file_opened K base i s = (case linux_size K i s of
       (None, s1) \<Rightarrow> Some (None, s1)
     | (Some sz, s1) \<Rightarrow>
         (let len = unat sz
          in case linux_fill K 0 base len i s1 of
               None \<Rightarrow> None
             | Some (filled, i2, s2) \<Rightarrow>
                 (if filled \<noteq> Some len then Some (None, s2)
                  else case linux_at_eof K sz i2 s2 of
                      (False, s3) \<Rightarrow> Some (None, s3)
                    | (True, s3) \<Rightarrow> Some (Some (get_bytes base len s3), s3))))"

definition try_read_file ::
  "'k page_kernel \<Rightarrow> path \<Rightarrow> addr \<Rightarrow> 'k proc \<Rightarrow> (byte list option \<times> 'k proc) option" where
  "try_read_file K path base s =
     (if CHR 0x00 \<in> set path then Some (None, s)
      else case call (sys_openat2 K path cached_only) s of
          (Inl e, s1) \<Rightarrow> Some (None, s1)
        | (Inr f, s1) \<Rightarrow>
            (case read_file_opened K base (linux_new f) (proc_emit (Pe_open f) s1) of
               None \<Rightarrow> None
             | Some (r, s2) \<Rightarrow> Some (r, close_owned_fd K f s2)))"

end
