(* ===== verification/Fast_Correct.thy ===== *)
theory Fast_Correct
  imports Fast_Path Aio_Read
begin

text \<open>
  What the fast path may be trusted with: the bytes it returns are the file's, it never
  returns a prefix for the whole, it writes nowhere but into the buffer it was given, it
  asks \<open>mincore\<close> only about its own mapping, and it keeps descriptors and mappings in
  balance.  \<open>FastPath\<close> relies on the platform through the locale \<open>fast_inner\<close>.
\<close>

section \<open>Offsets\<close>

lemma uint_of_sint: "uint (x :: u64) = take_bit 64 (sint x)"
  by transfer (simp add: take_bit_signed_take_bit)

lemma sint_of_small: "n < 2 ^ 63 \<Longrightarrow> sint (of_nat n :: u64) = int n"
  by (simp add: signed_of_nat signed_take_bit_int_eq_self)

lemma unat_less: "unat (x :: u64) < 2 ^ 64"
  using unsigned_less [of x] by simp

lemma kernel_offset_SomeD:
  assumes "kernel_offset pos k = Some off" and "k < 2 ^ 64"
  shows "off = pos + of_nat k" and "unat pos + k < 2 ^ 63"
proof -
  have k: "unat (of_nat k :: u64) = k" using assms(2) by (simp add: word_simps)
  from assms(1) have add: "checked_add pos (of_nat k) = Some off" and pos: "0 \<le> sint off"
    by (auto simp: kernel_offset_def split: option.splits if_splits)
  then show "off = pos + of_nat k" by (auto simp: checked_add_def split: if_splits)
  from checked_add_SomeD [OF add] k have "unat off = unat pos + k" by simp
  moreover have "unat off < 2 ^ 63"
  proof -
    have "sint off < 2 ^ 63" using sint_lt [of off] by simp
    with pos have "take_bit 64 (sint off) = sint off" by (intro take_bit_int_eq_self) auto
    moreover have "uint off = take_bit 64 (sint off)" by (rule uint_of_sint)
    ultimately have "uint off = sint off" by simp
    with \<open>sint off < 2 ^ 63\<close> have "uint off < 2 ^ 63" by simp
    then have "int (unat off) < 2 ^ 63" by (simp only: uint_nat)
    then show ?thesis by (simp only: of_nat_less_numeral_power_cancel_iff)
  qed
  ultimately show "unat pos + k < 2 ^ 63" by simp
qed

section \<open>A file being read\<close>

text \<open>
  What the kernel promises of a reading call on a regular file nobody changes, in any
  state with \<open>P\<close>: it fails, or it delivers a prefix of what is left, empty only at the end.
\<close>

definition reads ::
  "(nat \<Rightarrow> u64 \<Rightarrow> 'k \<Rightarrow> (errno + nat \<times> byte list) \<times> 'k) \<Rightarrow> byte list \<Rightarrow> ('k \<Rightarrow> bool) \<Rightarrow> bool" where
  "reads rd data P \<longleftrightarrow> length data < 2 ^ 63 \<and>
     (\<forall>n off w. P w \<longrightarrow> P (snd (rd n off w)) \<and>
        (case fst (rd n off w) of Inl e \<Rightarrow> True | Inr (m, bs) \<Rightarrow> chunk_ok data off n m bs))"

definition sizes :: "'k kernel \<Rightarrow> fd \<Rightarrow> byte list \<Rightarrow> ('k \<Rightarrow> bool) \<Rightarrow> bool" where
  "sizes K f data P \<longleftrightarrow> (\<forall>w. P w \<longrightarrow> P (snd (regular_file_size K f w)) \<and>
     (case fst (regular_file_size K f w) of None \<Rightarrow> True | Some sz \<Rightarrow> sz = of_nat (length data)))"

definition untouched :: "addr \<Rightarrow> nat \<Rightarrow> 'k proc \<Rightarrow> 'k proc \<Rightarrow> bool" where
  "untouched base len s s' \<longleftrightarrow> (\<forall>a. a < base \<or> base + len \<le> a \<longrightarrow> proc_mem s' a = proc_mem s a)"

definition copied :: "byte list \<Rightarrow> addr \<Rightarrow> nat \<Rightarrow> 'k proc \<Rightarrow> bool" where
  "copied bs base n s \<longleftrightarrow> n \<le> length bs \<and> (\<forall>k < n. proc_mem s (base + k) = bs ! k)"

lemma untouched_refl [simp]: "untouched base len s s"
  by (simp add: untouched_def)

lemma untouched_trans: "untouched base len a b \<Longrightarrow> untouched base len b c \<Longrightarrow> untouched base len a c"
  by (simp add: untouched_def)

lemma call_fields:
  "call f s = (r, s') \<Longrightarrow> proc_mem s' = proc_mem s \<and> proc_log s' = proc_log s \<and>
     proc_world s' = snd (f (proc_world s)) \<and> r = fst (f (proc_world s))"
  by (auto simp: call_def split: prod.splits)

lemma fill_step:
  assumes "reads rd data P" and "P (proc_world s)" and "filled < len"
    and "filled \<le> length (rest_of data pos)" and "copied (rest_of data pos) base filled s"
    and "call (rd (len - filled) (pos + of_nat filled)) s = (Inr (n, bs), s1)"
  shows "P (proc_world s1) \<and> filled + n \<le> len \<and> filled + n \<le> length (rest_of data pos) \<and>
    copied (rest_of data pos) base (filled + n) (put_bytes (base + filled) bs s1) \<and>
    untouched base len s (put_bytes (base + filled) bs s1) \<and>
    (n = 0 \<longrightarrow> filled = length (rest_of data pos))"
proof -
  let ?rest = "rest_of data pos"
  from assms(1,2) call_fields [OF assms(6)]
  have small: "length data < 2 ^ 63" and w: "P (proc_world s1)" and mem: "proc_mem s1 = proc_mem s"
    and chunk: "chunk_ok data (pos + of_nat filled) (len - filled) n bs"
    unfolding reads_def by (auto split: sum.splits prod.splits)
  from rest_of_later [OF small assms(4)]
  have rest: "rest_of data (pos + of_nat filled) = drop filled ?rest" .
  from chunk rest have n: "n \<le> len - filled" "n \<le> length ?rest - filled" and bs: "bs = take n (drop filled ?rest)"
    and none: "n = 0 \<longrightarrow> length ?rest \<le> filled"
    using assms(3) by (auto simp: chunk_ok_def)
  have len: "length bs = n" using n bs by simp
  have "proc_mem (put_bytes (base + filled) bs s1) (base + k) = ?rest ! k" if "k < filled + n" for k
    using that assms(4,5) mem bs len n by (cases "k < filled") (auto simp: put_bytes_def copied_def)
  then show ?thesis
    using assms(3,4) n none mem len w by (auto simp: copied_def untouched_def put_bytes_def)
qed

definition fill_start ::
  "(nat \<Rightarrow> u64 \<Rightarrow> 'k \<Rightarrow> (errno + nat \<times> byte list) \<times> 'k) \<Rightarrow> byte list \<Rightarrow> ('k \<Rightarrow> bool) \<Rightarrow> u64 \<Rightarrow> addr \<Rightarrow> nat
     \<Rightarrow> nat \<Rightarrow> 'k proc \<Rightarrow> bool" where
  "fill_start rd data P pos base len filled s \<longleftrightarrow> reads rd data P \<and> P (proc_world s) \<and> filled \<le> len \<and>
     len < 2 ^ 64 \<and> filled \<le> length (rest_of data pos) \<and> copied (rest_of data pos) base filled s"

definition filled_ok ::
  "byte list \<Rightarrow> ('k \<Rightarrow> bool) \<Rightarrow> u64 \<Rightarrow> addr \<Rightarrow> nat \<Rightarrow> 'k proc \<Rightarrow> nat option \<Rightarrow> 'k proc \<Rightarrow> bool" where
  "filled_ok data P pos base len s r s' \<longleftrightarrow> P (proc_world s') \<and> untouched base len s s' \<and>
     (case r of None \<Rightarrow> True
      | Some n \<Rightarrow> n = min len (length (rest_of data pos)) \<and> copied (rest_of data pos) base n s')"

lemma filled_ok_from: "untouched base len s s1 \<Longrightarrow> filled_ok data P pos base len s1 r s' \<Longrightarrow> filled_ok data P pos base len s r s'"
  by (auto simp: filled_ok_def intro: untouched_trans)

lemma fill_start_next:
  assumes "fill_start rd data P pos base len filled s" and "filled < len"
    and "kernel_offset pos filled = Some off" and "call (rd (len - filled) off) s = (Inr (n, bs), s1)"
  shows "untouched base len s (put_bytes (base + filled) bs s1)"
    and "fill_start rd data P pos base len (filled + n) (put_bytes (base + filled) bs s1)"
    and "n = 0 \<Longrightarrow> filled_ok data P pos base len s (Some filled) (put_bytes (base + filled) bs s1)"
proof -
  let ?s = "put_bytes (base + filled) bs s1"
  from assms(1,2) have k: "filled < 2 ^ 64" by (simp add: fill_start_def)
  have "P (proc_world s1) \<and> filled + n \<le> len \<and> filled + n \<le> length (rest_of data pos) \<and>
    copied (rest_of data pos) base (filled + n) ?s \<and> untouched base len s ?s \<and>
    (n = 0 \<longrightarrow> filled = length (rest_of data pos))"
    using assms(1,2,4) kernel_offset_SomeD(1) [OF assms(3) k]
    by (intro fill_step [of rd data P]) (auto simp: fill_start_def)
  then show "untouched base len s ?s" and "fill_start rd data P pos base len (filled + n) ?s"
    and "n = 0 \<Longrightarrow> filled_ok data P pos base len s (Some filled) ?s"
    using assms(1) by (auto simp: fill_start_def filled_ok_def put_bytes_def)
qed

lemma fill_loop_correct:
  assumes "fill_loop rd pos base len filled s = Some (r, s')"
  shows "(fill_start rd data P pos base len filled s \<longrightarrow> filled_ok data P pos base len s r s') \<and>
    proc_log s' = proc_log s"
proof -
  let ?P = "\<lambda>rd pos base len filled s out. (case out of (r, s') \<Rightarrow>
      (fill_start rd data P pos base len filled s \<longrightarrow> filled_ok data P pos base len s r s') \<and> proc_log s' = proc_log s)"
  have "?P rd pos base len filled s (r, s')"
  proof (rule fill_loop.raw_induct [where P = ?P, OF _ assms], goal_cases)
    case (1 loop rd pos base len filled s out)
    note rec = 1(1) and out = 1(2)
    show ?case
    proof (cases "filled < len")
      case False
      with out show ?thesis by (auto simp: filled_ok_def fill_start_def)
    next
      case True
      show ?thesis
      proof (cases "kernel_offset pos filled")
        case None
        with True out show ?thesis by (auto simp: filled_ok_def fill_start_def)
      next
        case off: (Some off)
        obtain res s1 where rd: "call (rd (len - filled) off) s = (res, s1)"
          by (cases "call (rd (len - filled) off) s")
        note fields = call_fields [OF rd]
        have keep: "untouched base len s s1" using fields by (simp add: untouched_def)
        have P1: "P (proc_world s1)" if "fill_start rd data P pos base len filled s"
          using that fields by (simp add: fill_start_def reads_def)
        show ?thesis
        proof (cases res)
          case (Inl e)
          have start: "fill_start rd data P pos base len filled s1" if "fill_start rd data P pos base len filled s"
            using that P1 fields by (simp add: fill_start_def copied_def)
          show ?thesis
          proof (cases "e = EINTR")
            case True': True
            with \<open>filled < len\<close> off rd Inl out have "loop rd pos base len filled s1 = Some out" by simp
            from rec [OF this] start keep fields show ?thesis by (auto intro: filled_ok_from)
          next
            case False
            with \<open>filled < len\<close> off rd Inl out P1 keep fields show ?thesis by (auto simp: filled_ok_def)
          qed
        next
          case (Inr x)
          obtain n bs where x: "x = (n, bs)" by (cases x)
          let ?s = "put_bytes (base + filled) bs s1"
          note nxt = fill_start_next [where rd = rd and len = len and filled = filled and base = base and s = s
              and data = data and P = P and pos = pos and off = off and n = n and bs = bs, OF _ True off rd [unfolded Inr x]]
          have log: "proc_log ?s = proc_log s" using fields by (simp add: put_bytes_def)
          show ?thesis
          proof (cases "n = 0")
            case n0: True
            with \<open>filled < len\<close> off rd Inr x out have "out = (Some filled, ?s)" by simp
            with nxt(3) n0 log show ?thesis by auto
          next
            case False
            with \<open>filled < len\<close> off rd Inr x out have "loop rd pos base len (filled + n) ?s = Some out" by simp
            from rec [OF this] nxt(1,2) log show ?thesis by (auto intro: filled_ok_from)
          qed
        qed
      qed
    qed
  qed
  then show ?thesis by simp
qed

section \<open>What \<open>FastPath\<close> expects of a platform\<close>

locale fast_inner =
  fixes ops :: "('i, 'k) inner"
    and promise :: "'i \<Rightarrow> byte list \<Rightarrow> ('k \<Rightarrow> bool) \<Rightarrow> bool"
  assumes fill_law: "promise i data P \<Longrightarrow> P (proc_world s) \<Longrightarrow> len < 2 ^ 64 \<Longrightarrow>
      in_fill ops pos base len i s = Some (r, i', s') \<Longrightarrow>
      promise i' data P \<and> filled_ok data P pos base len s r s'"
    and size_law: "promise i data P \<Longrightarrow> P (proc_world s) \<Longrightarrow> in_size ops i s = (r', s') \<Longrightarrow>
      P (proc_world s') \<and> proc_mem s' = proc_mem s"
    and at_eof_law: "promise i data P \<Longrightarrow> P (proc_world s) \<Longrightarrow> in_at_eof ops sz i s = (b, s') \<Longrightarrow>
      P (proc_world s') \<and> proc_mem s' = proc_mem s \<and> (b \<longrightarrow> length data \<le> unat sz)"
begin

lemma get_copied: "copied bs base n s \<Longrightarrow> get_bytes base n s = take n bs"
  by (auto simp: copied_def get_bytes_def intro!: nth_equalityI)

lemma take_get_bytes: "n \<le> m \<Longrightarrow> take n (get_bytes base m s) = get_bytes base n s"
  by (simp add: get_bytes_def take_map)

lemma read_law:
  assumes "promise i data P" and "P (proc_world s)" and "len < 2 ^ 64"
    and "fast_read ops pos len base i s = Some (r, i', s')"
  shows "promise i' data P \<and> P (proc_world s') \<and> untouched base len s s' \<and>
    (case r of None \<Rightarrow> True | Some bs \<Rightarrow> 0 < len \<and> bs = take len (rest_of data pos))"
proof (cases "len = 0")
  case True
  with assms show ?thesis by (auto simp: fast_read_def)
next
  case False
  with assms(4) obtain f s1 where fill: "in_fill ops pos base len i s = Some (f, i', s')"
    and r: "r = (case f of None \<Rightarrow> None | Some n \<Rightarrow>
        Some (if n = len then get_bytes base len s' else take n (get_bytes base len s')))"
    by (auto simp: fast_read_def split: option.splits if_splits)
  from fill_law [OF assms(1-3) fill] False r get_copied [of "rest_of data pos" base _ s']
  show ?thesis
    by (auto simp: filled_ok_def take_get_bytes min_def split: option.splits if_splits)
qed

lemma readinto_law:
  assumes "promise i data P" and "P (proc_world s)" and "buf_len b < 2 ^ 64"
    and "fast_readinto ops pos b i s = Some (r, i', s')"
  shows "promise i' data P \<and> P (proc_world s') \<and> untouched (buf_ptr b) (buf_len b) s s' \<and>
    (\<forall>n. r = Inr (Some n) \<longrightarrow> \<not> buf_readonly b \<and> buf_contiguous b \<and>
       n = min (buf_len b) (length (rest_of data pos)) \<and>
       get_bytes (buf_ptr b) n s' = take n (rest_of data pos)) \<and>
    ((\<exists>e. r = Inl e) \<longleftrightarrow> buf_readonly b \<or> \<not> buf_contiguous b)"
proof (cases "buf_readonly b \<or> \<not> buf_contiguous b \<or> buf_len b = 0")
  case True
  with assms show ?thesis by (auto simp: fast_readinto_def split: if_splits)
next
  case False
  with assms(4) obtain f where fill: "in_fill ops pos (buf_ptr b) (buf_len b) i s = Some (f, i', s')"
    and r: "r = Inr f"
    by (auto simp: fast_readinto_def split: if_splits)
  from fill_law [OF assms(1-3) fill] False r get_copied [of "rest_of data pos" "buf_ptr b" _ s']
  show ?thesis by (auto simp: filled_ok_def split: option.splits)
qed

text \<open>The size \<open>fstat\<close> reported need not even be right for the answer to be.\<close>

lemma read_all_law:
  assumes "promise i data P" and "P (proc_world s)"
    and "fast_read_all ops pos base i s = Some (r, i', s')"
  shows "promise i' data P \<and> P (proc_world s') \<and>
    (\<exists>len. untouched base len s s') \<and> (case r of None \<Rightarrow> True | Some bs \<Rightarrow> bs = rest_of data pos)"
proof -
  obtain sz s1 where size: "in_size ops i s = (sz, s1)" by (cases "in_size ops i s")
  from size_law [OF assms(1,2) size] have s1: "P (proc_world s1)" "proc_mem s1 = proc_mem s" by auto
  then have un: "untouched base len s s1" for len by (simp add: untouched_def)
  show ?thesis
  proof (cases sz)
    case None
    with size assms s1 un show ?thesis by (auto simp: fast_read_all_def)
  next
    case (Some n)
    let ?len = "unat (saturating_sub n pos)"
    obtain f s2 where fill: "(if 0 < ?len then in_fill ops pos base ?len i s1 else Some (Some ?len, i, s1)) = Some (f, i', s2)"
      and out: "(if f \<noteq> Some ?len then Some (None, i', s2)
         else case in_at_eof ops n i' s2 of (False, s3) \<Rightarrow> Some (None, i', s3)
           | (True, s3) \<Rightarrow> Some (Some (get_bytes base ?len s3), i', s3)) = Some (r, i', s')"
      using assms(3) size Some
      by (auto simp: fast_read_all_def Let_def split: option.splits prod.splits if_splits bool.splits)
    have ok: "promise i' data P \<and> P (proc_world s2) \<and> untouched base ?len s1 s2 \<and>
        (f = Some ?len \<longrightarrow> ?len = 0 \<or> ?len \<le> length (rest_of data pos) \<and> copied (rest_of data pos) base ?len s2)"
    proof (cases "0 < ?len")
      case True
      with fill have "in_fill ops pos base ?len i s1 = Some (f, i', s2)" by simp
      from fill_law [OF assms(1) s1(1) _ this] show ?thesis
        using unat_less by (auto simp: filled_ok_def)
    next
      case False
      with fill assms(1) s1 show ?thesis by auto
    qed
    show ?thesis
    proof (cases "f = Some ?len")
      case False
      with out ok untouched_trans [OF un [of ?len], of s2] show ?thesis by auto
    next
      case True
      obtain b s3 where eof: "in_at_eof ops n i' s2 = (b, s3)" by (cases "in_at_eof ops n i' s2")
      from at_eof_law [OF _ _ this] ok
      have s3: "P (proc_world s3)" "proc_mem s3 = proc_mem s2" "b \<longrightarrow> length data \<le> unat n" by auto
      have s': "s' = s3" and r: "r = (if b then Some (get_bytes base ?len s3) else None)"
        using out True eof by (auto split: bool.splits)
      have "untouched base ?len s s3"
        using ok s3(2) untouched_trans [OF un [of ?len], of s2] by (simp add: untouched_def)
      moreover have "get_bytes base ?len s3 = rest_of data pos" if b
      proof -
        have len: "?len = unat n - unat pos"
          by (rule unat_saturating_sub)
        with s3(3) \<open>b\<close> have "length (rest_of data pos) \<le> ?len" by (simp add: rest_of_def)
        moreover have "?len = 0 \<or> get_bytes base ?len s3 = take ?len (rest_of data pos)"
          using ok True s3(2) get_copied [of "rest_of data pos" base ?len s3] by (auto simp: copied_def)
        ultimately show ?thesis by (auto simp: get_bytes_def)
      qed
      ultimately show ?thesis using ok s3 s' r by auto
    qed
  qed
qed

end

section \<open>The three platforms provide it\<close>

definition linux_promise :: "'k page_kernel \<Rightarrow> linux_inner \<Rightarrow> byte list \<Rightarrow> ('k \<Rightarrow> bool) \<Rightarrow> bool" where
  "linux_promise K i data P \<longleftrightarrow> reads (nowait K (li_fd i)) data P \<and>
     (\<forall>w. P w \<longrightarrow> P (snd (regular_file_size (base_calls K) (li_fd i) w)))"

definition darwin_promise :: "'k page_kernel \<Rightarrow> darwin_inner \<Rightarrow> byte list \<Rightarrow> ('k \<Rightarrow> bool) \<Rightarrow> bool" where
  "darwin_promise K i data P \<longleftrightarrow> reads (sys_pread (base_calls K) (di_fd i)) data P \<and>
     sizes (base_calls K) (di_fd i) data P \<and>
     (\<forall>a n w. P w \<longrightarrow> P (snd (sys_mmap K n (di_fd i) w)) \<and> P (sys_munmap K a n w) \<and>
        P (snd (sys_mincore K a n w)))"

lemma fill_from_zero:
  assumes "fill_loop rd pos base len 0 s = Some (r, s')" and "reads rd data P"
    and "P (proc_world s)" and "len < 2 ^ 64"
  shows "filled_ok data P pos base len s r s'"
  using fill_loop_correct [OF assms(1), of data P] assms(2-) by (auto simp: fill_start_def copied_def)

lemma linux_at_eof_law:
  assumes "linux_promise K i data P" and "P (proc_world s)" and "linux_at_eof K sz i s = (b, s')"
  shows "P (proc_world s') \<and> proc_mem s' = proc_mem s \<and> (b \<longrightarrow> length data \<le> unat sz)"
proof (cases "kernel_offset sz 0")
  case None
  with assms show ?thesis by (auto simp: linux_at_eof_def)
next
  case (Some off)
  obtain res s1 where rd: "call (nowait K (li_fd i) 1 off) s = (res, s1)"
    by (cases "call (nowait K (li_fd i) 1 off) s")
  from kernel_offset_SomeD(1) [OF Some] have off: "off = sz" by simp
  from call_fields [OF rd] assms(1,2) off
  have "P (proc_world s1)" and "\<And>bs. res = Inr (0, bs) \<Longrightarrow> chunk_ok data sz 1 0 bs"
    unfolding linux_promise_def reads_def by (auto split: sum.splits prod.splits)
  with assms(3) Some rd call_fields [OF rd] show ?thesis
    by (auto simp: linux_at_eof_def chunk_ok_def rest_of_def split: sum.splits prod.splits)
qed

interpretation linux: fast_inner "linux_ops K" "linux_promise K"
proof (unfold_locales, goal_cases)
  case (1 i data P s len pos base r i' s')
  then show ?case
    by (auto simp: linux_ops_def linux_fill_def linux_promise_def filled_ok_def
        dest!: fill_from_zero split: if_splits)
next
  case (2 i data P s r' s')
  then show ?case
    by (auto simp: linux_ops_def linux_size_def linux_promise_def dest!: call_fields)
next
  case (3 i data P s sz b s')
  then show ?case using linux_at_eof_law [of K i data P s sz b s'] by (simp add: linux_ops_def)
qed

text \<open>Everything \<open>resident\<close> does leaves memory and descriptor alone.\<close>

definition looked ::
  "'k page_kernel \<Rightarrow> byte list \<Rightarrow> ('k \<Rightarrow> bool) \<Rightarrow> darwin_inner \<Rightarrow> 'k proc \<Rightarrow> darwin_inner \<Rightarrow> 'k proc \<Rightarrow> bool" where
  "looked K data P i s i' s' \<longleftrightarrow> di_fd i' = di_fd i \<and> proc_mem s' = proc_mem s \<and>
     (darwin_promise K i data P \<and> P (proc_world s) \<longrightarrow> P (proc_world s'))"

lemma darwin_promise_fd: "di_fd i' = di_fd i \<Longrightarrow> darwin_promise K i' data P = darwin_promise K i data P"
  by (simp add: darwin_promise_def)

lemma looked_refl [simp]: "looked K data P i s i s"
  by (simp add: looked_def)

lemma looked_trans:
  assumes "looked K data P i s i1 s1" and "looked K data P i1 s1 i2 s2"
  shows "looked K data P i s i2 s2"
  using assms darwin_promise_fd [of i1 i K data P] by (simp add: looked_def)

lemma looked_emit [simp]: "looked K data P i s i1 (proc_emit ev s1) = looked K data P i s i1 s1"
  by (simp add: looked_def proc_emit_def)

lemma looked_from_emit [simp]: "looked K data P i (proc_emit ev s) i1 s1 = looked K data P i s i1 s1"
  by (simp add: looked_def proc_emit_def)

lemma looked_size: "call (regular_file_size (base_calls K) (di_fd i)) s = (r, s1) \<Longrightarrow> looked K data P i s i s1"
  by (auto simp: looked_def darwin_promise_def sizes_def dest!: call_fields)

lemma looked_mmap: "call (sys_mmap K n (di_fd i)) s = (r, s1) \<Longrightarrow> looked K data P i s i s1"
  by (auto simp: looked_def darwin_promise_def dest!: call_fields)

lemma looked_mincore: "call (sys_mincore K a n) s = (r, s1) \<Longrightarrow> looked K data P i s i s1"
  by (auto simp: looked_def darwin_promise_def dest!: call_fields)

lemma looked_drop: "looked K data P i s i (drop_view K v s)"
  by (auto simp: drop_view_def looked_def darwin_promise_def call_def proc_emit_def split: option.splits)

lemma looked_view: "looked K data P i s (i1\<lparr>di_view := v\<rparr>) s1 = looked K data P i s i1 s1"
  by (simp add: looked_def)

lemma ensure_view_cases:
  assumes "ensure_view K end i s = (b, i', s')"
  obtains (covered) "b" "view_covers end i" "i' = i" "s' = s"
    | (refused) r s1 where "\<not> b" "i' = i" "call (regular_file_size (base_calls K) (di_fd i)) s = (r, s1)"
        "s' = s1 \<or> (\<exists>len. call (sys_mmap K len (di_fd i)) s1 = (None, s'))"
    | (mapped) sz s1 len a s2 where "call (regular_file_size (base_calls K) (di_fd i)) s = (Some sz, s1)"
        "view_len K sz = Some len" "call (sys_mmap K len (di_fd i)) s1 = (Some a, s2)"
        "i' = i\<lparr>di_view := Some \<lparr>v_addr = a, v_len = len\<rparr>\<rparr>"
        "s' = drop_view K (di_view i) (proc_emit (Pe_map a len) s2)" "b = view_covers end i'"
proof (cases "view_covers end i")
  case True
  with assms have "b \<and> i' = i \<and> s' = s" by (simp add: ensure_view_def)
  then show ?thesis using covered True by simp
next
  case False
  obtain r s1 where size: "call (regular_file_size (base_calls K) (di_fd i)) s = (r, s1)"
    by (cases "call (regular_file_size (base_calls K) (di_fd i)) s")
  show ?thesis
  proof (cases "r = None \<or> view_len K (the r) = None \<or>
      (case di_view i of None \<Rightarrow> False | Some v \<Rightarrow> the (view_len K (the r)) \<le> v_len v)")
    case True
    with assms False size have "\<not> b \<and> i' = i \<and> s' = s1"
      by (cases r; cases "view_len K (the r)"; cases "di_view i") (simp_all add: ensure_view_def)
    then show ?thesis using refused [OF _ _ size] by simp
  next
    case fresh: False
    then obtain sz len where r: "r = Some sz" and len: "view_len K sz = Some len" by auto
    have room: "(case di_view i of None \<Rightarrow> False | Some v \<Rightarrow> len \<le> v_len v) = False"
      using fresh r len by (cases "di_view i") simp_all
    obtain m s2 where mmap: "call (sys_mmap K len (di_fd i)) s1 = (m, s2)"
      by (cases "call (sys_mmap K len (di_fd i)) s1")
    show ?thesis
    proof (cases m)
      case None
      with assms False size room r len mmap have "\<not> b \<and> i' = i \<and> s' = s2"
        by (simp add: ensure_view_def)
      then show ?thesis using refused [OF _ _ size] mmap None by auto
    next
      case (Some a)
      let ?i = "i\<lparr>di_view := Some \<lparr>v_addr = a, v_len = len\<rparr>\<rparr>"
      from assms False size room r len mmap Some
      have "i' = ?i" and "s' = drop_view K (di_view i) (proc_emit (Pe_map a len) s2)" and "b = view_covers end ?i"
        by (auto simp: ensure_view_def Let_def)
      then show ?thesis using mapped [OF size [unfolded r] len mmap [unfolded Some]] by simp
    qed
  qed
qed

lemma ensure_view_looked:
  assumes "ensure_view K end i s = (b, i', s')"
  shows "looked K data P i s i' s'"
proof (cases rule: ensure_view_cases [OF assms])
  case 1
  then show ?thesis by simp
next
  case 2
  then show ?thesis by (auto intro: looked_size looked_trans [OF looked_size looked_mmap])
next
  case (3 sz s1 len a s2)
  have "looked K data P i s i s2" using 3(1,3) by (rule looked_trans [OF looked_size looked_mmap])
  moreover have "looked K data P i (proc_emit (Pe_map a len) s2) i s'" using 3(5) by (simp only: looked_drop)
  ultimately show ?thesis using 3(4) looked_trans [of K data P i s i s2 i s'] by (simp add: looked_view)
qed

text \<open>One turn of the loop, with the call's answer at hand.\<close>

fun after_mincore ::
  "'k page_kernel \<Rightarrow> fd \<Rightarrow> addr \<Rightarrow> nat \<Rightarrow> nat \<Rightarrow> nat \<Rightarrow> nat \<Rightarrow> byte list option \<times> 'k proc \<Rightarrow> bool \<times> 'k proc" where
  "after_mincore K f a page stop off n (None, s) = (False, s)"
| "after_mincore K f a page stop off n (Some flags, s) =
     (case position (\<lambda>x. x AND MINCORE_INCORE = 0) (take (n div page) flags) of
        Some index \<Rightarrow> (case call (regular_file_size (base_calls K) f) s of
            (None, s1) \<Rightarrow> (False, s1)
          | (Some sz, s1) \<Rightarrow> (unat sz \<le> off + index * page, s1))
      | None \<Rightarrow> resident_loop K f a page stop (off + n) s)"

lemma resident_loop_step:
  "resident_loop K f a page stop off s = (if off < stop \<and> 0 < page
     then let n = min (stop - off) (FLAGS_PER_CALL * page)
          in after_mincore K f a page stop off n
               (call (sys_mincore K (a + off) n) (proc_emit (Pe_mincore (a + off) n) s))
     else (True, s))"
  by (subst resident_loop.simps) (simp add: Let_def split: prod.splits option.splits)

lemma resident_loop_induct [case_names step]:
  assumes "\<And>off s. (\<And>off' s'. off < off' \<Longrightarrow> off < stop \<Longrightarrow> 0 < page \<Longrightarrow> off' \<le> stop \<Longrightarrow> Q off' s') \<Longrightarrow> Q off s"
  shows "Q (off :: nat) (s :: 'k proc)"
proof (induction "stop - off" arbitrary: off s rule: less_induct)
  case less
  show ?case by (rule assms, rule less) auto
qed

lemma resident_loop_looked:
  "resident_loop K (di_fd i) a page stop off s = (b, s') \<Longrightarrow> looked K data P i s i s'"
proof (induction off s arbitrary: b rule: resident_loop_induct [of stop page])
  case (step off s)
  let ?chunk = "min (stop - off) (FLAGS_PER_CALL * page)"
  obtain r s1 where mc: "call (sys_mincore K (a + off) ?chunk) (proc_emit (Pe_mincore (a + off) ?chunk) s) = (r, s1)"
    by (cases "call (sys_mincore K (a + off) ?chunk) (proc_emit (Pe_mincore (a + off) ?chunk) s)")
  from looked_mincore [OF mc, of data P i] have l1: "looked K data P i s i s1" by simp
  show ?case
  proof (cases "off < stop \<and> 0 < page")
    case False
    with step.prems show ?thesis by (simp add: resident_loop_step [of K "di_fd i"])
  next
    case True
    then have "off < off + ?chunk" "off + ?chunk \<le> stop" by (auto simp: FLAGS_PER_CALL_def)
    from step.IH [OF this(1) _ _ this(2)] True
    have rec: "resident_loop K (di_fd i) a page stop (off + ?chunk) s1 = (b, s') \<Longrightarrow> looked K data P i s1 i s'" for b by blast
    from step.prems True mc
    have out: "after_mincore K (di_fd i) a page stop off ?chunk (r, s1) = (b, s')"
      by (simp add: resident_loop_step [of K "di_fd i"] Let_def)
    have "looked K data P i s1 i s'"
    proof (cases r)
      case None
      with out show ?thesis by simp
    next
      case (Some flags)
      with out rec show ?thesis by (auto split: option.splits prod.splits intro: looked_size)
    qed
    with l1 show ?thesis by (rule looked_trans)
  qed
qed

lemma resident_looked:
  assumes "resident K pos len i s = (b, i', s')"
  shows "looked K data P i s i' s'"
proof (cases "checked_add pos (of_nat len)")
  case None
  with assms show ?thesis by (simp add: resident_def)
next
  case (Some stop)
  obtain b1 i1 s1 where ev: "ensure_view K stop i s = (b1, i1, s1)" by (cases "ensure_view K stop i s")
  note look = ensure_view_looked [OF ev]
  show ?thesis
  proof (cases "b1 \<and> di_view i1 \<noteq> None")
    case False
    with assms Some ev look show ?thesis by (auto simp: resident_def split: bool.splits)
  next
    case True
    then obtain v where v: "di_view i1 = Some v" by auto
    with assms Some ev True have i': "i' = i1"
      and "resident_loop K (di_fd i1) (v_addr v) (page_size K) (div_ceil (unat stop) (page_size K) * page_size K)
             (unat pos div page_size K * page_size K) s1 = (b, s')"
      by (auto simp: resident_def Let_def split: prod.splits)
    from looked_trans [OF look resident_loop_looked [OF this(2)]] i' show ?thesis by simp
  qed
qed

interpretation darwin: fast_inner "darwin_ops K" "darwin_promise K"
proof (unfold_locales, goal_cases)
  case (1 i data P s len pos base r i' s')
  obtain b i1 s1 where res: "resident K pos len i s = (b, i1, s1)" by (cases "resident K pos len i s")
  from resident_looked [OF res, of data P] 1(1,2) darwin_promise_fd [of i1 i K data P]
  have i1: "darwin_promise K i1 data P" "P (proc_world s1)" "proc_mem s1 = proc_mem s"
    by (simp_all add: looked_def)
  then have un: "untouched base len s s1" by (simp add: untouched_def)
  show ?case
  proof (cases b)
    case False
    with res 1(4) i1 un show ?thesis by (auto simp: darwin_ops_def darwin_fill_def filled_ok_def)
  next
    case True
    with res 1(4) have i': "i' = i1"
      and "fill_loop (sys_pread (base_calls K) (di_fd i1)) pos base len 0 s1 = Some (r, s')"
      by (auto simp: darwin_ops_def darwin_fill_def)
    from fill_from_zero [OF this(2), of data P] i1(1,2) 1(3)
    have "filled_ok data P pos base len s1 r s'" by (simp add: darwin_promise_def)
    with i1(1) i' un show ?thesis by (auto intro: filled_ok_from)
  qed
next
  case (2 i data P s r' s')
  then show ?case
    by (auto simp: darwin_ops_def darwin_size_def darwin_promise_def sizes_def dest!: call_fields)
next
  case (3 i data P s sz b s')
  from 3(1) have "length data < 2 ^ 63" by (simp add: darwin_promise_def reads_def)
  then have "unat (of_nat (length data) :: u64) = length data" by (simp add: word_simps)
  with 3 show ?case
    by (auto simp: darwin_ops_def darwin_at_eof_def darwin_promise_def sizes_def
        split: prod.splits option.splits dest!: call_fields)
qed

interpretation nothing: fast_inner none_ops "\<lambda>i data P. True"
  by unfold_locales
    (auto simp: none_ops_def none_fill_def none_size_def none_at_eof_def filled_ok_def)

end
