(* ===== verification/Fast_Views.thy ===== *)
theory Fast_Views
  imports Fast_Correct
begin

text \<open>
  The Darwin mapping: \<open>mincore\<close> asks only about the mapping held, every mapping is
  unmapped exactly once, and \<open>resident\<close> decides what it is meant to decide.  The calls a
  \<open>FastPath\<close> object serves are taken in any order; what every platform operation keeps,
  every sequence of calls keeps (locale \<open>fast_keeps\<close>).
\<close>

section \<open>The calls of one \<open>FastPath\<close> object\<close>

datatype fast_call =
    Call_read u64 nat addr
  | Call_readinto u64 py_buffer
  | Call_read_all u64 addr
  | Call_size
  | Call_supported

fun run_call :: "('i, 'k) inner \<Rightarrow> fast_call \<Rightarrow> 'i \<Rightarrow> 'k proc \<Rightarrow> ('i \<times> 'k proc) option" where
  "run_call ops (Call_read pos len base) i s = map_option snd (fast_read ops pos len base i s)"
| "run_call ops (Call_readinto pos b) i s = map_option snd (fast_readinto ops pos b i s)"
| "run_call ops (Call_read_all pos base) i s = map_option snd (fast_read_all ops pos base i s)"
| "run_call ops Call_size i s = Some (i, snd (in_size ops i s))"
| "run_call ops Call_supported i s = map_option snd (in_supported ops i s)"

fun run_calls :: "('i, 'k) inner \<Rightarrow> fast_call list \<Rightarrow> 'i \<Rightarrow> 'k proc \<Rightarrow> ('i \<times> 'k proc) option" where
  "run_calls ops [] i s = Some (i, s)"
| "run_calls ops (c # cs) i s = (case run_call ops c i s of
     None \<Rightarrow> None | Some (i1, s1) \<Rightarrow> run_calls ops cs i1 s1)"

locale fast_keeps =
  fixes ops :: "('i, 'k) inner"
    and inv :: "'i \<Rightarrow> 'k proc \<Rightarrow> bool"
  assumes fill_keeps: "inv i s \<Longrightarrow> in_fill ops pos base len i s = Some (r, i', s') \<Longrightarrow> inv i' s'"
    and size_keeps: "inv i s \<Longrightarrow> in_size ops i s = (sz, s') \<Longrightarrow> inv i s'"
    and at_eof_keeps: "inv i s \<Longrightarrow> in_at_eof ops n i s = (b, s') \<Longrightarrow> inv i s'"
    and supported_keeps: "inv i s \<Longrightarrow> in_supported ops i s = Some (b, i', s') \<Longrightarrow> inv i' s'"
begin

lemma read_keeps: "inv i s \<Longrightarrow> fast_read ops pos len base i s = Some (r, i', s') \<Longrightarrow> inv i' s'"
  by (auto simp: fast_read_def split: if_splits option.splits dest: fill_keeps)

lemma readinto_keeps: "inv i s \<Longrightarrow> fast_readinto ops pos b i s = Some (r, i', s') \<Longrightarrow> inv i' s'"
  by (auto simp: fast_readinto_def split: if_splits dest: fill_keeps)

lemma read_all_keeps:
  assumes "inv i s" and "fast_read_all ops pos base i s = Some (r, i', s')"
  shows "inv i' s'"
proof -
  obtain sz s1 where size: "in_size ops i s = (sz, s1)" by (cases "in_size ops i s")
  note s1 = size_keeps [OF assms(1) size]
  show ?thesis
  proof (cases sz)
    case None
    with size assms(2) s1 show ?thesis by (simp add: fast_read_all_def)
  next
    case (Some n)
    let ?len = "unat (saturating_sub n pos)"
    let ?filled = "if 0 < ?len then in_fill ops pos base ?len i s1 else Some (Some ?len, i, s1)"
    from assms(2) size Some obtain f i2 s2 where filled: "?filled = Some (f, i2, s2)"
      by (auto simp: fast_read_all_def Let_def split: option.splits)
    have inv2: "inv i2 s2" using filled s1 by (auto split: if_splits dest: fill_keeps)
    obtain b s3 where eof: "in_at_eof ops n i2 s2 = (b, s3)" by (cases "in_at_eof ops n i2 s2")
    from at_eof_keeps [OF inv2 eof] inv2 assms(2) size Some filled eof show ?thesis
      by (cases b; cases "f = Some ?len") (simp_all add: fast_read_all_def Let_def del: not_None_eq)
  qed
qed

lemma call_keeps: "inv i s \<Longrightarrow> run_call ops c i s = Some (i', s') \<Longrightarrow> inv i' s'"
proof (cases c)
  case Call_size
  then show "inv i s \<Longrightarrow> run_call ops c i s = Some (i', s') \<Longrightarrow> inv i' s'"
    using size_keeps [of i s "fst (in_size ops i s)" "snd (in_size ops i s)"] by auto
qed (auto dest: read_keeps readinto_keeps read_all_keeps supported_keeps)

lemma calls_keep: "inv i s \<Longrightarrow> run_calls ops cs i s = Some (i', s') \<Longrightarrow> inv i' s'"
proof (induction cs arbitrary: i s)
  case (Cons c cs)
  then obtain i1 s1 where "run_call ops c i s = Some (i1, s1)" and "run_calls ops cs i1 s1 = Some (i', s')"
    by (auto split: option.splits)
  with Cons.IH [of i1 s1] Cons.prems(1) call_keeps show ?case by blast
qed simp

end

section \<open>Watching the mappings\<close>

text \<open>
  The mappings open so far, latest first; \<^const>\<open>None\<close> when an event is out of order: a
  mapping unmapped that is not held, or \<open>mincore\<close> asked outside every held mapping.
\<close>

fun watch :: "page_event \<Rightarrow> (addr \<times> nat) list \<Rightarrow> (addr \<times> nat) list option" where
  "watch (Pe_map a n) hs = Some ((a, n) # hs)"
| "watch (Pe_unmap a n) hs = (if (a, n) \<in> set hs then Some (remove1 (a, n) hs) else None)"
| "watch (Pe_mincore a n) hs =
     (if list_ex (\<lambda>(b, l). b \<le> a \<and> a + n \<le> b + l) hs then Some hs else None)"
| "watch (Pe_open f) hs = Some hs"
| "watch (Pe_close f) hs = Some hs"

fun watch_all :: "page_event list \<Rightarrow> (addr \<times> nat) list \<Rightarrow> (addr \<times> nat) list option" where
  "watch_all [] hs = Some hs"
| "watch_all (ev # evs) hs = (case watch ev hs of None \<Rightarrow> None | Some h \<Rightarrow> watch_all evs h)"

lemma watch_all_append:
  "watch_all (xs @ ys) hs = (case watch_all xs hs of None \<Rightarrow> None | Some h \<Rightarrow> watch_all ys h)"
  by (induction xs arbitrary: hs) (auto split: option.splits)

definition view_list :: "view option \<Rightarrow> (addr \<times> nat) list" where
  "view_list v = (case v of None \<Rightarrow> [] | Some v \<Rightarrow> [(v_addr v, v_len v)])"

text \<open>The view is whole pages long, and it is what is mapped.\<close>

definition views_ok :: "'k page_kernel \<Rightarrow> darwin_inner \<Rightarrow> 'k proc \<Rightarrow> bool" where
  "views_ok K i s \<longleftrightarrow> watch_all (proc_log s) [] = Some (view_list (di_view i)) \<and>
     (\<forall>v. di_view i = Some v \<longrightarrow> page_size K dvd v_len v)"

lemma views_ok_log: "proc_log s' = proc_log s \<Longrightarrow> views_ok K i s' = views_ok K i s"
  by (simp add: views_ok_def)

lemma views_ok_call: "views_ok K i s \<Longrightarrow> call f s = (r, s') \<Longrightarrow> views_ok K i s'"
  using call_fields [of f s r s'] views_ok_log [of s' s K i] by simp

lemma unat_view_mul:
  assumes "view_len K sz = Some len" and "page_size K dvd 2 ^ 20" 
  shows "page_size K dvd len"
proof -
  let ?page = "page_size K"
  have page: "0 < ?page" "?page \<le> 2 ^ 20" using assms(2) by (auto simp: page_size_def intro: dvd_imp_le)
  then have unat_page: "unat (of_nat ?page :: u64) = ?page" by (simp add: word_simps)
  from assms(1) obtain x y where x: "checked_add sz (of_nat ?page - 1) = Some x"
    and y: "checked_add (x div of_nat ?page * of_nat ?page) HEADROOM = Some y" and len: "len = unat y"
    by (auto simp: view_len_def Let_def split: option.splits)
  have "unat (x div of_nat ?page) = unat x div ?page" using unat_page by (simp add: unat_div)
  moreover have "unat x div ?page * ?page < 2 ^ 64"
    using unat_less [of x] by (rule order.strict_trans1 [OF div_times_less_eq_dividend])
  ultimately have "unat (x div of_nat ?page * of_nat ?page) = unat x div ?page * ?page"
    using unat_page by (simp add: unat_word_ariths unat_mult_lem)
  with checked_add_SomeD [OF y] len have "len = unat x div ?page * ?page + 2 ^ 20"
    by (simp add: HEADROOM_def)
  with assms(2) show ?thesis by simp
qed


lemma views_ok_ensure:
  assumes "views_ok K i s" and "page_size K dvd 2 ^ 20" and "ensure_view K end i s = (b, i', s')"
  shows "views_ok K i' s' \<and> (b \<longrightarrow> view_covers end i')"
proof (cases rule: ensure_view_cases [OF assms(3)])
  case 1
  with assms(1) show ?thesis by simp
next
  case 2
  with assms(1) show ?thesis by (auto dest: views_ok_call)
next
  case (3 sz s1 len a s2)
  from call_fields [OF 3(1)] call_fields [OF 3(3)] have log: "proc_log s2 = proc_log s" by simp
  with 3 assms(1) unat_view_mul [OF 3(2) assms(2)] show ?thesis
    by (auto simp: views_ok_def watch_all_append proc_emit_def drop_view_def view_list_def call_def
        split: option.splits)
qed

lemma views_ok_resident_loop:
  assumes "di_view i = Some v" and "stop \<le> v_len v"
  shows "views_ok K i s \<Longrightarrow> resident_loop K f (v_addr v) page stop off s = (b, s') \<Longrightarrow> views_ok K i s'"
proof (induction off s arbitrary: b rule: resident_loop_induct [of stop page])
  case (step off s)
  let ?chunk = "min (stop - off) (FLAGS_PER_CALL * page)"
  let ?s = "proc_emit (Pe_mincore (v_addr v + off) ?chunk) s"
  show ?case
  proof (cases "off < stop \<and> 0 < page")
    case False
    with step.prems show ?thesis by (simp add: resident_loop_step [of K f])
  next
    case True
    obtain r s1 where mc: "call (sys_mincore K (v_addr v + off) ?chunk) ?s = (r, s1)"
      by (cases "call (sys_mincore K (v_addr v + off) ?chunk) ?s")
    from True have chunk: "off < off + ?chunk" "off + ?chunk \<le> stop" by (auto simp: FLAGS_PER_CALL_def)
    with step.prems(1) assms have "views_ok K i ?s"
      by (auto simp: views_ok_def watch_all_append proc_emit_def view_list_def)
    from views_ok_call [OF this mc] have s1: "views_ok K i s1" .
    from step.prems(2) True mc
    have out: "after_mincore K f (v_addr v) page stop off ?chunk (r, s1) = (b, s')"
      by (simp add: resident_loop_step [of K f] Let_def)
    from step.IH [OF chunk(1) _ _ chunk(2)] True s1
    have rec: "resident_loop K f (v_addr v) page stop (off + ?chunk) s1 = (b, s') \<Longrightarrow> views_ok K i s'" for b by blast
    show ?thesis
    proof (cases r)
      case None
      with out s1 show ?thesis by simp
    next
      case (Some flags)
      with out rec s1 show ?thesis by (auto split: option.splits prod.splits intro: views_ok_call)
    qed
  qed
qed

lemma views_ok_resident:
  assumes "views_ok K i s" and "page_size K dvd 2 ^ 20" and "resident K pos len i s = (b, i', s')"
  shows "views_ok K i' s'"
proof (cases "checked_add pos (of_nat len)")
  case None
  with assms show ?thesis by (simp add: resident_def)
next
  case (Some stop)
  let ?page = "page_size K" and ?stop = "div_ceil (unat stop) (page_size K) * page_size K"
  obtain b1 i1 s1 where ev: "ensure_view K stop i s = (b1, i1, s1)" by (cases "ensure_view K stop i s")
  note ok = views_ok_ensure [OF assms(1,2) ev]
  show ?thesis
  proof (cases "b1 \<and> di_view i1 \<noteq> None")
    case False
    with assms(3) Some ev ok show ?thesis by (auto simp: resident_def split: bool.splits)
  next
    case True
    then obtain v where v: "di_view i1 = Some v" by auto
    with assms(3) Some ev True have i': "i' = i1"
      and loop: "resident_loop K (di_fd i1) (v_addr v) ?page ?stop (unat pos div ?page * ?page) s1 = (b, s')"
      by (auto simp: resident_def Let_def split: prod.splits)
    have page: "0 < ?page" by (simp add: page_size_def)
    from ok v have "?page dvd v_len v" by (simp add: views_ok_def)
    then obtain k where k: "v_len v = k * ?page" by (metis dvd_div_mult_self)
    from ok True v have "unat stop \<le> v_len v" by (simp add: view_covers_def)
    with k div_ceil_mult_less [OF page, of "unat stop"] have "?stop < Suc k * ?page" by simp
    with page have "?stop \<le> v_len v" by (simp only: mult_less_cancel2 k mult_le_cancel2) simp
    from views_ok_resident_loop [OF v this _ loop] ok i' show ?thesis by simp
  qed
qed

lemma fill_loop_log: "fill_loop rd pos base len filled s = Some (r, s') \<Longrightarrow> proc_log s' = proc_log s"
  using fill_loop_correct [of rd pos base len filled s r s' "[]" "\<lambda>_. True"] by simp

text \<open>The page size has to divide the headroom, as every page size up to a megabyte does.\<close>

definition darwin_inv :: "'k page_kernel \<Rightarrow> darwin_inner \<Rightarrow> 'k proc \<Rightarrow> bool" where
  "darwin_inv K i s \<longleftrightarrow> page_size K dvd 2 ^ 20 \<and> views_ok K i s"

interpretation views: fast_keeps "darwin_ops K" "darwin_inv K"
proof (unfold_locales, goal_cases)
  case (1 i s pos base len r i' s')
  obtain b i1 s1 where res: "resident K pos len i s = (b, i1, s1)" by (cases "resident K pos len i s")
  with 1(1) have ok: "darwin_inv K i1 s1" by (auto simp: darwin_inv_def dest: views_ok_resident)
  show ?case
  proof (cases b)
    case False
    with ok res 1(2) show ?thesis by (simp add: darwin_ops_def darwin_fill_def)
  next
    case True
    with res 1(2) have "i' = i1"
      and "fill_loop (sys_pread (base_calls K) (di_fd i1)) pos base len 0 s1 = Some (r, s')"
      by (auto simp: darwin_ops_def darwin_fill_def)
    with ok fill_loop_log [OF this(2)] show ?thesis by (simp add: darwin_inv_def views_ok_log [of s' s1])
  qed
next
  case (2 i s sz s')
  then show ?case by (auto simp: darwin_ops_def darwin_size_def darwin_inv_def intro: views_ok_call)
next
  case (3 i s n b s')
  then show ?case
    by (auto simp: darwin_ops_def darwin_at_eof_def darwin_inv_def intro: views_ok_call split: prod.splits)
next
  case (4 i s b i' s')
  then show ?case using views_ok_ensure [of K i s 0 b i' s']
    by (auto simp: darwin_ops_def darwin_supported_def darwin_inv_def split: if_splits)
qed

section \<open>What \<open>resident\<close> decides\<close>

text \<open>
  A kernel in whose states \<open>P\<close> the pages \<open>cold\<close> of the mapping at \<open>a\<close> are not in memory
  and the file has \<open>sz\<close> bytes.
\<close>

definition residency ::
  "'k page_kernel \<Rightarrow> fd \<Rightarrow> addr \<Rightarrow> nat \<Rightarrow> (nat \<Rightarrow> bool) \<Rightarrow> u64 \<Rightarrow> ('k \<Rightarrow> bool) \<Rightarrow> bool" where
  "residency K f a page cold sz P \<longleftrightarrow>
     (\<forall>w m n. P w \<longrightarrow> (\<exists>flags w'. sys_mincore K (a + m * page) (n * page) w = (Some flags, w') \<and> P w' \<and>
        n \<le> length flags \<and> (\<forall>k < n. (flags ! k AND MINCORE_INCORE = 0) = cold (m + k)))) \<and>
     (\<forall>w. P w \<longrightarrow> (\<exists>w'. regular_file_size (base_calls K) f w = (Some sz, w') \<and> P w'))"

lemma residency_mincore:
  assumes "residency K f a page cold sz P" and "P (proc_world s)"
  obtains flags s1 where "call (sys_mincore K (a + m * page) (n * page)) s = (Some flags, s1)"
    and "P (proc_world s1)" and "n \<le> length flags"
    and "\<And>k. k < n \<Longrightarrow> (flags ! k AND MINCORE_INCORE = 0) = cold (m + k)"
proof -
  from assms obtain flags w' where mc: "sys_mincore K (a + m * page) (n * page) (proc_world s) = (Some flags, w')"
      "P w'" "n \<le> length flags" "\<forall>k < n. (flags ! k AND MINCORE_INCORE = 0) = cold (m + k)"
    unfolding residency_def by blast
  then show ?thesis by (intro that [of flags "s\<lparr>proc_world := w'\<rparr>"]) (simp_all add: call_def)
qed

lemma residency_size:
  assumes "residency K f a page cold sz P" and "P (proc_world s)"
  obtains s1 where "call (regular_file_size (base_calls K) f) s = (Some sz, s1)" and "P (proc_world s1)"
proof -
  from assms obtain w' where size: "regular_file_size (base_calls K) f (proc_world s) = (Some sz, w')" "P w'"
    unfolding residency_def by blast
  then show ?thesis by (intro that [of "s\<lparr>proc_world := w'\<rparr>"]) (simp_all add: call_def)
qed

definition pages_warm :: "(nat \<Rightarrow> bool) \<Rightarrow> nat \<Rightarrow> nat \<Rightarrow> nat \<Rightarrow> nat \<Rightarrow> bool" where
  "pages_warm cold page sz m n \<longleftrightarrow> (\<forall>p. m \<le> p \<and> p < n \<and> p * page < sz \<longrightarrow> \<not> cold p)"

lemma resident_loop_decides:
  assumes "residency K f a page cold sz P" and "0 < page"
  shows "P (proc_world s) \<Longrightarrow> fst (resident_loop K f a page (n * page) (m * page) s) = pages_warm cold page (unat sz) m n"
proof (induction "n - m" arbitrary: m s rule: less_induct)
  case less
  show ?case
  proof (cases "m < n")
    case False
    then have "\<not> m * page < n * page" by simp
    with False show ?thesis by (auto simp: resident_loop_step [of K f] pages_warm_def)
  next
    case True
    let ?c = "min (n - m) FLAGS_PER_CALL"
    have c: "0 < ?c" "m + ?c \<le> n" using True by (auto simp: FLAGS_PER_CALL_def)
    have chunk: "min (n * page - m * page) (FLAGS_PER_CALL * page) = ?c * page"
      by (simp add: nat_mult_min_left diff_mult_distrib)
    let ?s = "proc_emit (Pe_mincore (a + m * page) (?c * page)) s"
    from less.prems have "P (proc_world ?s)" by (simp add: proc_emit_def)
    from residency_mincore [OF assms(1) this, of m ?c] obtain flags s1
      where mc: "call (sys_mincore K (a + m * page) (?c * page)) ?s = (Some flags, s1)"
        and s1: "P (proc_world s1)" and len: "?c \<le> length flags"
        and flag: "\<And>k. k < ?c \<Longrightarrow> (flags ! k AND MINCORE_INCORE = 0) = cold (m + k)" by blast
    let ?cold = "\<lambda>x. x AND MINCORE_INCORE = 0" and ?flags = "take ?c flags"
    have loop: "resident_loop K f a page (n * page) (m * page) s =
        after_mincore K f a page (n * page) (m * page) (?c * page) (Some flags, s1)"
      using True assms(2) mc by (simp add: resident_loop_step [of K f] Let_def chunk)
    have div: "?c * page div page = ?c" using assms(2) by simp
    show ?thesis
    proof (cases "position ?cold ?flags")
      case None
      then have all: "\<And>k. k < ?c \<Longrightarrow> \<not> cold (m + k)"
        using flag len unfolding position_None_iff all_set_conv_all_nth by simp
      have warm: "\<not> cold p" if "m \<le> p" "p < m + ?c" for p
      proof -
        from that have "p - m < ?c" by linarith
        from all [OF this] that(1) show ?thesis by simp
      qed
      have "pages_warm cold page (unat sz) m n = pages_warm cold page (unat sz) (m + ?c) n"
        unfolding pages_warm_def using warm by (metis le_trans le_add1 not_le)
      moreover have "fst (resident_loop K f a page (n * page) ((m + ?c) * page) s1) =
          pages_warm cold page (unat sz) (m + ?c) n"
        by (rule less.hyps) (use c s1 in auto)
      ultimately show ?thesis using None div loop by (simp add: add_mult_distrib)
    next
      case (Some k)
      from position_SomeD [OF Some] have k: "k < ?c" by simp
      from position_SomeD [OF Some] have "?cold (flags ! k)" unfolding nth_take [OF k] by blast
      with flag [OF k] have hot: "cold (m + k)" by blast
      have before: "\<not> cold (m + j)" if "j < k" for j
      proof -
        from that k have j: "j < ?c" by (rule order.strict_trans)
        from position_Some_first [OF Some that] have "\<not> ?cold (flags ! j)" unfolding nth_take [OF j] .
        with flag [OF j] show ?thesis by blast
      qed
      have "pages_warm cold page (unat sz) m n \<longleftrightarrow> unat sz \<le> (m + k) * page"
      proof
        assume "pages_warm cold page (unat sz) m n"
        moreover have "m \<le> m + k \<and> m + k < n" using k c by linarith
        ultimately show "unat sz \<le> (m + k) * page" using hot unfolding pages_warm_def by (meson not_le)
      next
        assume past: "unat sz \<le> (m + k) * page"
        have "p < m + k" if "p * page < unat sz" for p
          using that past by (metis le_less_trans mult_less_cancel2 not_le order.strict_trans2)
        with before show "pages_warm cold page (unat sz) m n"
          unfolding pages_warm_def by (metis add_less_cancel_left le_add_diff_inverse)
      qed
      moreover obtain s2 where "call (regular_file_size (base_calls K) f) s1 = (Some sz, s2)"
        using residency_size [OF assms(1) s1] by blast
      ultimately show ?thesis using Some div loop by (simp add: add_mult_distrib)
    qed
  qed
qed

section \<open>Loops that return\<close>

text \<open>
  \<open>EINTR\<close> is the one answer after which the loops ask again with nothing changed; a kernel
  that does not interrupt for ever has a count \<open>m\<close> of interruptions still to come.
\<close>

definition interrupts_end ::
  "(nat \<Rightarrow> u64 \<Rightarrow> 'k \<Rightarrow> (errno + nat \<times> byte list) \<times> 'k) \<Rightarrow> ('k \<Rightarrow> nat) \<Rightarrow> bool" where
  "interrupts_end rd m \<longleftrightarrow> (\<forall>n off w w'. rd n off w = (Inl EINTR, w') \<longrightarrow> m w' < m w)"

lemma fill_loop_returns:
  assumes "interrupts_end rd m"
  shows "\<exists>out. fill_loop rd pos base len filled s = Some out"
proof (induction "(len - filled, m (proc_world s))" arbitrary: filled s
    rule: wf_induct_rule [OF wf_lex_prod [OF wf_less wf_less]])
  case (1 filled s)
  show ?case
  proof (cases "filled < len \<and> kernel_offset pos filled \<noteq> None")
    case False
    then show ?thesis by (subst fill_loop.simps) (auto split: option.splits)
  next
    case True
    then obtain off where off: "kernel_offset pos filled = Some off" and less: "filled < len" by auto
    obtain res s1 where rd: "call (rd (len - filled) off) s = (res, s1)"
      by (cases "call (rd (len - filled) off) s")
    note fields = call_fields [OF rd]
    show ?thesis
    proof (cases res)
      case (Inl e)
      have "\<exists>out. fill_loop rd pos base len filled s1 = Some out" if "e = EINTR"
      proof (rule "1")
        have "rd (len - filled) off (proc_world s) = (Inl EINTR, proc_world s1)"
          using fields Inl that by (simp add: prod_eq_iff)
        with assms show "((len - filled, m (proc_world s1)), len - filled, m (proc_world s))
            \<in> {(x, y). x < y} <*lex*> {(x, y). x < y}" by (auto simp: interrupts_end_def)
      qed
      with off less rd Inl show ?thesis by (subst fill_loop.simps) auto
    next
      case (Inr x)
      obtain n bs where x: "x = (n, bs)" by (cases x)
      have "\<exists>out. fill_loop rd pos base len (filled + n) (put_bytes (base + filled) bs s1) = Some out" if "0 < n"
        by (rule "1") (use that less in auto)
      with off less rd Inr x show ?thesis by (subst fill_loop.simps) (auto simp: Let_def)
    qed
  qed
qed

section \<open>Linux logs nothing, and reads whole files as it reads open ones\<close>

lemma call_log: "call f s = (r, s') \<Longrightarrow> proc_log s' = proc_log s"
  by (drule call_fields) simp

lemma probe_loop_log:
  assumes "probe_loop K f s = Some (b, s')"
  shows "proc_log s' = proc_log s"
proof -
  let ?P = "\<lambda>K f s out. proc_log (snd out) = proc_log s"
  have "?P K f s (b, s')"
  proof (rule probe_loop.raw_induct [where P = ?P, OF _ assms], goal_cases)
    case (1 loop K f s out)
    obtain r s1 where rd: "call (nowait K f 1 0) s = (r, s1)" by (cases "call (nowait K f 1 0) s")
    from 1 rd call_log [OF rd] show ?case by (cases r) (auto split: if_splits)
  qed
  then show ?thesis by simp
qed

interpretation linux_quiet: fast_keeps "linux_ops K" "\<lambda>i s. proc_log s = l"
proof (unfold_locales, goal_cases)
  case (1 i s pos base len r i' s')
  then show ?case by (auto simp: linux_ops_def linux_fill_def dest: fill_loop_log split: if_splits)
next
  case (2 i s sz s')
  then show ?case by (auto simp: linux_ops_def linux_size_def dest: call_log)
next
  case (3 i s n b s')
  then show ?case
    by (auto simp: linux_ops_def linux_at_eof_def dest: call_log split: option.splits prod.splits sum.splits)
next
  case (4 i s b i' s')
  then show ?case by (auto simp: linux_ops_def linux_supported_def dest: probe_loop_log split: if_splits)
qed

lemma read_file_is_read_all:
  "read_file_opened K base i s = map_option (\<lambda>(r, i, s). (r, s)) (fast_read_all (linux_ops K) 0 base i s)"
proof -
  obtain sz s1 where size: "linux_size K i s = (sz, s1)" by (cases "linux_size K i s")
  show ?thesis
  proof (cases sz)
    case None
    with size show ?thesis by (simp add: read_file_opened_def fast_read_all_def linux_ops_def)
  next
    case (Some n)
    with size have fd: "\<not> li_fd i < 0" by (auto simp: linux_size_def call_def regular_file_size_def split: prod.splits)
    have "linux_fill K 0 base 0 i s1 = Some (Some 0, i, s1)"
      using fd by (simp add: linux_fill_def fill_loop.simps [of _ _ _ 0])
    then have fill: "(if 0 < unat n then linux_fill K 0 base (unat n) i s1 else Some (Some (unat n), i, s1)) =
        linux_fill K 0 base (unat n) i s1" by simp
    have sub: "saturating_sub n 0 = n" by (simp add: saturating_sub_def)
    have all: "fast_read_all (linux_ops K) 0 base i s = (case linux_fill K 0 base (unat n) i s1 of
        None \<Rightarrow> None
      | Some (filled, i2, s2) \<Rightarrow> (if filled \<noteq> Some (unat n) then Some (None, i2, s2)
          else case linux_at_eof K n i2 s2 of (False, s3) \<Rightarrow> Some (None, i2, s3)
            | (True, s3) \<Rightarrow> Some (Some (get_bytes base (unat n) s3), i2, s3)))"
      by (simp only: fast_read_all_def linux_ops_def inner.simps size Some prod.case option.case Let_def sub fill)
    have opened: "read_file_opened K base i s = (case linux_fill K 0 base (unat n) i s1 of
        None \<Rightarrow> None
      | Some (filled, i2, s2) \<Rightarrow> (if filled \<noteq> Some (unat n) then Some (None, s2)
          else case linux_at_eof K n i2 s2 of (False, s3) \<Rightarrow> Some (None, s3)
            | (True, s3) \<Rightarrow> Some (Some (get_bytes base (unat n) s3), s3)))"
      by (simp only: read_file_opened_def size Some prod.case option.case Let_def)
    show ?thesis
    proof (cases "linux_fill K 0 base (unat n) i s1")
      case None
      then show ?thesis by (simp only: all opened option.case option.map)
    next
      case (Some out)
      obtain filled i2 s2 where out: "out = (filled, i2, s2)" by (cases out)
      obtain b s3 where eof: "linux_at_eof K n i2 s2 = (b, s3)" by (cases "linux_at_eof K n i2 s2")
      show ?thesis
        by (cases "filled = Some (unat n)"; cases b)
          (simp_all add: all opened Some out eof del: not_None_eq)
    qed
  qed
qed

lemma read_file_log: "read_file_opened K base i s = Some (r, s') \<Longrightarrow> proc_log s' = proc_log s"
  by (auto simp: read_file_is_read_all dest: linux_quiet.read_all_keeps [OF refl])

lemma try_read_file_cases:
  assumes "try_read_file K path base s = Some (r, s')"
  obtains (declined) "r = None" and "proc_log s' = proc_log s"
    | (opened) f w s2 where "CHR 0x00 \<notin> set path" and "sys_openat2 K path cached_only (proc_world s) = (Inr f, w)"
        and "read_file_opened K base (linux_new f) (s\<lparr>proc_world := w, proc_log := proc_log s @ [Pe_open f]\<rparr>) = Some (r, s2)"
        and "s' = close_owned_fd K f s2"
proof (cases "CHR 0x00 \<in> set path")
  case True
  with assms declined show ?thesis by (simp add: try_read_file_def)
next
  case False
  obtain res w where op: "sys_openat2 K path cached_only (proc_world s) = (res, w)"
    by (cases "sys_openat2 K path cached_only (proc_world s)")
  show ?thesis
  proof (cases res)
    case (Inl e)
    with assms False op have "r = None \<and> s' = s\<lparr>proc_world := w\<rparr>" by (simp add: try_read_file_def call_def)
    with declined show ?thesis by simp
  next
    case (Inr f)
    with assms False op obtain s2 where "s' = close_owned_fd K f s2"
      and "read_file_opened K base (linux_new f) (s\<lparr>proc_world := w, proc_log := proc_log s @ [Pe_open f]\<rparr>) = Some (r, s2)"
      by (auto simp: try_read_file_def call_def proc_emit_def split: option.splits)
    with opened False op Inr show ?thesis by blast
  qed
qed

lemma less_div_ceil_iff: "0 < b \<Longrightarrow> p < div_ceil a b \<longleftrightarrow> p * b < a"
proof -
  assume b: "0 < b"
  then obtain q r where a: "a = q * b + r" "r < b" "div_ceil a b = (if r = 0 then q else Suc q)"
    by (rule div_ceil_cases)
  have "p * b < a \<longleftrightarrow> p < q \<or> p = q \<and> 0 < r"
  proof (cases p q rule: linorder_cases)
    case less
    then have "Suc p * b \<le> q * b" by (intro mult_le_mono1) simp
    with a(1) b less show ?thesis by simp
  next
    case greater
    then have "Suc q * b \<le> p * b" by (intro mult_le_mono1) simp
    with a(1,2) greater show ?thesis by simp
  qed (use a in auto)
  with a(3) show "p < div_ceil a b \<longleftrightarrow> p * b < a" by auto
qed

section \<open>The reads of the fast path return\<close>

text \<open>Whatever the platform, a read is one \<open>fill\<close> between calls that cannot loop.\<close>

lemma reads_return:
  assumes fill: "\<And>base n i t. \<exists>out. in_fill ops pos base n i t = Some out"
  shows "\<exists>out. fast_read ops pos len base i s = Some out"
    and "\<exists>out. fast_readinto ops pos b i s = Some out"
    and "\<exists>out. fast_read_all ops pos base i s = Some out"
proof -
  show "\<exists>out. fast_read ops pos len base i s = Some out"
    using fill [of base len i s] by (auto simp: fast_read_def split: option.split)
  show "\<exists>out. fast_readinto ops pos b i s = Some out"
    using fill [of "buf_ptr b" "buf_len b" i s] by (auto simp: fast_readinto_def)
  show "\<exists>out. fast_read_all ops pos base i s = Some out"
  proof (cases "in_size ops i s")
    case (Pair sz s1)
    show ?thesis
    proof (cases sz)
      case None
      with Pair show ?thesis by (simp add: fast_read_all_def)
    next
      case (Some n)
      with Pair fill [of base "unat (saturating_sub n pos)" i s1] show ?thesis
        by (auto simp: fast_read_all_def Let_def split: prod.split bool.split)
    qed
  qed
qed

lemma linux_fill_returns:
  "interrupts_end (nowait K (li_fd i)) m \<Longrightarrow> \<exists>out. linux_fill K pos base n i t = Some out"
  using fill_loop_returns [of "nowait K (li_fd i)" m pos base n 0 t] by (auto simp: linux_fill_def)

lemma darwin_fill_returns:
  assumes "\<And>f. interrupts_end (sys_pread (base_calls K) f) m"
  shows "\<exists>out. darwin_fill K pos base n i t = Some out"
proof -
  obtain b i1 s1 where res: "resident K pos n i t = (b, i1, s1)" by (cases "resident K pos n i t") auto
  from fill_loop_returns [OF assms [of "di_fd i1"], of pos base n 0 s1] res show ?thesis
    by (auto simp: darwin_fill_def split: bool.split)
qed

lemma probe_loop_returns:
  assumes "interrupts_end (nowait K f) m"
  shows "\<exists>out. probe_loop K f s = Some out"
proof (induction "m (proc_world s)" arbitrary: s rule: less_induct)
  case less
  obtain res s1 where rd: "call (nowait K f 1 0) s = (res, s1)" by (cases "call (nowait K f 1 0) s")
  have "\<exists>out. probe_loop K f s1 = Some out" if "res = Inl EINTR"
  proof (rule less)
    have "nowait K f 1 0 (proc_world s) = (Inl EINTR, proc_world s1)"
      using call_fields [OF rd] that by (simp add: prod_eq_iff)
    with assms show "m (proc_world s1) < m (proc_world s)" unfolding interrupts_end_def by blast
  qed
  with rd show ?case by (subst probe_loop.simps) (auto split: sum.split)
qed

lemma try_read_file_returns:
  assumes "\<And>f. interrupts_end (nowait K f) m"
  shows "\<exists>out. try_read_file K path base s = Some out"
proof -
  have "\<exists>out. in_fill (linux_ops K) 0 base n i t = Some out" for base n i t
    using linux_fill_returns [OF assms] by (simp add: linux_ops_def)
  from reads_return(3) [of "linux_ops K", OF this]
  have "\<exists>out. read_file_opened K base i t = Some out" for i t
    by (simp add: read_file_is_read_all) blast
  then show ?thesis
    by (auto simp: try_read_file_def split: prod.split sum.split option.split) (metis option.distinct(1))
qed

end
