(* ===== verification/Fast_Claims.thy ===== *)
theory Fast_Claims
  imports Fast_Views Aio_Correct
begin

text \<open>The properties of the fast path, and the kernel their instances run on.\<close>

section \<open>A kernel to try it on\<close>

text \<open>
  \<open>disk_kernel\<close> with the page-cache calls: everything is cached but the pages \<open>cold\<close>, and
  files are mapped at 4096, page by page.
\<close>

definition disk_pages :: "nat \<Rightarrow> (nat \<Rightarrow> bool) \<Rightarrow> disk page_kernel" where
  "disk_pages most cold = \<lparr>
     base_calls = disk_kernel most,
     sys_preadv2 = (\<lambda>f n pos flags. sys_pread (disk_kernel most) f n pos),
     sys_openat2 = (\<lambda>path how. sys_open (disk_kernel most) path 0),
     sys_mmap = (\<lambda>n f w. (Some 4096, w)),
     sys_munmap = (\<lambda>a n w. w),
     sys_mincore = (\<lambda>a n w. (Some (map (\<lambda>k. if cold (a div 4096 - 1 + k) then 0 else 1) [0..<n div 4096]), w)),
     sys_pagesize = 4096\<rparr>"

definition disk_proc :: "byte list \<Rightarrow> disk proc" where
  "disk_proc bs = \<lparr>proc_world = \<lparr>content = bs, next_fd = 3, slow = False\<rparr>, proc_mem = (\<lambda>_. 0), proc_log = []\<rparr>"

lemma disk_reads:
  assumes "0 < most" and "length data < 2 ^ 63"
  shows "reads (sys_pread (disk_kernel most) f) data (\<lambda>w. content w = data)"
proof -
  have "chunk_ok data pos n (length (disk_read most n (unat pos) w)) (disk_read most n (unat pos) w)"
    if "content w = data" for pos n w
    using that assms(1) by (auto simp: chunk_ok_def disk_read_def rest_of_def min_def)
  with assms(2) show ?thesis by (simp add: reads_def disk_kernel_def Let_def)
qed

lemma disk_size: "0 \<le> f \<Longrightarrow> length (content w) < 2 ^ 63 \<Longrightarrow>
    regular_file_size (disk_kernel most) f w = (Some (of_nat (length (content w))), w)"
  by (simp add: regular_file_size_def disk_kernel_def S_IFMT_def S_IFREG_def sint_of_small)

lemma disk_size_same: "snd (regular_file_size (disk_kernel most) f w) = w"
  by (simp add: regular_file_size_def disk_kernel_def)

lemma disk_linux_promise:
  assumes "0 < most" and "length data < 2 ^ 63"
  shows "linux_promise (disk_pages most cold) i data (\<lambda>w. content w = data)"
proof -
  have "nowait (disk_pages most cold) (li_fd i) = sys_pread (disk_kernel most) (li_fd i)"
    by (intro ext) (simp add: nowait_def disk_pages_def)
  with disk_reads [OF assms] show ?thesis
    by (simp add: linux_promise_def disk_size_same disk_pages_def)
qed

lemma disk_darwin_promise:
  assumes "0 < most" and "length data < 2 ^ 63" and "0 \<le> di_fd i"
  shows "darwin_promise (disk_pages most cold) i data (\<lambda>w. content w = data)"
  using disk_reads [OF assms(1,2)] assms(2,3)
  by (simp add: darwin_promise_def sizes_def disk_size disk_pages_def)

text \<open>A read of three bytes that are in memory, on Darwin.\<close>

lemma warm_run:
  "\<exists>i' s'. resident (disk_pages 2 (\<lambda>_. False)) 1 3 (darwin_new 3) (disk_proc [5, 6, 7, 8, 9]) = (True, i', s') \<and>
     proc_world s' = proc_world (disk_proc [5, 6, 7, 8, 9]) \<and> di_fd i' = 3"
  by (simp add: resident_def checked_add_def ensure_view_def darwin_new_def view_covers_def
     disk_pages_def call_def disk_size disk_proc_def view_len_def page_size_def HEADROOM_def Let_def
     proc_emit_def drop_view_def resident_loop_step FLAGS_PER_CALL_def div_ceil_def MINCORE_INCORE_def)

lemma kernel_offset_small: "kernel_offset 1 0 = Some 1" "kernel_offset 1 (Suc (Suc 0)) = Some 3"
  by code_simp+

lemma fill_run:
  assumes "proc_world s = proc_world (disk_proc [5, 6, 7, 8, 9])"
  shows "\<exists>s'. fill_loop (sys_pread (disk_kernel 2) 3) 1 100 3 0 s = Some (Some 3, s')"
proof -
  have world: "proc_world (put_bytes p bs t) = proc_world t" for p bs and t :: "disk proc" by (simp add: put_bytes_def)
  have read: "call (sys_pread (disk_kernel 2) 3 n off) t = (Inr (length bs, bs), t)"
    if "proc_world t = proc_world (disk_proc [5, 6, 7, 8, 9])" "bs = disk_read 2 n (unat off) (proc_world t)" for n off t bs
    using that by (simp add: call_def disk_kernel_def Let_def)
  show ?thesis
    using assms
    by (subst fill_loop.simps, simp add: kernel_offset_small read world disk_read_def disk_proc_def Let_def)+
qed
section \<open>The properties\<close>

text \<open>
  C34: On Linux, \<open>FastPath::read\<close> answers with exactly the bytes of the file from the
  position on, as many as were asked for or as there are, however \<open>preadv2\<close> splits the
  transfer; it writes nowhere outside the bytes object it allocated.
\<close>

theorem linux_read_exact:
  assumes "linux_promise K i data P" and "P (proc_world s)" and "len < 2 ^ 64"
    and "fast_read (linux_ops K) pos len base i s = Some (r, i', s')"
  shows "(\<forall>bs. r = Some bs \<longrightarrow> bs = take len (drop (unat pos) data)) \<and>
    (\<forall>a. a < base \<or> base + len \<le> a \<longrightarrow> proc_mem s' a = proc_mem s a)"
  using linux.read_law [OF assms] by (auto simp: untouched_def rest_of_def split: option.splits)

theorem linux_read_exact_witness:
  "\<exists>i' s'. fast_read (linux_ops (disk_pages 2 (\<lambda>_. False))) 1 3 100 (linux_new 3) (disk_proc [5, 6, 7, 8, 9]) =
     Some (Some [6, 7, 8], i', s') \<and> proc_mem s' 103 = 0"
proof -
  let ?s = "disk_proc [5, 6, 7, 8, 9]" and ?ops = "linux_ops (disk_pages 2 (\<lambda>_. False))"
  have "map_option fst (fast_read ?ops 1 3 100 (linux_new 3) ?s) = Some (Some [6, 7, 8])" by code_simp
  then obtain i' s' where run: "fast_read ?ops 1 3 100 (linux_new 3) ?s = Some (Some [6, 7, 8], i', s')" by auto
  have "content (proc_world ?s) = [5, 6, 7, 8, 9]" by (simp add: disk_proc_def)
  from linux_read_exact [OF disk_linux_promise this _ run] have "proc_mem s' 103 = proc_mem ?s 103" by simp
  with run show ?thesis by (auto simp: disk_proc_def)
qed
text \<open>
  C35: On Darwin, \<open>FastPath::readinto\<close> that reports a count has put exactly that many
  bytes of the file, as many as the buffer takes or as there are, at the start of the
  buffer and written nowhere else; it raises for a read-only or a scattered buffer and
  for no other.
\<close>

theorem darwin_readinto_exact:
  assumes "darwin_promise K i data P" and "P (proc_world s)" and "buf_len b < 2 ^ 64"
    and "fast_readinto (darwin_ops K) pos b i s = Some (r, i', s')"
  shows "(\<forall>n. r = Inr (Some n) \<longrightarrow> n = min (buf_len b) (length data - unat pos) \<and>
       (\<forall>k < n. proc_mem s' (buf_ptr b + k) = data ! (unat pos + k))) \<and>
    (\<forall>a. a < buf_ptr b \<or> buf_ptr b + buf_len b \<le> a \<longrightarrow> proc_mem s' a = proc_mem s a) \<and>
    ((\<exists>e. r = Inl e) \<longleftrightarrow> buf_readonly b \<or> \<not> buf_contiguous b)"
proof -
  note law = darwin.readinto_law [OF assms]
  have bytes: "proc_mem s' (buf_ptr b + k) = data ! (unat pos + k)" if "r = Inr (Some n)" "k < n" for n k
  proof -
    from law that have n: "n \<le> length (rest_of data pos)" and "get_bytes (buf_ptr b) n s' = take n (rest_of data pos)" by auto
    then have "get_bytes (buf_ptr b) n s' ! k = rest_of data pos ! k" using that by simp
    with n that show ?thesis by (simp add: get_bytes_def rest_of_def)
  qed
  from law have "\<forall>n. r = Inr (Some n) \<longrightarrow> n = min (buf_len b) (length data - unat pos)"
    by (simp add: rest_of_def)
  moreover from law have "untouched (buf_ptr b) (buf_len b) s s'" by blast
  moreover from law have "(\<exists>e. r = Inl e) \<longleftrightarrow> buf_readonly b \<or> \<not> buf_contiguous b" by blast
  ultimately show ?thesis using bytes unfolding untouched_def by blast
qed

theorem darwin_readinto_exact_witness:
  "\<exists>i' s'. fast_readinto (darwin_ops (disk_pages 2 (\<lambda>_. False))) 1
       \<lparr>buf_readonly = False, buf_contiguous = True, buf_ptr = 100, buf_len = 3\<rparr> (darwin_new 3)
       (disk_proc [5, 6, 7, 8, 9]) = Some (Inr (Some 3), i', s') \<and> proc_mem s' 102 = 8"
proof -
  let ?K = "disk_pages 2 (\<lambda>_. False)" and ?s = "disk_proc [5, 6, 7, 8, 9]"
  let ?b = "\<lparr>buf_readonly = False, buf_contiguous = True, buf_ptr = 100, buf_len = 3\<rparr>"
  obtain i1 s1 where res: "resident ?K 1 3 (darwin_new 3) ?s = (True, i1, s1)"
    and s1: "proc_world s1 = proc_world ?s" and fd: "di_fd i1 = 3" using warm_run by blast
  from fill_run [OF s1] obtain s' where "fill_loop (sys_pread (disk_kernel 2) 3) 1 100 3 0 s1 = Some (Some 3, s')" by blast
  with res fd have run: "fast_readinto (darwin_ops ?K) 1 ?b (darwin_new 3) ?s = Some (Inr (Some 3), i1, s')"
    by (simp add: fast_readinto_def darwin_ops_def darwin_fill_def disk_pages_def)
  have "content (proc_world ?s) = [5, 6, 7, 8, 9]" by (simp add: disk_proc_def)
  from darwin_readinto_exact [OF disk_darwin_promise this _ run] have "\<forall>k < 3. proc_mem s' (100 + k) = [5, 6, 7, 8, 9] ! (1 + k)"
    by (auto simp: darwin_new_def)
  from this [rule_format, of 2] run show ?thesis by auto
qed

text \<open>
  C26: What \<open>FastPath::read_all\<close> returns on Linux is the whole rest of the file, never a
  prefix of it, even where the size \<open>fstat\<close> gave was out of date: the last word is a
  read past the end that finds nothing.
\<close>

theorem linux_read_all_whole:
  assumes "linux_promise K i data P" and "P (proc_world s)"
    and "fast_read_all (linux_ops K) pos base i s = Some (Some bs, i', s')"
  shows "bs = drop (unat pos) data"
  using linux.read_all_law [OF assms] by (simp add: rest_of_def)

theorem linux_read_all_whole_witness:
  "\<exists>i' s'. fast_read_all (linux_ops (disk_pages 2 (\<lambda>_. False))) 1 0 (linux_new 3) (disk_proc [5, 6, 7, 8]) =
     Some (Some (drop 1 [5, 6, 7, 8]), i', s')"
proof -
  let ?s = "disk_proc [5, 6, 7, 8]" and ?ops = "linux_ops (disk_pages 2 (\<lambda>_. False))"
  have "map_option (map_option length \<circ> fst) (fast_read_all ?ops 1 0 (linux_new 3) ?s) = Some (Some 3)" by code_simp
  then obtain bs i' s' where run: "fast_read_all ?ops 1 0 (linux_new 3) ?s = Some (Some bs, i', s')" by auto
  have "content (proc_world ?s) = [5, 6, 7, 8]" by (simp add: disk_proc_def)
  from linux_read_all_whole [OF disk_linux_promise this run] run show ?thesis by auto
qed

text \<open>
  C36: \<open>try_read_file\<close> closes the descriptor it opened, exactly once and last, whether it
  answers or declines; where it opened none it answers nothing.
\<close>

theorem try_read_file_closes:
  assumes "try_read_file K path base s = Some (r, s')"
  shows "r = None \<and> proc_log s' = proc_log s \<or>
    (\<exists>f. fst (sys_openat2 K path cached_only (proc_world s)) = Inr f \<and>
       proc_log s' = proc_log s @ [Pe_open f, Pe_close f])"
proof (cases rule: try_read_file_cases [OF assms])
  case 1
  then show ?thesis by simp
next
  case (2 f w s2)
  from read_file_log [OF 2(3)] 2(2,4) show ?thesis
    by (simp add: close_owned_fd_def call_def proc_emit_def split: prod.splits)
qed

theorem try_read_file_closes_witness:
  "\<exists>r s'. try_read_file (disk_pages 2 (\<lambda>_. False)) ''f'' 0 (disk_proc [5]) = Some (r, s') \<and>
     (r = None \<or> proc_log s' = [Pe_open 3, Pe_close 3])"
proof -
  have "try_read_file (disk_pages 2 (\<lambda>_. False)) ''f'' 0 (disk_proc [5]) \<noteq> None" by code_simp
  then obtain r s' where run: "try_read_file (disk_pages 2 (\<lambda>_. False)) ''f'' 0 (disk_proc [5]) = Some (r, s')"
    by (cases "try_read_file (disk_pages 2 (\<lambda>_. False)) ''f'' 0 (disk_proc [5])") auto
  from try_read_file_closes [OF run] run show ?thesis by (auto simp: disk_pages_def disk_kernel_def disk_proc_def)
qed

text \<open>
  C37: Bytes returned by \<open>try_read_file\<close> are the whole content of the file the cached
  \<open>openat2\<close> opened.
\<close>

theorem try_read_file_whole:
  assumes "sys_openat2 K path cached_only (proc_world s) = (Inr f, w)"
    and "linux_promise K (linux_new f) data P" and "P w"
    and "try_read_file K path base s = Some (Some bs, s')"
  shows "bs = data"
proof (cases rule: try_read_file_cases [OF assms(4)])
  case (2 g w' s2)
  then have "g = f" and w: "w' = w" using assms(1) by simp_all
  with 2(3) obtain i' where "fast_read_all (linux_ops K) 0 base (linux_new f)
      (s\<lparr>proc_world := w, proc_log := proc_log s @ [Pe_open f]\<rparr>) = Some (Some bs, i', s2)"
    by (auto simp: read_file_is_read_all)
  from linux.read_all_law [OF assms(2) _ this] assms(3) show ?thesis by (simp add: rest_of_def)
qed simp

theorem try_read_file_whole_witness:
  "\<exists>s'. try_read_file (disk_pages 2 (\<lambda>_. False)) ''f'' 0 (disk_proc [5, 6, 7]) = Some (Some [5, 6, 7], s')"
proof -
  let ?K = "disk_pages 2 (\<lambda>_. False)" and ?s = "disk_proc [5, 6, 7]"
  have "map_option (map_option length \<circ> fst) (try_read_file ?K ''f'' 0 ?s) = Some (Some 3)" by code_simp
  then obtain bs s' where run: "try_read_file ?K ''f'' 0 ?s = Some (Some bs, s')" by auto
  have op: "sys_openat2 ?K ''f'' cached_only (proc_world ?s) = (Inr 3, \<lparr>content = [5, 6, 7], next_fd = 4, slow = False\<rparr>)"
    by (simp add: disk_pages_def disk_kernel_def disk_proc_def)
  from try_read_file_whole [OF op disk_linux_promise _ run] run show ?thesis by auto
qed

text \<open>
  C20: However the calls of one \<open>FastPath\<close> object follow one another on Darwin, \<open>mincore\<close>
  is asked only about addresses of a mapping that exists, no mapping is unmapped twice,
  and once the object is dropped none is left.
\<close>

theorem mappings_balanced:
  assumes "page_size K dvd 2 ^ 20" and "proc_log s = []"
    and "run_calls (darwin_ops K) cs (darwin_new f) s = Some (i', s')"
  shows "watch_all (proc_log (drop_view K (di_view i') s')) [] = Some []"
proof -
  have "darwin_inv K (darwin_new f) s"
    using assms(1,2) by (simp add: darwin_inv_def views_ok_def darwin_new_def view_list_def)
  from views.calls_keep [OF this assms(3)]
  have "watch_all (proc_log s') [] = Some (view_list (di_view i'))" by (simp add: darwin_inv_def views_ok_def)
  then show ?thesis
    by (auto simp: drop_view_def view_list_def watch_all_append proc_emit_def call_def split: option.splits)
qed

theorem mappings_balanced_witness:
  "\<exists>i' s'. run_calls (darwin_ops (disk_pages 2 (\<lambda>_. False))) [Call_supported, Call_size] (darwin_new 3)
       (disk_proc [5, 6, 7]) = Some (i', s') \<and> di_view i' \<noteq> None \<and>
     watch_all (proc_log (drop_view (disk_pages 2 (\<lambda>_. False)) (di_view i') s')) [] = Some []"
proof -
  let ?K = "disk_pages 2 (\<lambda>_. False)" and ?s = "disk_proc [5, 6, 7]"
  have "\<exists>i' s'. run_calls (darwin_ops ?K) [Call_supported, Call_size] (darwin_new 3) ?s = Some (i', s') \<and>
      di_view i' = Some \<lparr>v_addr = 4096, v_len = 1052672\<rparr>"
    by (simp add: darwin_ops_def darwin_supported_def darwin_size_def ensure_view_def darwin_new_def view_covers_def
        disk_pages_def call_def disk_size disk_proc_def view_len_def page_size_def HEADROOM_def Let_def
        proc_emit_def drop_view_def checked_add_def)
  then obtain i' s' where run: "run_calls (darwin_ops ?K) [Call_supported, Call_size] (darwin_new 3) ?s = Some (i', s')"
    and view: "di_view i' = Some \<lparr>v_addr = 4096, v_len = 1052672\<rparr>" by blast
  have "page_size ?K dvd 2 ^ 20" by (simp add: page_size_def disk_pages_def)
  from mappings_balanced [OF this _ run] run view show ?thesis by (auto simp: disk_proc_def)
qed

text \<open>
  C21: \<open>resident\<close>, scanning flags 256 pages at a time and stopping at the first cold one,
  answers exactly whether no page of the range that starts below the end of the file is
  missing from memory.
\<close>

theorem resident_decides:
  assumes "di_view i = Some v" and "unat pos + len \<le> v_len v" and "unat pos + len < 2 ^ 64"
    and "residency K (di_fd i) (v_addr v) (page_size K) cold sz P" and "P (proc_world s)"
  shows "fst (resident K pos len i s) \<longleftrightarrow>
    (\<forall>p. unat pos div page_size K \<le> p \<and> p * page_size K < unat pos + len \<and> p * page_size K < unat sz \<longrightarrow> \<not> cold p)"
proof -
  let ?page = "page_size K"
  have page: "0 < ?page" by (simp add: page_size_def)
  have len: "unat (of_nat len :: u64) = len" using assms(3) by (simp add: word_simps)
  with assms(3) have add: "checked_add pos (of_nat len) = Some (pos + of_nat len)" by (simp add: checked_add_def)
  from checked_add_SomeD [OF this] len have stop: "unat (pos + of_nat len) = unat pos + len" by simp
  with assms(1,2) have ev: "ensure_view K (pos + of_nat len) i s = (True, i, s)"
    by (simp add: ensure_view_def view_covers_def)
  have "fst (resident K pos len i s) = fst (resident_loop K (di_fd i) (v_addr v) ?page
      (div_ceil (unat pos + len) ?page * ?page) (unat pos div ?page * ?page) s)"
    by (simp add: resident_def add ev assms(1) stop Let_def split: prod.split)
  also have "\<dots> = pages_warm cold ?page (unat sz) (unat pos div ?page) (div_ceil (unat pos + len) ?page)"
    by (rule resident_loop_decides [OF assms(4) page assms(5)])
  finally show ?thesis by (simp add: pages_warm_def less_div_ceil_iff [OF page])
qed

theorem resident_decides_witness:
  "\<not> fst (resident (disk_pages 2 (\<lambda>p. p = 2)) 1 8192 \<lparr>di_fd = 3, di_view = Some \<lparr>v_addr = 4096, v_len = 1052672\<rparr>\<rparr>
      (disk_proc (replicate 9000 0))) \<and>
   fst (resident (disk_pages 2 (\<lambda>p. p = 2)) 1 8192 \<lparr>di_fd = 3, di_view = Some \<lparr>v_addr = 4096, v_len = 1052672\<rparr>\<rparr>
      (disk_proc (replicate 8192 0)))"
proof -
  let ?K = "disk_pages 2 (\<lambda>p. p = 2)" and ?i = "\<lparr>di_fd = 3, di_view = Some \<lparr>v_addr = 4096, v_len = 1052672\<rparr>\<rparr>"
  have page: "page_size ?K = 4096" by (simp add: page_size_def disk_pages_def)
  have res: "residency ?K 3 4096 4096 (\<lambda>p. p = 2) (of_nat n) (\<lambda>w. content w = replicate n 0)" if "n < 2 ^ 63" for n
  proof -
    have "(4096 + m * 4096) div 4096 - 1 = m" for m :: nat by simp
    then have "(4096 + m * 4096) div 4096 - Suc 0 = m" for m :: nat by simp
    then show ?thesis using that
      by (simp add: residency_def disk_pages_def disk_size MINCORE_INCORE_def)
  qed
  have "\<not> fst (resident ?K 1 8192 ?i (disk_proc (replicate 9000 0)))"
    using resident_decides [of ?i "\<lparr>v_addr = 4096, v_len = 1052672\<rparr>" 1 8192 ?K "\<lambda>p. p = 2" "of_nat 9000"
        "\<lambda>w. content w = replicate 9000 0" "disk_proc (replicate 9000 0)"] res [of 9000]
    by (simp add: page disk_proc_def)
  moreover have "fst (resident ?K 1 8192 ?i (disk_proc (replicate 8192 0)))"
    using resident_decides [of ?i "\<lparr>v_addr = 4096, v_len = 1052672\<rparr>" 1 8192 ?K "\<lambda>p. p = 2" "of_nat 8192"
        "\<lambda>w. content w = replicate 8192 0" "disk_proc (replicate 8192 0)"] res [of 8192]
    by (simp add: page disk_proc_def)
  ultimately show ?thesis by simp
qed

text \<open>
  C39: The reads of the fast path return, whatever the kernel answers, as long as it does
  not interrupt for ever.  On Linux these are \<open>read\<close>, \<open>readinto\<close>, \<open>read_all\<close>, the probe of
  \<open>supported\<close> and \<open>try_read_file\<close>, for a \<open>preadv2\<close> whose interruptions end; on Darwin
  \<open>read\<close>, \<open>readinto\<close> and \<open>read_all\<close>, for such a \<open>pread\<close> (the scan of \<open>resident\<close> is total).
  Every answer but an interruption ends the loop or fills the buffer further.
\<close>

theorem fast_reads_return:
  "((\<forall>f. interrupts_end (nowait K f) m) \<longrightarrow>
      (\<exists>out. fast_read (linux_ops K) pos len base i s = Some out) \<and>
      (\<exists>out. fast_readinto (linux_ops K) pos b i s = Some out) \<and>
      (\<exists>out. fast_read_all (linux_ops K) pos base i s = Some out) \<and>
      (\<exists>out. linux_supported K i s = Some out) \<and>
      (\<exists>out. try_read_file K path base s = Some out)) \<and>
   ((\<forall>f. interrupts_end (sys_pread (base_calls K) f) m) \<longrightarrow>
      (\<exists>out. fast_read (darwin_ops K) pos len base j s = Some out) \<and>
      (\<exists>out. fast_readinto (darwin_ops K) pos b j s = Some out) \<and>
      (\<exists>out. fast_read_all (darwin_ops K) pos base j s = Some out))"
proof (intro conjI impI)
  assume ends: "\<forall>f. interrupts_end (nowait K f) m"
  have fill: "\<exists>out. in_fill (linux_ops K) pos base n i t = Some out" for base n i t
    using linux_fill_returns [OF ends [THEN spec]] by (simp add: linux_ops_def)
  show "\<exists>out. fast_read (linux_ops K) pos len base i s = Some out"
    and "\<exists>out. fast_readinto (linux_ops K) pos b i s = Some out"
    and "\<exists>out. fast_read_all (linux_ops K) pos base i s = Some out"
    by (rule reads_return, rule fill)+
  show "\<exists>out. linux_supported K i s = Some out"
    using probe_loop_returns [of K "li_fd i" m s] ends by (auto simp: linux_supported_def)
  show "\<exists>out. try_read_file K path base s = Some out"
    using ends by (blast intro: try_read_file_returns)
next
  assume ends: "\<forall>f. interrupts_end (sys_pread (base_calls K) f) m"
  have fill: "\<exists>out. in_fill (darwin_ops K) pos base n j t = Some out" for base n j t
    using darwin_fill_returns [OF ends [THEN spec]] by (simp add: darwin_ops_def)
  show "\<exists>out. fast_read (darwin_ops K) pos len base j s = Some out"
    and "\<exists>out. fast_readinto (darwin_ops K) pos b j s = Some out"
    and "\<exists>out. fast_read_all (darwin_ops K) pos base j s = Some out"
    by (rule reads_return, rule fill)+
qed

theorem fast_reads_return_witness:
  "(\<exists>out. try_read_file (disk_pages 2 (\<lambda>_. False)) ''a'' 100 (disk_proc [5, 6]) = Some out) \<and>
   (\<exists>out. fast_read (darwin_ops (disk_pages 2 (\<lambda>_. False))) 1 3 100 (darwin_new 3) (disk_proc [5, 6]) = Some out)"
proof -
  let ?K = "disk_pages 2 (\<lambda>_. False)"
  have "\<forall>f. interrupts_end (nowait ?K f) (\<lambda>_. 0)"
    and "\<forall>f. interrupts_end (sys_pread (base_calls ?K) f) (\<lambda>_. 0)"
    by (simp_all add: interrupts_end_def nowait_def disk_pages_def disk_kernel_def Let_def)
  with fast_reads_return [of ?K "\<lambda>_. 0"] show ?thesis by blast
qed

end
