(* ===== verification/Compio.thy ===== *)
theory Compio
  imports Core
begin

text \<open>
  The compio backend (\<open>crates/turbofile-core/src/compio_backend.rs\<close>).  One thread runs the
  message loop and a task per op; tasks switch only where they await compio.  A task is
  the await it stands at with the variables it still needs (\<open>task\<close>), \<open>start_task\<close> runs it
  to its first await and \<open>resume_task\<close> from one await to the next.  compio itself answers
  the awaits; it is not modelled, its answers are arbitrary values of the right type.
\<close>

section \<open>Buffers and awaits\<close>

text \<open>A vector with its capacity, or \<open>RawBufMut\<close>: address, capacity and initialised length.\<close>

datatype cbuf =
    Vec_buf "byte list" nat
  | Raw_buf addr nat nat

fun buf_len :: "cbuf \<Rightarrow> nat" where
  "buf_len (Vec_buf bs cap) = length bs"
| "buf_len (Raw_buf p cap n) = n"

text \<open>\<open>RawBufMut::set_len\<close>\<close>

fun raw_set_len :: "nat \<Rightarrow> cbuf \<Rightarrow> cbuf" where
  "raw_set_len n (Raw_buf p cap m) = Raw_buf p cap (min n cap)"
| "raw_set_len n b = b"

record open_options =
  oo_read :: bool
  oo_write :: bool
  oo_truncate :: bool
  oo_create :: bool
  oo_create_new :: bool
  oo_append_flag :: bool

text \<open>\<open>open_options\<close> on Unix: appending is writing with \<open>O_APPEND\<close> among the custom flags.\<close>

definition options_of :: "open_spec \<Rightarrow> open_options" where
  "options_of spec = \<lparr>oo_read = sp_read spec, oo_write = sp_write spec \<or> sp_append spec,
     oo_truncate = sp_truncate spec, oo_create = sp_create spec, oo_create_new = sp_create_new spec,
     oo_append_flag = sp_append spec\<rparr>"

definition read_options :: open_options where
  "read_options = \<lparr>oo_read = True, oo_write = False, oo_truncate = False, oo_create = False,
     oo_create_new = False, oo_append_flag = False\<rparr>"

definition write_file_options :: open_options where
  "write_file_options = \<lparr>oo_read = False, oo_write = True, oo_truncate = True, oo_create = True,
     oo_create_new = False, oo_append_flag = False\<rparr>"

datatype request =
    Rq_open path open_options
  | Rq_metadata fd
  | Rq_read_at fd cbuf u64
  | Rq_read_to_end fd nat u64
  | Rq_write_all fd payload u64
  | Rq_append fd payload
  | Rq_sync fd bool
  | Rq_set_len fd u64
  | Rq_close fd

datatype answer =
    An_file "fd io"
  | An_len "u64 io"
  | An_read "nat io" cbuf
  | An_bytes "unit io" "byte list"
  | An_unit "unit io"

section \<open>Tasks\<close>

datatype task =
    T_start op "nat option"
  | T_opening "nat option"
  | T_open_meta "nat option" fd
  | T_reading fd u64 nat
  | T_end_meta fd u64
  | T_end_read
  | T_append fd nat
  | T_append_meta nat
  | T_write nat u64
  | T_unit
  | T_size
  | T_file_open u64 "nat option"
  | T_file_meta fd u64 "nat option"
  | T_file_read fd
  | T_put_open payload
  | T_put_write fd nat
  | T_close reply

datatype outcome =
    Settled "reply io"
  | Awaits request task

type_synonym files = "nat \<Rightarrow> fd option"

fun on_answer :: "'a io \<Rightarrow> ('a \<Rightarrow> outcome \<times> files) \<Rightarrow> files \<Rightarrow> outcome \<times> files" where
  "on_answer (Inl e) k fs = (Settled (Inl e), fs)"
| "on_answer (Inr x) k fs = k x"

definition lookup :: "files \<Rightarrow> nat \<Rightarrow> fd io" where
  "lookup fs handle = (case fs handle of None \<Rightarrow> Inl bad_handle | Some f \<Rightarrow> Inr f)"

text \<open>The reply \<open>execute\<close> makes of \<open>read_up_to\<close>'s buffer: bytes, or a count.\<close>

fun buf_reply :: "cbuf \<Rightarrow> reply" where
  "buf_reply (Vec_buf bs cap) = Reply_Bytes bs"
| "buf_reply (Raw_buf p cap n) = Reply_Read n"

text \<open>The head of the loop of \<open>read_up_to\<close>, and the rest of its body after the read.\<close>

definition read_more :: "fd \<Rightarrow> u64 \<Rightarrow> nat \<Rightarrow> cbuf \<Rightarrow> bool \<Rightarrow> outcome" where
  "read_more f pos len buf cancelled =
     (if cancelled then Settled (Inl cancelled_error)
      else if len \<le> buf_len buf then Settled (Inr (buf_reply buf))
      else Awaits (Rq_read_at f buf (pos + of_nat (buf_len buf))) (T_reading f pos len))"

definition read_done :: "fd \<Rightarrow> u64 \<Rightarrow> nat \<Rightarrow> nat io \<Rightarrow> cbuf \<Rightarrow> bool \<Rightarrow> outcome" where
  "read_done f pos len res buf cancelled = (case res of
       Inl e \<Rightarrow> Settled (Inl e)
     | Inr n \<Rightarrow> if n = 0 then Settled (Inr (buf_reply buf)) else read_more f pos len buf cancelled)"

definition dest_buf :: "dest \<Rightarrow> nat \<times> cbuf" where
  "dest_buf d = (case d of Dest_Alloc len \<Rightarrow> (len, Vec_buf [] len) | Dest_Into p len \<Rightarrow> (len, Raw_buf p len 0))"

text \<open>
  \<open>execute\<close> up to the first await.
\<close>

fun start_op :: "op \<Rightarrow> nat option \<Rightarrow> bool \<Rightarrow> files \<Rightarrow> outcome \<times> files" where
  "start_op (Op_Open path spec) oid c fs =
     (Awaits (Rq_open path (options_of spec)) (T_opening oid), fs)"
| "start_op (Op_ReadAt handle pos dst) oid c fs = on_answer (lookup fs handle)
     (\<lambda>f. case dest_buf dst of (len, buf) \<Rightarrow> (read_more f pos len buf c, fs)) fs"
| "start_op (Op_ReadToEnd handle pos) oid c fs = on_answer (lookup fs handle)
     (\<lambda>f. (Awaits (Rq_metadata f) (T_end_meta f pos), fs)) fs"
| "start_op (Op_WriteAt handle pos data app) oid c fs = on_answer (lookup fs handle)
     (\<lambda>f. (if app then Awaits (Rq_append f data) (T_append f (payload_len data))
           else Awaits (Rq_write_all f data pos) (T_write (payload_len data) (pos + of_nat (payload_len data))), fs)) fs"
| "start_op (Op_Close handle) oid c fs = on_answer (lookup fs handle)
     (\<lambda>f. (Awaits (Rq_close f) (T_close Reply_Unit), fs(handle := None))) fs"
| "start_op (Op_Sync handle data_only) oid c fs = on_answer (lookup fs handle)
     (\<lambda>f. (Awaits (Rq_sync f data_only) T_unit, fs)) fs"
| "start_op (Op_SetLen handle sz) oid c fs = on_answer (lookup fs handle)
     (\<lambda>f. (Awaits (Rq_set_len f sz) T_unit, fs)) fs"
| "start_op (Op_Size handle) oid c fs = on_answer (lookup fs handle)
     (\<lambda>f. (Awaits (Rq_metadata f) T_size, fs)) fs"
| "start_op (Op_ReadFile path inline_max) oid c fs =
     (Awaits (Rq_open path read_options) (T_file_open inline_max oid), fs)"
| "start_op (Op_WriteFile path data) oid c fs = (Awaits (Rq_open path write_file_options) (T_put_open data), fs)"
| "start_op Op_Nop oid c fs = (Settled (Inr Reply_Unit), fs)"

definition start_task :: "op \<Rightarrow> nat option \<Rightarrow> bool \<Rightarrow> files \<Rightarrow> outcome \<times> files" where
  "start_task oper oid cancelled fs =
     (if cancelled then (Settled (Inl cancelled_error), fs) else start_op oper oid cancelled fs)"

text \<open>
  From one await to the next.  \<^const>\<open>None\<close>: the answer is not of the type the await has, or
  the \<open>expect\<close> on a missing \<open>open_id\<close> panics (the message loop never leaves it out).
\<close>

fun resume_task :: "task \<Rightarrow> answer \<Rightarrow> bool \<Rightarrow> files \<Rightarrow> (outcome \<times> files) option" where
  "resume_task (T_opening oid) (An_file r) c fs = Some (on_answer r (\<lambda>f. (Awaits (Rq_metadata f) (T_open_meta oid f), fs)) fs)"
| "resume_task (T_open_meta oid f) (An_len r) c fs = (case r of
       Inl e \<Rightarrow> Some (Settled (Inl e), fs)
     | Inr sz \<Rightarrow> map_option (\<lambda>i. (Settled (Inr (Reply_Handle i sz f)), fs(i \<mapsto> f))) oid)"
| "resume_task (T_reading f pos len) (An_read res buf) c fs = Some (read_done f pos len res buf c, fs)"
| "resume_task (T_end_meta f pos) (An_len r) c fs =
     Some (on_answer r (\<lambda>sz. (Awaits (Rq_read_to_end f (unat (saturating_sub sz pos) + 1) pos) T_end_read, fs)) fs)"
| "resume_task T_end_read (An_bytes r bs) c fs = Some (on_answer r (\<lambda>_. (Settled (Inr (Reply_Bytes bs)), fs)) fs)"
| "resume_task (T_append f n) (An_unit r) c fs = Some (on_answer r (\<lambda>_. (Awaits (Rq_metadata f) (T_append_meta n), fs)) fs)"
| "resume_task (T_append_meta n) (An_len r) c fs = Some (on_answer r (\<lambda>sz. (Settled (Inr (Reply_Written n sz)), fs)) fs)"
| "resume_task (T_write n e) (An_unit r) c fs = Some (on_answer r (\<lambda>_. (Settled (Inr (Reply_Written n e)), fs)) fs)"
| "resume_task T_unit (An_unit r) c fs = Some (on_answer r (\<lambda>_. (Settled (Inr Reply_Unit), fs)) fs)"
| "resume_task T_size (An_len r) c fs = Some (on_answer r (\<lambda>sz. (Settled (Inr (Reply_Size sz)), fs)) fs)"
| "resume_task (T_file_open inline_max oid) (An_file r) c fs =
     Some (on_answer r (\<lambda>f. (Awaits (Rq_metadata f) (T_file_meta f inline_max oid), fs)) fs)"
| "resume_task (T_file_meta f inline_max oid) (An_len r) c fs = (case r of
       Inl e \<Rightarrow> Some (Settled (Inl e), fs)
     | Inr sz \<Rightarrow>
         (if inline_max < sz then map_option (\<lambda>i. (Settled (Inr (Reply_Handle i sz f)), fs(i \<mapsto> f))) oid
          else Some (Awaits (Rq_read_to_end f (unat sz + 1) 0) (T_file_read f), fs)))"
| "resume_task (T_file_read f) (An_bytes r bs) c fs =
     Some (on_answer r (\<lambda>_. (Awaits (Rq_close f) (T_close (Reply_Bytes bs)), fs)) fs)"
| "resume_task (T_put_open data) (An_file r) c fs =
     Some (on_answer r (\<lambda>f. (Awaits (Rq_write_all f data 0) (T_put_write f (payload_len data)), fs)) fs)"
| "resume_task (T_put_write f n) (An_unit r) c fs =
     Some (on_answer r (\<lambda>_. (Awaits (Rq_close f) (T_close (Reply_Written n (of_nat n))), fs)) fs)"
| "resume_task (T_close rep) (An_unit r) c fs = Some (on_answer r (\<lambda>_. (Settled (Inr rep), fs)) fs)"
| "resume_task _ _ c fs = None"

text \<open>
  The blocking half of \<open>append_all\<close>, over \<open>write\<close>; \<^const>\<open>None\<close> is a loop that does not end.
  An \<open>EINTR\<close> is an error like any other here.
\<close>

partial_function (option) append_loop ::
  "(fd \<Rightarrow> payload \<Rightarrow> nat \<Rightarrow> nat \<Rightarrow> 'k \<Rightarrow> (errno + nat) \<times> 'k) \<Rightarrow> fd \<Rightarrow> payload \<Rightarrow> nat \<Rightarrow> 'k \<Rightarrow> (unit io \<times> 'k) option" where
  "append_loop wr f data written w =
     (if written < payload_len data
      then (case wr f data written (payload_len data - written) w of
              (Inl e, w') \<Rightarrow> Some (Inl (Os e), w')
            | (Inr n, w') \<Rightarrow> append_loop wr f data (written + n) w')
      else Some (Inr (), w))"

section \<open>The message loop\<close>

text \<open>
  \<open>ct_rq\<close> is what the task awaits; \<open>ct_op\<close> and \<open>co_called\<close> are there to state properties.
\<close>

record ctask =
  ct_id :: nat
  ct_cb :: cb
  ct_op :: op
  ct_rq :: "request option"
  ct_at :: task

record compio =
  co_files :: files
  co_flags :: "nat \<Rightarrow> bool option"
  co_next :: nat
  co_tasks :: "ctask list"
  co_called :: "(cb \<times> op \<times> reply io) list"

definition compio_new :: compio where
  "compio_new = \<lparr>co_files = Map.empty, co_flags = Map.empty, co_next = 1, co_tasks = [], co_called = []\<rparr>"

fun needs_handle :: "op \<Rightarrow> bool" where
  "needs_handle (Op_Open path spec) = True"
| "needs_handle (Op_ReadFile path n) = True"
| "needs_handle _ = False"

fun handle_message :: "msg \<Rightarrow> compio \<Rightarrow> compio" where
  "handle_message (Msg_Cancel i) s =
     (case co_flags s i of None \<Rightarrow> s | Some _ \<Rightarrow> s\<lparr>co_flags := (co_flags s)(i \<mapsto> True)\<rparr>)"
| "handle_message (Msg_Submit i oper c) s =
     (let oid = (if needs_handle oper then Some (co_next s) else None)
      in s\<lparr>co_next := (if needs_handle oper then co_next s + 1 else co_next s),
           co_flags := (co_flags s)(i \<mapsto> False),
           co_tasks := co_tasks s @ [\<lparr>ct_id = i, ct_cb = c, ct_op = oper, ct_rq = None, ct_at = T_start oper oid\<rparr>]\<rparr>)"

definition flag_set :: "compio \<Rightarrow> nat \<Rightarrow> bool" where
  "flag_set s i \<longleftrightarrow> co_flags s i = Some True"

text \<open>One task, the \<open>n\<close>-th, with what it did: it awaits again, or it is done and calls back.\<close>

definition task_did :: "nat \<Rightarrow> outcome \<times> files \<Rightarrow> compio \<Rightarrow> compio" where
  "task_did n out s =
     (let t = co_tasks s ! n; s = s\<lparr>co_files := snd out\<rparr>
      in case fst out of
           Awaits rq at \<Rightarrow> s\<lparr>co_tasks := (co_tasks s)[n := t\<lparr>ct_rq := Some rq, ct_at := at\<rparr>]\<rparr>
         | Settled r \<Rightarrow> s\<lparr>co_flags := (co_flags s)(ct_id t := None), co_tasks := remove_at (co_tasks s) n,
                         co_called := co_called s @ [(ct_cb t, ct_op t, r)]\<rparr>)"

text \<open>The first poll of a spawned task comes without an answer.\<close>

fun poll_task :: "task \<Rightarrow> answer option \<Rightarrow> bool \<Rightarrow> files \<Rightarrow> (outcome \<times> files) option" where
  "poll_task at (Some x) cancelled fs = resume_task at x cancelled fs"
| "poll_task (T_start oper oid) None cancelled fs = Some (start_task oper oid cancelled fs)"
| "poll_task _ None cancelled fs = None"

definition run_task :: "nat \<Rightarrow> answer option \<Rightarrow> compio \<Rightarrow> compio option" where
  "run_task n a s =
     (let t = co_tasks s ! n
      in map_option (\<lambda>out. task_did n out s) (poll_task (ct_at t) a (flag_set s (ct_id t)) (co_files s)))"

text \<open>A task left alone until it is done, with compio's answers given by a function of its state.\<close>

partial_function (option) drive_task ::
  "(request \<Rightarrow> 'w \<Rightarrow> answer \<times> 'w) \<Rightarrow> outcome \<times> files \<Rightarrow> 'w \<Rightarrow> (reply io \<times> files \<times> 'w) option" where
  "drive_task env out w = (case fst out of
       Settled r \<Rightarrow> Some (r, snd out, w)
     | Awaits rq at \<Rightarrow>
         (case env rq w of (a, w') \<Rightarrow>
            (case resume_task at a False (snd out) of
               None \<Rightarrow> None
             | Some out' \<Rightarrow> drive_task env out' w')))"

section \<open>The backend and its submitters\<close>

record csys =
  cs_co :: compio
  cs_rx :: "msg channel"
  cs_driver :: driver
  cs_submitted :: "(cb \<times> op) list"
  cs_lost :: "(cb \<times> op) list"

definition csys_new :: csys where
  "csys_new = \<lparr>cs_co = compio_new, cs_rx = new_channel, cs_driver = driver_new ''compio'', cs_submitted = [], cs_lost = []\<rparr>"

text \<open>
  \<open>spawn\<close>.  What the thread reports of its runtime is a parameter: nothing when it ended
  before it could.
\<close>

datatype driver_type = IoUring | Poll | IOCP

definition compio_spawn :: "(io_error + (io_error + driver_type) option) \<Rightarrow> string io" where
  "compio_spawn thread = (case thread of
       Inl e \<Rightarrow> Inl e
     | Inr None \<Rightarrow> Inl (BrokenPipe ''compio driver thread exited during startup'')
     | Inr (Some (Inl e)) \<Rightarrow> Inl e
     | Inr (Some (Inr t)) \<Rightarrow> Inr (case t of
           IoUring \<Rightarrow> ''compio-io-uring'' | Poll \<Rightarrow> ''compio-polling'' | IOCP \<Rightarrow> ''compio-iocp''))"

text \<open>
  \<open>ok\<close> says which answers compio gives to a request; the first poll has no request.
\<close>

definition answer_ok :: "(request \<Rightarrow> answer \<Rightarrow> bool) \<Rightarrow> request option \<Rightarrow> answer option \<Rightarrow> bool" where
  "answer_ok ok rq a = (case a of None \<Rightarrow> True | Some x \<Rightarrow> (case rq of None \<Rightarrow> False | Some r \<Rightarrow> ok r x))"

text \<open>
  The end of \<open>run\<close>.  \<open>block_on\<close> returns with it, the closure of \<open>spawn\<close> ends, and its local
  \<open>runtime\<close> is dropped; with it go the files, the flags and every detached task not done yet,
  callback and all (\<open>cs_lost\<close> records them).  That the drop does not first run those tasks
  to their end is taken from compio; a task that still gets a turn
  between the last message and that moment is a step \<open>run\<close> before this one.
\<close>

definition run_ends :: "csys \<Rightarrow> csys" where
  "run_ends s = s\<lparr>cs_co := (cs_co s)\<lparr>co_files := Map.empty, co_flags := Map.empty, co_tasks := []\<rparr>,
     cs_lost := cs_lost s @ map (\<lambda>t. (ct_cb t, ct_op t)) (co_tasks (cs_co s))\<rparr>"

inductive csys_step :: "(request \<Rightarrow> answer \<Rightarrow> bool) \<Rightarrow> csys \<Rightarrow> csys \<Rightarrow> bool" for ok where
  submit: "senders (cs_rx s) \<Longrightarrow> submit oper c (cs_driver s) (cs_rx s) = (i, d, rx, called) \<Longrightarrow>
    csys_step ok s (s\<lparr>cs_driver := d, cs_rx := rx, cs_submitted := cs_submitted s @ [(c, oper)]\<rparr>)"
| cancel: "senders (cs_rx s) \<Longrightarrow> csys_step ok s (s\<lparr>cs_rx := cancel i (cs_rx s)\<rparr>)"
| drops: "csys_step ok s (s\<lparr>cs_rx := (cs_rx s)\<lparr>senders := False\<rparr>\<rparr>)"
| ends: "try_recv (cs_rx s) = (Disconnected, rx) \<Longrightarrow> csys_step ok s (run_ends s)"
| receive: "try_recv (cs_rx s) = (Received m, rx) \<Longrightarrow>
    csys_step ok s (s\<lparr>cs_rx := rx, cs_co := handle_message m (cs_co s)\<rparr>)"
| run: "n < length (co_tasks (cs_co s)) \<Longrightarrow> answer_ok ok (ct_rq (co_tasks (cs_co s) ! n)) a \<Longrightarrow>
    run_task n a (cs_co s) = Some co \<Longrightarrow> csys_step ok s (s\<lparr>cs_co := co\<rparr>)"

inductive csys_reach :: "(request \<Rightarrow> answer \<Rightarrow> bool) \<Rightarrow> csys \<Rightarrow> bool" for ok where
  new: "csys_reach ok csys_new"
| step: "csys_reach ok s \<Longrightarrow> csys_step ok s s' \<Longrightarrow> csys_reach ok s'"

end
