(* ===== verification/Compio_Play.thy ===== *)
theory Compio_Play
  imports Compio
begin

text \<open>
  An executable scheduler for the compio backend: \<open>cplay\<close> runs a list of actions from the
  start and reaches only reachable states.  An action that is not possible does nothing.
\<close>

datatype caction =
    C_submit op cb
  | C_cancel nat
  | C_drop
  | C_receive
  | C_run nat "answer option"

definition cact :: "(request \<Rightarrow> answer \<Rightarrow> bool) \<Rightarrow> caction \<Rightarrow> csys \<Rightarrow> csys" where
  "cact ok a s = (case a of
       C_submit oper c \<Rightarrow>
         (if senders (cs_rx s)
          then (case submit oper c (cs_driver s) (cs_rx s) of (i, d, rx, called) \<Rightarrow>
                  s\<lparr>cs_driver := d, cs_rx := rx, cs_submitted := cs_submitted s @ [(c, oper)]\<rparr>)
          else s)
     | C_cancel i \<Rightarrow> (if senders (cs_rx s) then s\<lparr>cs_rx := cancel i (cs_rx s)\<rparr> else s)
     | C_drop \<Rightarrow> s\<lparr>cs_rx := (cs_rx s)\<lparr>senders := False\<rparr>\<rparr>
     | C_receive \<Rightarrow>
         (case try_recv (cs_rx s) of
            (Received m, rx) \<Rightarrow> s\<lparr>cs_rx := rx, cs_co := handle_message m (cs_co s)\<rparr>
          | _ \<Rightarrow> s)
     | C_run n x \<Rightarrow>
         (if n < length (co_tasks (cs_co s)) \<and> answer_ok ok (ct_rq (co_tasks (cs_co s) ! n)) x
          then (case run_task n x (cs_co s) of None \<Rightarrow> s | Some co \<Rightarrow> s\<lparr>cs_co := co\<rparr>)
          else s))"

definition cplay :: "(request \<Rightarrow> answer \<Rightarrow> bool) \<Rightarrow> caction list \<Rightarrow> csys" where
  "cplay ok acts = fold (cact ok) acts csys_new"

lemma cact_reach:
  assumes "csys_reach ok s"
  shows "csys_reach ok (cact ok a s)"
proof (cases a)
  case (C_submit oper c)
  obtain i d rx called where sub: "submit oper c (cs_driver s) (cs_rx s) = (i, d, rx, called)"
    by (cases "submit oper c (cs_driver s) (cs_rx s)")
  with C_submit assms show ?thesis
    by (auto simp: cact_def intro: csys_reach.step [OF assms] csys_step.submit [OF _ sub])
qed (auto simp: cact_def assms split: prod.splits recv.splits option.splits
      intro: csys_reach.step [OF assms] csys_step.intros)

lemma cplay_reach: "csys_reach ok (cplay ok acts)"
proof -
  have "csys_reach ok (fold (cact ok) acts s)" if "csys_reach ok s" for s
    using that by (induction acts arbitrary: s) (auto intro: cact_reach)
  then show ?thesis by (simp add: cplay_def csys_reach.new)
qed

text \<open>An open, answered by the descriptor 3 and a size, and a sized read under way on its handle.\<close>

definition reading_acts :: "nat \<Rightarrow> caction list" where
  "reading_acts len = [C_submit (Op_Open ''a'' (default_spec\<lparr>sp_read := True\<rparr>)) 10, C_receive, C_run 0 None,
     C_run 0 (Some (An_file (Inr 3))), C_run 0 (Some (An_len (Inr 6))),
     C_submit (Op_ReadAt 1 0 (Dest_Alloc len)) 11, C_receive, C_run 0 None]"

end
