(* ===== verification/Compio_Correct.thy ===== *)
theory Compio_Correct
  imports Compio_Play Composition Aio_Correct
begin

text \<open>
  The properties of the compio backend: every callback once, replies of the right shape,
  and cancellation between awaits.
\<close>

section \<open>Messages and tasks\<close>

fun msg_cbs :: "msg \<Rightarrow> (cb \<times> op) multiset" where
  "msg_cbs (Msg_Submit i oper c) = {#(c, oper)#}"
| "msg_cbs (Msg_Cancel i) = {#}"

fun msg_ids :: "msg \<Rightarrow> nat set" where
  "msg_ids (Msg_Submit i oper c) = {i}"
| "msg_ids (Msg_Cancel i) = {}"

definition pending_cbs :: "msg list \<Rightarrow> (cb \<times> op) multiset" where
  "pending_cbs ms = (\<Sum>m \<leftarrow> ms. msg_cbs m)"

definition pending_ids :: "msg list \<Rightarrow> nat list" where
  "pending_ids ms = concat (map (\<lambda>m. case m of Msg_Submit i oper c \<Rightarrow> [i] | Msg_Cancel i \<Rightarrow> []) ms)"

definition task_cbs :: "compio \<Rightarrow> (cb \<times> op) multiset" where
  "task_cbs s = mset (map (\<lambda>t. (ct_cb t, ct_op t)) (co_tasks s))"

definition called_cbs :: "compio \<Rightarrow> (cb \<times> op) multiset" where
  "called_cbs s = mset (map (\<lambda>(c, oper, r). (c, oper)) (co_called s))"

text \<open>Nothing is lost, and exactly the running tasks have a flag.\<close>

definition csys_ok :: "csys \<Rightarrow> bool" where
  "csys_ok s \<longleftrightarrow> receivers (cs_rx s) \<and>
     mset (cs_submitted s) = called_cbs (cs_co s) + task_cbs (cs_co s) + pending_cbs (pending (cs_rx s)) + mset (cs_lost s) \<and>
     (senders (cs_rx s) \<longrightarrow> cs_lost s = []) \<and>
     dom (co_flags (cs_co s)) = ct_id ` set (co_tasks (cs_co s)) \<and>
     distinct (map ct_id (co_tasks (cs_co s)) @ pending_ids (pending (cs_rx s))) \<and>
     (\<forall>i \<in> set (map ct_id (co_tasks (cs_co s)) @ pending_ids (pending (cs_rx s))). i < next_op (cs_driver s))"

lemma pending_snoc:
  "pending_cbs (ms @ [m]) = pending_cbs ms + msg_cbs m"
  "pending_ids (ms @ [Msg_Submit i oper c]) = pending_ids ms @ [i]"
  "pending_ids (ms @ [Msg_Cancel i]) = pending_ids ms"
  by (simp_all add: pending_cbs_def pending_ids_def)

lemma pending_cons:
  "pending_cbs (m # ms) = msg_cbs m + pending_cbs ms"
  "pending_ids (Msg_Submit i oper c # ms) = i # pending_ids ms"
  "pending_ids (Msg_Cancel i # ms) = pending_ids ms"
  by (simp_all add: pending_cbs_def pending_ids_def)

lemma map_remove_at: "map f (remove_at xs n) = remove_at (map f xs) n"
  by (simp add: remove_at_def take_map drop_map)

lemma distinct_remove_at:
  assumes "distinct (xs @ ys)" and "n < length xs"
  shows "distinct (remove_at xs n @ ys) \<and> set (remove_at xs n) = set xs - {xs ! n}"
proof -
  have xs: "xs = take n xs @ xs ! n # drop (Suc n) xs" using assms(2) by (rule id_take_nth_drop)
  then have "distinct (take n xs @ xs ! n # drop (Suc n) xs @ ys)" using assms(1) by (metis append.assoc append_Cons)
  then have d: "distinct (take n xs @ drop (Suc n) xs @ ys)" "xs ! n \<notin> set (take n xs @ drop (Suc n) xs)" by auto
  have "set xs = insert (xs ! n) (set (take n xs @ drop (Suc n) xs))" by (subst xs) simp
  with d show ?thesis by (auto simp: remove_at_def)
qed

lemma task_did_ok:
  assumes ok: "csys_ok s" and n: "n < length (co_tasks (cs_co s))"
  shows "csys_ok (s\<lparr>cs_co := task_did n out (cs_co s)\<rparr>)"
proof -
  let ?co = "cs_co s" and ?t = "co_tasks (cs_co s) ! n"
  show ?thesis
  proof (cases "fst out")
    case (Awaits rq pt)
    let ?ts = "(co_tasks ?co)[n := ?t\<lparr>ct_rq := Some rq, ct_at := pt\<rparr>]"
    have ids: "map ct_id ?ts = map ct_id (co_tasks ?co)" and cbs: "map (\<lambda>t. (ct_cb t, ct_op t)) ?ts = map (\<lambda>t. (ct_cb t, ct_op t)) (co_tasks ?co)"
      using n by (auto simp: map_update intro!: list_update_same_conv [THEN iffD2])
    then have "ct_id ` set ?ts = ct_id ` set (co_tasks ?co)" by (metis list.set_map)
    with ok ids cbs Awaits show ?thesis
      by (simp add: csys_ok_def task_did_def Let_def called_cbs_def task_cbs_def)
  next
    case (Settled r)
    let ?ids = "map ct_id (co_tasks ?co)"
    have len: "n < length ?ids" using n by simp
    from ok have dist: "distinct (?ids @ pending_ids (pending (cs_rx s)))" by (simp add: csys_ok_def)
    note less = distinct_remove_at [OF dist len]
    from less have ids: "distinct (map ct_id (remove_at (co_tasks ?co) n) @ pending_ids (pending (cs_rx s)))"
      unfolding map_remove_at by blast
    from less have set: "ct_id ` set (remove_at (co_tasks ?co) n) = ct_id ` set (co_tasks ?co) - {ct_id ?t}"
      unfolding list.set_map [symmetric] map_remove_at nth_map [OF n, symmetric] by blast
    have "mset (map (\<lambda>t. (ct_cb t, ct_op t)) (co_tasks ?co)) =
        add_mset (ct_cb ?t, ct_op ?t) (mset (map (\<lambda>t. (ct_cb t, ct_op t)) (remove_at (co_tasks ?co) n)))"
      using mset_remove_at [of n "map (\<lambda>t. (ct_cb t, ct_op t)) (co_tasks ?co)"] n by (simp add: map_remove_at)
    with ok ids set Settled show ?thesis
      by (auto simp: csys_ok_def task_did_def Let_def called_cbs_def task_cbs_def)
  qed
qed

lemma message_ok:
  assumes ok: "csys_ok s" and recv: "try_recv (cs_rx s) = (Received m, rx')"
  shows "csys_ok (s\<lparr>cs_rx := rx', cs_co := handle_message m (cs_co s)\<rparr>)"
proof (cases m)
  case (Msg_Submit i oper c)
  let ?ts = "co_tasks (cs_co s)"
  from try_recv_ReceivedD [OF recv] Msg_Submit have old: "pending (cs_rx s) = Msg_Submit i oper c # pending rx'"
    and alive: "receivers rx' = receivers (cs_rx s)" "senders rx' = senders (cs_rx s)" by auto
  from ok have count: "mset (cs_submitted s) = called_cbs (cs_co s) + task_cbs (cs_co s) + pending_cbs (pending (cs_rx s)) + mset (cs_lost s)"
    and lost: "senders (cs_rx s) \<longrightarrow> cs_lost s = []"
    and flags: "dom (co_flags (cs_co s)) = ct_id ` set ?ts"
    and ids: "distinct ((map ct_id ?ts @ [i]) @ pending_ids (pending rx'))"
      "\<forall>k \<in> set ((map ct_id ?ts @ [i]) @ pending_ids (pending rx')). k < next_op (cs_driver s)"
    and "receivers (cs_rx s)"
    unfolding csys_ok_def old pending_cons by simp_all
  with alive old Msg_Submit show ?thesis
    by (simp add: csys_ok_def pending_cons Let_def called_cbs_def task_cbs_def)
next
  case (Msg_Cancel i)
  with try_recv_ReceivedD [OF recv] ok show ?thesis
    by (auto simp: csys_ok_def pending_cons called_cbs_def task_cbs_def split: option.split)
qed

lemma run_task_did:
  assumes "run_task n a s = Some s'"
  shows "\<exists>out. s' = task_did n out s \<and>
    poll_task (ct_at (co_tasks s ! n)) a (flag_set s (ct_id (co_tasks s ! n))) (co_files s) = Some out"
  using assms unfolding run_task_def Let_def by blast

lemma try_recv_gone: "try_recv c = (Disconnected, c') \<Longrightarrow> pending c = [] \<and> \<not> senders c \<and> c' = c"
  by (cases "pending c") (auto simp: try_recv_def split: if_splits)

lemma csys_ok_step: "csys_step ok s s' \<Longrightarrow> csys_ok s \<Longrightarrow> csys_ok s'"
proof (induction rule: csys_step.induct)
  case (submit s oper c i d rx' called)
  let ?k = "next_op (cs_driver s)" and ?ids = "map ct_id (co_tasks (cs_co s)) @ pending_ids (pending (cs_rx s))"
  from submit(3) have ids: "distinct ?ids" "\<forall>i \<in> set ?ids. i < ?k" by (simp_all add: csys_ok_def)
  then have "?k \<notin> set ?ids" by blast
  with ids(1) have "distinct (?ids @ [?k])" by (simp only: distinct_append) simp
  moreover have "\<forall>i \<in> set (?ids @ [?k]). i < Suc ?k"
  proof
    fix i assume "i \<in> set (?ids @ [?k])"
    then have "i \<in> set ?ids \<or> i = ?k" by (simp only: set_append Un_iff) simp
    with ids(2) show "i < Suc ?k" by (metis lessI less_SucI)
  qed
  moreover from submit have "rx' = (cs_rx s)\<lparr>pending := pending (cs_rx s) @ [Msg_Submit ?k oper c]\<rparr>"
    and "d = (cs_driver s)\<lparr>next_op := Suc ?k\<rparr>"
    by (auto simp: submit_cases csys_ok_def)
  ultimately show ?case using submit(3)
    by (simp add: csys_ok_def pending_snoc)
next
  case (cancel s i)
  then show ?case
    by (auto simp: cancel_def send_def csys_ok_def pending_snoc)
next
  case (drops s)
  then show ?case by (simp add: csys_ok_def)
next
  case (ends s rx')
  with try_recv_gone [OF ends(1)] show ?case
    by (auto simp: csys_ok_def run_ends_def called_cbs_def task_cbs_def pending_cbs_def pending_ids_def)
next
  case (receive s m rx')
  then show ?case by (simp add: message_ok)
next
  case (run n s a co)
  from run_task_did [OF run(3)] obtain out where "co = task_did n out (cs_co s)" by blast
  with task_did_ok [OF run(4) run(1)] show ?case by simp
qed

lemma csys_reach_ok: "csys_reach ok s \<Longrightarrow> csys_ok s"
proof (induction rule: csys_reach.induct)
  case new
  show ?case
    by (simp add: csys_ok_def csys_new_def compio_new_def new_channel_def driver_new_def called_cbs_def task_cbs_def
        pending_cbs_def pending_ids_def)
qed (rule csys_ok_step)

section \<open>Replies of the right shape\<close>

fun is_read_file :: "op \<Rightarrow> bool" where
  "is_read_file (Op_ReadFile path n) = True"
| "is_read_file _ = False"

fun is_read_to_end :: "op \<Rightarrow> bool" where
  "is_read_to_end (Op_ReadToEnd h pos) = True"
| "is_read_to_end _ = False"

lemma answers_any:
  "answers oper (Reply_Written n 0) \<Longrightarrow> answers oper (Reply_Written n e)"
  "answers oper (Reply_Size 0) \<Longrightarrow> answers oper (Reply_Size sz)"
  "answers oper (Reply_Handle 0 0 0) \<Longrightarrow> answers oper (Reply_Handle i sz f)"
  by (cases "(oper, Reply_Unit)" rule: answers.cases; simp)+

lemma is_read_file_answers: "is_read_file oper \<Longrightarrow> answers oper (Reply_Bytes bs) \<and> answers oper (Reply_Handle i sz f)"
  by (cases oper) simp_all

lemma is_read_to_end_answers: "is_read_to_end oper \<Longrightarrow> answers oper (Reply_Bytes bs)"
  by (cases oper) simp_all

fun fits_dest :: "dest \<Rightarrow> cbuf \<Rightarrow> bool" where
  "fits_dest (Dest_Alloc len) (Vec_buf bs cap) = (cap = len \<and> length bs \<le> cap)"
| "fits_dest (Dest_Into p len) (Raw_buf q cap n) = (q = p \<and> cap = len \<and> n \<le> cap)"
| "fits_dest _ _ = False"

text \<open>
  What compio promises of a positional read: it hands the same buffer back, filled within
  its capacity; for caller memory the length is what \<open>set_len\<close> made of it.
\<close>

fun same_buffer :: "cbuf \<Rightarrow> cbuf \<Rightarrow> bool" where
  "same_buffer (Vec_buf bs cap) (Vec_buf bs' cap') = (cap' = cap \<and> length bs' \<le> cap)"
| "same_buffer (Raw_buf p cap n) (Raw_buf p' cap' n') = (p' = p \<and> cap' = cap \<and> n' \<le> cap)"
| "same_buffer _ _ = False"

fun sane :: "request \<Rightarrow> answer \<Rightarrow> bool" where
  "sane (Rq_read_at f buf off) (An_read r buf') = same_buffer buf buf'"
| "sane _ _ = True"

fun reading_at :: "dest \<Rightarrow> request option \<Rightarrow> bool" where
  "reading_at dst (Some (Rq_read_at f buf off)) = fits_dest dst buf"
| "reading_at _ _ = False"

fun read_typed :: "op \<Rightarrow> request option \<Rightarrow> nat \<Rightarrow> bool" where
  "read_typed (Op_ReadAt h p dst) rq len = (len = fst (dest_buf dst) \<and> reading_at dst rq)"
| "read_typed _ rq len = False"

fun typed :: "op \<Rightarrow> request option \<Rightarrow> task \<Rightarrow> bool" where
  "typed oper rq (T_start oper' oid) = (oper' = oper)"
| "typed oper rq (T_opening i) = answers oper (Reply_Handle 0 0 0)"
| "typed oper rq (T_open_meta i f) = answers oper (Reply_Handle 0 0 0)"
| "typed oper rq (T_reading f pos len) = read_typed oper rq len"
| "typed oper rq (T_end_meta f pos) = is_read_to_end oper"
| "typed oper rq T_end_read = is_read_to_end oper"
| "typed oper rq (T_append f n) = answers oper (Reply_Written n 0)"
| "typed oper rq (T_append_meta n) = answers oper (Reply_Written n 0)"
| "typed oper rq (T_write n e) = answers oper (Reply_Written n 0)"
| "typed oper rq T_unit = answers oper Reply_Unit"
| "typed oper rq T_size = answers oper (Reply_Size 0)"
| "typed oper rq (T_file_open m i) = is_read_file oper"
| "typed oper rq (T_file_meta f m i) = is_read_file oper"
| "typed oper rq (T_file_read f) = is_read_file oper"
| "typed oper rq (T_put_open data) = answers oper (Reply_Written (payload_len data) 0)"
| "typed oper rq (T_put_write f n) = answers oper (Reply_Written n 0)"
| "typed oper rq (T_close rep) = answers oper rep"

definition outcome_ok :: "op \<Rightarrow> outcome \<Rightarrow> bool" where
  "outcome_ok oper out = (case out of
       Settled (Inl e) \<Rightarrow> True | Settled (Inr r) \<Rightarrow> answers oper r | Awaits rq pt \<Rightarrow> typed oper (Some rq) pt)"

lemma outcome_ok_simps [simp]:
  "outcome_ok oper (Settled (Inl e))" "outcome_ok oper (Settled (Inr r)) = answers oper r"
  "outcome_ok oper (Awaits rq pt) = typed oper (Some rq) pt"
  by (simp_all add: outcome_ok_def)

lemma on_answer_ok: "(\<And>x. r = Inr x \<Longrightarrow> outcome_ok oper (fst (k x))) \<Longrightarrow> outcome_ok oper (fst (on_answer r k fs))"
  by (cases r) simp_all

lemma fits_reply: "fits_dest dst buf \<Longrightarrow> answers (Op_ReadAt h p dst) (buf_reply buf)"
  by (cases "(dst, buf)" rule: fits_dest.cases) simp_all

lemma read_more_ok:
  "fits_dest dst buf \<Longrightarrow> len = fst (dest_buf dst) \<Longrightarrow> outcome_ok (Op_ReadAt h p dst) (read_more f pos len buf c)"
  by (simp add: read_more_def fits_reply)

lemma start_task_ok: "outcome_ok oper (fst (start_task oper oid c fs))"
proof (cases oper)
  case (Op_ReadAt h pos dst)
  then show ?thesis
    by (cases dst) (auto simp: start_task_def dest_buf_def intro!: on_answer_ok read_more_ok)
qed (auto simp: start_task_def intro!: on_answer_ok)

lemma fits_same: "fits_dest dst buf \<Longrightarrow> same_buffer buf buf' \<Longrightarrow> fits_dest dst buf'"
  by (cases "(dst, buf)" rule: fits_dest.cases; cases buf') simp_all

lemma resume_task_ok:
  assumes "typed oper rq pt" and "resume_task pt a c fs = Some out" and "answer_ok sane rq (Some a)"
  shows "outcome_ok oper (fst out)"
  using assms
proof (cases "(pt, a, c, fs)" rule: resume_task.cases)
  case (3 f pos len res buf c fs)
  with assms(1) obtain h p dst where oper: "oper = Op_ReadAt h p dst" "len = fst (dest_buf dst)" "reading_at dst rq"
    by (cases oper) auto
  then obtain g b off where rq: "rq = Some (Rq_read_at g b off)" "fits_dest dst b"
    by (cases "(dst, rq)" rule: reading_at.cases) auto
  with 3 assms(3) have "fits_dest dst buf" by (auto simp: answer_ok_def intro: fits_same)
  with 3 assms(2) oper show ?thesis
    by (auto simp: read_done_def fits_reply read_more_ok split: sum.split)
qed (auto intro!: on_answer_ok intro: answers_any simp: is_read_file_answers is_read_to_end_answers
    split: sum.splits if_splits)

definition replies_typed :: "compio \<Rightarrow> bool" where
  "replies_typed s \<longleftrightarrow> (\<forall>t \<in> set (co_tasks s). typed (ct_op t) (ct_rq t) (ct_at t)) \<and>
     (\<forall>(c, oper, r) \<in> set (co_called s). \<forall>x. r = Inr x \<longrightarrow> answers oper x)"

lemma task_did_typed:
  assumes "replies_typed s" and "n < length (co_tasks s)" and "outcome_ok (ct_op (co_tasks s ! n)) (fst out)"
  shows "replies_typed (task_did n out s)"
proof (cases "fst out")
  case (Awaits rq pt)
  with assms set_update_subset_insert [of "co_tasks s" n "(co_tasks s ! n)\<lparr>ct_rq := Some rq, ct_at := pt\<rparr>"] show ?thesis
    by (auto simp: replies_typed_def task_did_def Let_def)
next
  case (Settled r)
  with assms set_remove_at [of "co_tasks s" n] show ?thesis
    by (cases r) (auto simp: replies_typed_def task_did_def Let_def)
qed

lemma replies_typed_step: "csys_step sane s s' \<Longrightarrow> replies_typed (cs_co s) \<Longrightarrow> replies_typed (cs_co s')"
proof (induction rule: csys_step.induct)
  case (receive s m rx')
  then show ?case by (cases m) (auto simp: replies_typed_def Let_def split: option.split)
next
  case (run n s a co)
  let ?t = "co_tasks (cs_co s) ! n"
  obtain out where co: "co = task_did n out (cs_co s)"
    and poll: "poll_task (ct_at ?t) a (flag_set (cs_co s) (ct_id ?t)) (co_files (cs_co s)) = Some out"
    using run_task_did [OF run(3)] by blast
  have typed: "typed (ct_op ?t) (ct_rq ?t) (ct_at ?t)" using run(1,4) by (simp add: replies_typed_def)
  have "outcome_ok (ct_op ?t) (fst out)"
  proof (cases a)
    case None
    with poll typed start_task_ok show ?thesis by (cases "ct_at ?t") auto
  next
    case (Some x)
    with poll resume_task_ok [OF typed, of x] run(2) show ?thesis by simp
  qed
  with co run(1,4) show ?case by (simp add: task_did_typed)
next
  case (ends s rx')
  then show ?case by (simp add: run_ends_def replies_typed_def)
qed simp_all

lemma csys_reach_typed: "csys_reach sane s \<Longrightarrow> replies_typed (cs_co s)"
proof (induction rule: csys_reach.induct)
  case new
  show ?case by (simp add: replies_typed_def csys_new_def compio_new_def)
qed (rule replies_typed_step)

section \<open>The contract of a backend\<close>

definition compio_replied :: "csys \<Rightarrow> (cb \<times> reply io) list" where
  "compio_replied s = map (\<lambda>(c, oper, r). (c, r)) (co_called (cs_co s))"

definition compio_idle :: "csys \<Rightarrow> bool" where
  "compio_idle s \<longleftrightarrow> co_tasks (cs_co s) = [] \<and> pending (cs_rx s) = [] \<and> senders (cs_rx s)"

lemma compio_replied_cbs: "mset (map fst (compio_replied s)) = image_mset fst (called_cbs (cs_co s))"
proof -
  have "map fst (compio_replied s) = map fst (map (\<lambda>(c, oper, r). (c, oper)) (co_called (cs_co s)))"
    by (simp add: compio_replied_def case_prod_beta)
  then show ?thesis by (metis called_cbs_def mset_map)
qed

lemma called_message: "co_called (handle_message m s) = co_called s"
  by (cases m) (simp_all add: Let_def split: option.split)

lemma called_run: "run_task n a s = Some co \<Longrightarrow> \<exists>l. co_called co = co_called s @ l"
proof -
  assume "run_task n a s = Some co"
  then obtain out where "co = task_did n out s" by (auto simp: run_task_def Let_def)
  then show ?thesis by (cases "fst out") (auto simp: task_did_def Let_def)
qed

lemma compio_replied_grows: "csys_step ok s s' \<Longrightarrow> \<exists>rs. compio_replied s' = compio_replied s @ rs"
  by (induction rule: csys_step.induct)
    (auto simp: compio_replied_def run_ends_def called_message dest!: called_run)

definition compio_view :: "csys backend_view" where
  "compio_view = \<lparr>bk_start = (\<lambda>s. s = csys_new), bk_step = csys_step sane,
     bk_asked = cs_submitted, bk_replied = compio_replied\<rparr>"

lemma compio_view_simps [simp]:
  "bk_start compio_view s = (s = csys_new)" "bk_step compio_view = csys_step sane"
  "bk_asked compio_view = cs_submitted" "bk_replied compio_view = compio_replied"
  by (simp_all add: compio_view_def)

interpretation compio_program: program "csys_reach sane" compio_idle compio_view True
proof unfold_locales
  fix s
  assume reach: "csys_reach sane s"
  then have count: "mset (cs_submitted s) = called_cbs (cs_co s) + task_cbs (cs_co s) + pending_cbs (pending (cs_rx s)) + mset (cs_lost s)"
    and lost: "senders (cs_rx s) \<longrightarrow> cs_lost s = []" using csys_reach_ok [of sane s] by (simp_all add: csys_ok_def)
  then have books: "image_mset fst (mset (cs_submitted s)) =
      mset (map fst (compio_replied s)) + (image_mset fst (task_cbs (cs_co s)) + (image_mset fst (pending_cbs (pending (cs_rx s))) +
        image_mset fst (mset (cs_lost s))))"
    by (simp only: count compio_replied_cbs image_mset_union add.assoc)
  then show "mset (map fst (bk_replied compio_view s)) \<subseteq># mset (map fst (bk_asked compio_view s))"
    unfolding compio_view_simps by (metis mset_map mset_subset_eq_add_left)
  show "mset (map fst (bk_replied compio_view s)) = mset (map fst (bk_asked compio_view s))" if "compio_idle s"
    using books lost that unfolding compio_view_simps mset_map [of fst "cs_submitted s"]
    by (simp add: compio_idle_def task_cbs_def pending_cbs_def)
  show "\<exists>oper. (c, oper) \<in> set (bk_asked compio_view s) \<and> answers oper r"
    if "(c, Inr r) \<in> set (bk_replied compio_view s)" for c r
  proof -
    from that obtain oper where called: "(c, oper, Inr r) \<in> set (co_called (cs_co s))" by (auto simp: compio_replied_def)
    then have "(c, oper) \<in># called_cbs (cs_co s)" by (force simp: called_cbs_def)
    with csys_reach_ok [OF reach] have "(c, oper) \<in> set (cs_submitted s)"
      by (metis csys_ok_def set_mset_mset union_iff)
    moreover have "answers oper r" using csys_reach_typed [OF reach] called by (auto simp: replies_typed_def)
    ultimately show ?thesis by auto
  qed
  show "csys_reach sane s'" "\<exists>rs. bk_replied compio_view s' = bk_replied compio_view s @ rs"
    if "bk_step compio_view s s'" for s'
    using that reach compio_replied_grows [of sane s s'] by (auto intro: csys_reach.step)
next
  fix s
  assume "bk_start compio_view s"
  then have "s = csys_new" by simp
  then show "csys_reach sane s \<and> bk_asked compio_view s = [] \<and> bk_replied compio_view s = []"
    using csys_reach.new by (simp add: compio_replied_def csys_new_def compio_new_def)
qed

lemma compio_asks: "asks_one_by_one compio_view"
  by (auto simp: asks_one_by_one_def run_ends_def elim: csys_step.cases)

lemma compio_reach: "csys_reach sane s \<Longrightarrow> bk_reach compio_view s"
proof (induction rule: csys_reach.induct)
  case new
  show ?case by (rule bk_reach.starts) simp
next
  case (step s s')
  from step.IH show ?case by (rule bk_reach.step) (use step.hyps in simp)
qed

section \<open>The properties\<close>

text \<open>Off the awaits that look at it the cancel flag has no effect.\<close>

lemma poll_task_flag:
  assumes "poll_task pt a c fs = Some out"
    and "\<not> ((\<exists>oper oid. pt = T_start oper oid) \<or> (\<exists>f pos len m buf. pt = T_reading f pos len \<and> a = Some (An_read (Inr m) buf) \<and> 0 < m))"
  shows "poll_task pt a c' fs = Some out"
proof (cases a)
  case None
  with assms show ?thesis by (cases pt) auto
next
  case (Some x)
  with assms show ?thesis
    by (cases "(pt, x, c, fs)" rule: resume_task.cases) (auto simp: read_done_def split: sum.splits)
qed

text \<open>
  C12: No callback is invoked more often than it was submitted, however messages, tasks and
  compio's answers interleave; and as long as the driver has an owner, once the channel is
  empty and no task is left every submission's callback has been invoked exactly once.
\<close>

theorem compio_callbacks_once:
  assumes "csys_reach ok s"
  shows "mset (map (\<lambda>(c, oper, r). (c, oper)) (co_called (cs_co s))) \<subseteq># mset (cs_submitted s) \<and>
    (co_tasks (cs_co s) = [] \<and> pending (cs_rx s) = [] \<and> senders (cs_rx s) \<longrightarrow>
       mset (map (\<lambda>(c, oper, r). (c, oper)) (co_called (cs_co s))) = mset (cs_submitted s))"
  using csys_reach_ok [OF assms] by (auto simp: csys_ok_def called_cbs_def task_cbs_def pending_cbs_def)

definition nop_done :: csys where
  "nop_done = \<lparr>cs_co = \<lparr>co_files = Map.empty, co_flags = Map.empty, co_next = 1, co_tasks = [],
       co_called = [(5, Op_Nop, Inr Reply_Unit)]\<rparr>,
     cs_rx = new_channel, cs_driver = (driver_new ''compio'')\<lparr>next_op := 2\<rparr>, cs_submitted = [(5, Op_Nop)], cs_lost = []\<rparr>"

lemma reach_received:
  assumes "csys_reach ok s" and "receivers (cs_rx s)" and "pending (cs_rx s) = []" and "senders (cs_rx s)"
  shows "csys_reach ok (s\<lparr>cs_driver := (cs_driver s)\<lparr>next_op := Suc (next_op (cs_driver s))\<rparr>,
     cs_submitted := cs_submitted s @ [(c, oper)], cs_co := handle_message (Msg_Submit (next_op (cs_driver s)) oper c) (cs_co s)\<rparr>)"
proof -
  let ?m = "Msg_Submit (next_op (cs_driver s)) oper c"
  let ?s = "s\<lparr>cs_driver := (cs_driver s)\<lparr>next_op := Suc (next_op (cs_driver s))\<rparr>,
      cs_rx := (cs_rx s)\<lparr>pending := [?m]\<rparr>, cs_submitted := cs_submitted s @ [(c, oper)]\<rparr>"
  have "csys_step ok s ?s"
    using csys_step.submit [of s oper c "next_op (cs_driver s)"] assms(2-4) by (simp add: submit_cases)
  moreover have "try_recv (cs_rx ?s) = (Received ?m, cs_rx s)"
    using assms(3) by (simp add: try_recv_def)
  from csys_step.receive [OF this, of ok]
  have "csys_step ok ?s (s\<lparr>cs_driver := (cs_driver s)\<lparr>next_op := Suc (next_op (cs_driver s))\<rparr>,
     cs_submitted := cs_submitted s @ [(c, oper)], cs_co := handle_message ?m (cs_co s)\<rparr>)" by simp
  ultimately show ?thesis using assms(1) csys_reach.step by blast
qed

lemma nop_done_reach: "csys_reach ok nop_done"
proof -
  let ?s = "csys_new\<lparr>cs_driver := (cs_driver csys_new)\<lparr>next_op := Suc (next_op (cs_driver csys_new))\<rparr>,
     cs_submitted := cs_submitted csys_new @ [(5, Op_Nop)],
     cs_co := handle_message (Msg_Submit (next_op (cs_driver csys_new)) Op_Nop 5) (cs_co csys_new)\<rparr>"
  have "csys_reach ok ?s"
    by (rule reach_received [OF csys_reach.new]) (simp_all add: csys_new_def new_channel_def)
  moreover have "csys_step ok ?s nop_done"
    using csys_step.run [of 0 ?s ok None "cs_co nop_done"]
    by (simp add: csys_new_def compio_new_def driver_new_def nop_done_def answer_ok_def run_task_def task_did_def
        start_task_def remove_at_def flag_set_def Let_def numeral_2_eq_2)
  ultimately show ?thesis by (rule csys_reach.step)
qed

theorem compio_callbacks_once_witness:
  "mset (map (\<lambda>(c, oper, r). (c, oper)) (co_called (cs_co nop_done))) = mset (cs_submitted nop_done)"
  using compio_callbacks_once [OF nop_done_reach] by (simp add: nop_done_def new_channel_def)

text \<open>
  C32: A driver that is dropped with operations under way takes them with it: once the last
  submitter is gone and the messages are read, \<open>run\<close> can return at once, and whatever
  happens afterwards the callback of every task there was is never invoked.  (The AIO
  driver's \<open>run\<close> returns only when nothing is outstanding.)
\<close>

theorem compio_drop_loses_callbacks:
  assumes "csys_reach ok s" and "\<not> senders (cs_rx s)" and "pending (cs_rx s) = []"
  shows "csys_step ok s (run_ends s) \<and>
    (\<forall>s'. rtranclp (csys_step ok) (run_ends s) s' \<longrightarrow> co_called (cs_co s') = co_called (cs_co s) \<and>
       mset (cs_submitted s') = mset (map (\<lambda>(c, oper, r). (c, oper)) (co_called (cs_co s'))) +
         mset (map (\<lambda>t. (ct_cb t, ct_op t)) (co_tasks (cs_co s))) + mset (cs_lost s))"
proof (intro conjI allI impI)
  have "try_recv (cs_rx s) = (Disconnected, cs_rx s)" using assms(2,3) by (simp add: try_recv_def)
  then show "csys_step ok s (run_ends s)" by (rule csys_step.ends)
next
  fix s'
  assume "rtranclp (csys_step ok) (run_ends s) s'"
  then have "\<not> senders (cs_rx s') \<and> pending (cs_rx s') = [] \<and> co_tasks (cs_co s') = [] \<and>
      co_called (cs_co s') = co_called (cs_co s) \<and> cs_submitted s' = cs_submitted s"
  proof (induction rule: rtranclp_induct)
    case base
    then show ?case using assms(2,3) by (simp add: run_ends_def)
  next
    case (step a b)
    from step.hyps(2) step.IH show ?case
      by (cases rule: csys_step.cases) (auto simp: run_ends_def dest: try_recv_ReceivedD)
  qed
  moreover have "mset (cs_submitted s) = called_cbs (cs_co s) + task_cbs (cs_co s) + mset (cs_lost s)"
    using csys_reach_ok [OF assms(1)] assms(3) by (simp add: csys_ok_def pending_cbs_def)
  ultimately show "co_called (cs_co s') = co_called (cs_co s)"
    and "mset (cs_submitted s') = mset (map (\<lambda>(c, oper, r). (c, oper)) (co_called (cs_co s'))) +
         mset (map (\<lambda>t. (ct_cb t, ct_op t)) (co_tasks (cs_co s))) + mset (cs_lost s)"
    by (simp_all add: called_cbs_def task_cbs_def)
qed

theorem compio_drop_loses_callbacks_witness:
  "\<exists>s. csys_reach sane s \<and> cs_submitted s = [(5, Op_Size 3)] \<and>
     (\<forall>s'. rtranclp (csys_step sane) (run_ends s) s' \<longrightarrow> co_called (cs_co s') = [])"
proof -
  let ?s = "csys_new\<lparr>cs_driver := (cs_driver csys_new)\<lparr>next_op := Suc (next_op (cs_driver csys_new))\<rparr>,
     cs_submitted := cs_submitted csys_new @ [(5, Op_Size 3)],
     cs_co := handle_message (Msg_Submit (next_op (cs_driver csys_new)) (Op_Size 3) 5) (cs_co csys_new)\<rparr>"
  let ?d = "?s\<lparr>cs_rx := (cs_rx ?s)\<lparr>senders := False\<rparr>\<rparr>"
  have "csys_reach sane ?s"
    by (rule reach_received [OF csys_reach.new]) (simp_all add: csys_new_def new_channel_def)
  then have reach: "csys_reach sane ?d" by (rule csys_reach.step) (rule csys_step.drops)
  have "\<not> senders (cs_rx ?d)" "pending (cs_rx ?d) = []" "co_called (cs_co ?d) = []" "cs_submitted ?d = [(5, Op_Size 3)]"
    by (simp_all add: csys_new_def new_channel_def compio_new_def Let_def)
  with compio_drop_loses_callbacks [OF reach] reach show ?thesis by (intro exI [of _ ?d]) simp
qed

text \<open>
  C38: Every reply the backend delivers has the shape its op promises, given that compio hands
  a buffer back filled within its capacity: bytes or a count no larger than asked for, the
  length of the payload for a write, and so on.
\<close>

theorem compio_replies_typed:
  assumes "csys_reach sane s" and "(c, oper, Inr r) \<in> set (co_called (cs_co s))"
  shows "answers oper r"
  using csys_reach_typed [OF assms(1)] assms(2) by (auto simp: replies_typed_def)

text \<open>A read of four bytes that compio answers in two pieces.\<close>

definition read_done_run :: csys where
  "read_done_run = cplay sane (reading_acts 4 @ [C_run 0 (Some (An_read (Inr 2) (Vec_buf [7, 8] 4))),
     C_run 0 (Some (An_read (Inr 1) (Vec_buf [7, 8, 9] 4))), C_run 0 (Some (An_read (Inr 0) (Vec_buf [7, 8, 9] 4)))])"

theorem compio_replies_typed_witness:
  "(11, Op_ReadAt 1 0 (Dest_Alloc 4), Inr (Reply_Bytes [7, 8, 9])) \<in> set (co_called (cs_co read_done_run)) \<and>
   answers (Op_ReadAt 1 0 (Dest_Alloc 4)) (Reply_Bytes [7, 8, 9])"
proof -
  have "csys_reach sane read_done_run" by (simp add: read_done_run_def cplay_reach)
  moreover have called: "(11, Op_ReadAt 1 0 (Dest_Alloc 4), Inr (Reply_Bytes [7, 8, 9])) \<in> set (co_called (cs_co read_done_run))"
    by code_simp
  ultimately have "answers (Op_ReadAt 1 0 (Dest_Alloc 4)) (Reply_Bytes [7, 8, 9])" by (rule compio_replies_typed)
  with called show ?thesis by blast
qed

text \<open>
  C31: What a cancellation does.  Received while the op's task has not been polled yet, or
  while it awaits a chunk of a read that turns out not to be empty, it settles the op with
  \<open>ECANCELED\<close> the next time the task runs: no further chunk is read, no file is touched, and
  the task is gone.  This includes the chunk that fills the buffer, so a read whose bytes
  are all there is cancelled, although \<open>Driver::cancel\<close> says that an op the kernel already
  completed delivers its result.  Received at any other await, or when the chunk failed or
  was empty, it changes nothing: the task goes on as it would have.
\<close>

theorem compio_cancel_settles:
  assumes "csys_reach ok s" and "n < length (co_tasks (cs_co s))" and "t = co_tasks (cs_co s) ! n"
    and "co = handle_message (Msg_Cancel (ct_id t)) (cs_co s)" and "run_task n a co = Some co'"
  shows "if (\<exists>oper oid. ct_at t = T_start oper oid) \<or>
      (\<exists>f pos len m buf. ct_at t = T_reading f pos len \<and> a = Some (An_read (Inr m) buf) \<and> 0 < m)
    then co_called co' = co_called (cs_co s) @ [(ct_cb t, ct_op t, Inl cancelled_error)] \<and>
      co_files co' = co_files (cs_co s) \<and> co_tasks co' = remove_at (co_tasks (cs_co s)) n
    else \<exists>co2. run_task n a (cs_co s) = Some co2 \<and> co_called co' = co_called co2 \<and>
      co_files co' = co_files co2 \<and> co_tasks co' = co_tasks co2"
proof -
  have "ct_id t \<in> dom (co_flags (cs_co s))"
    using csys_reach_ok [OF assms(1)] assms(2,3) by (simp add: csys_ok_def)
  with assms(4) have co: "co = (cs_co s)\<lparr>co_flags := (co_flags (cs_co s))(ct_id t \<mapsto> True)\<rparr>" by auto
  then have flag: "flag_set co (ct_id t)" and t: "co_tasks co ! n = t" using assms(3) by (simp_all add: flag_set_def)
  obtain out where co': "co' = task_did n out co" and poll: "poll_task (ct_at t) a True (co_files co) = Some out"
    using run_task_did [OF assms(5)] flag t by auto
  show ?thesis
  proof (cases "(\<exists>oper oid. ct_at t = T_start oper oid) \<or>
      (\<exists>f pos len m buf. ct_at t = T_reading f pos len \<and> a = Some (An_read (Inr m) buf) \<and> 0 < m)")
    case True
    with poll have "out = (Settled (Inl cancelled_error), co_files co)"
      by (cases a) (auto simp: start_task_def read_done_def read_more_def)
    with co' co t True show ?thesis by (simp only: if_True) (simp add: task_did_def Let_def)
  next
    case False
    with poll have "poll_task (ct_at t) a c (co_files co) = Some out" for c by (rule poll_task_flag)
    then have "run_task n a (cs_co s) = Some (task_did n out (cs_co s))"
      using assms(3) co by (simp add: run_task_def Let_def)
    with co' co False show ?thesis
      by (simp only: if_False) (auto simp: task_did_def Let_def split: outcome.split)
  qed
qed

theorem compio_cancel_settles_witness:
  "\<exists>s co'. csys_reach sane s \<and>
     run_task 0 (Some (An_read (Inr 2) (Vec_buf [7, 8] 2))) (handle_message (Msg_Cancel 2) (cs_co s)) = Some co' \<and>
     (11, Op_ReadAt 1 0 (Dest_Alloc 2), Inl cancelled_error) \<in> set (co_called co')"
proof -
  let ?s = "cplay sane (reading_acts 2)" and ?a = "Some (An_read (Inr 2) (Vec_buf [7, 8] 2))"
  have tasks: "co_tasks (cs_co ?s) = [\<lparr>ct_id = 2, ct_cb = 11, ct_op = Op_ReadAt 1 0 (Dest_Alloc 2),
      ct_rq = Some (Rq_read_at 3 (Vec_buf [] 2) 0), ct_at = T_reading 3 0 2\<rparr>]" by code_simp
  have "run_task 0 ?a (handle_message (Msg_Cancel 2) (cs_co ?s)) \<noteq> None" by code_simp
  then obtain co' where run: "run_task 0 ?a (handle_message (Msg_Cancel 2) (cs_co ?s)) = Some co'" by blast
  have "co_called co' = co_called (cs_co ?s) @ [(11, Op_ReadAt 1 0 (Dest_Alloc 2), Inl cancelled_error)]"
    using compio_cancel_settles [OF cplay_reach [of sane "reading_acts 2"] _ refl refl, of 0 ?a co'] run by (simp add: tasks)
  with run cplay_reach show ?thesis by (intro exI [of _ ?s] exI [of _ co']) simp
qed

end
