(* ===== verification/Compio_Read.thy ===== *)
theory Compio_Read
  imports Compio Aio_Read
begin

text \<open>
  What \<open>read_up_to\<close> returns.  compio answers each read with as many bytes as it likes, but
  none only at the end of the file; read by read the task gathers exactly the bytes it was
  asked for, in its own vector or in the caller's memory.
\<close>

section \<open>compio reading a stable file\<close>

fun buf_cap :: "cbuf \<Rightarrow> nat" where
  "buf_cap (Vec_buf bs cap) = cap"
| "buf_cap (Raw_buf p cap n) = cap"

text \<open>A buffer to whose initialised part bytes have been added, and what that does to memory.\<close>

fun advance_buf :: "byte list \<Rightarrow> cbuf \<Rightarrow> cbuf" where
  "advance_buf new (Vec_buf bs cap) = Vec_buf (bs @ new) cap"
| "advance_buf new (Raw_buf p cap n) = Raw_buf p cap (n + length new)"

fun landed :: "byte list \<Rightarrow> cbuf \<Rightarrow> mem \<Rightarrow> mem" where
  "landed new (Vec_buf bs cap) m = m"
| "landed new (Raw_buf p cap n) m = store (p + n) new m"

text \<open>
  What \<open>read_up_to\<close> relies on, for a regular file nobody changes: \<open>read_at\<close> fills the buffer
  from its initialised length on (the comment on \<open>read_up_to\<close>) with a prefix of what is left
  of the file, as short as it likes but empty only without room or at the end.  \<open>mm\<close> is the
  memory of the process in compio's state.
\<close>

definition reads_on ::
  "(request \<Rightarrow> 'w \<Rightarrow> answer \<times> 'w) \<Rightarrow> ('w \<Rightarrow> mem) \<Rightarrow> fd \<Rightarrow> byte list \<Rightarrow> bool" where
  "reads_on env mm f data \<longleftrightarrow> length data < 2 ^ 63 \<and>
     (\<forall>w buf pos. unat pos < 2 ^ 63 \<longrightarrow> (\<exists>m bs w'. env (Rq_read_at f buf pos) w = (An_read (Inr m) (advance_buf bs buf), w') \<and>
        chunk_ok data pos (buf_cap buf - buf_len buf) m bs \<and> mm w' = landed bs buf (mm w)))"

section \<open>The loop\<close>

text \<open>The buffer of a read and memory once the first \<open>k\<close> bytes of \<open>bs\<close> are in place.\<close>

fun buf_after :: "dest \<Rightarrow> byte list \<Rightarrow> nat \<Rightarrow> cbuf" where
  "buf_after (Dest_Alloc len) bs k = Vec_buf (take k bs) len"
| "buf_after (Dest_Into p len) bs k = Raw_buf p len k"

fun mem_after :: "dest \<Rightarrow> byte list \<Rightarrow> mem \<Rightarrow> mem" where
  "mem_after (Dest_Alloc len) bs m = m"
| "mem_after (Dest_Into p len) bs m = store p bs m"

fun dest_len :: "dest \<Rightarrow> nat" where
  "dest_len (Dest_Alloc len) = len"
| "dest_len (Dest_Into p len) = len"

text \<open>The reply to a sized read that found \<open>bs\<close>.\<close>

fun sized_reply :: "dest \<Rightarrow> byte list \<Rightarrow> reply" where
  "sized_reply (Dest_Alloc len) bs = Reply_Bytes bs"
| "sized_reply (Dest_Into p len) bs = Reply_Read (length bs)"

lemma buf_after_len: "k \<le> length bs \<Longrightarrow> buf_len (buf_after dst bs k) = k \<and> buf_cap (buf_after dst bs k) = dest_len dst"
  by (cases dst) simp_all

lemma buf_after_reply: "buf_reply (buf_after dst bs (length bs)) = sized_reply dst bs"
  by (cases dst) simp_all

lemma advance_after:
  "k + m \<le> length bs \<Longrightarrow> advance_buf (take m (drop k bs)) (buf_after dst bs k) = buf_after dst bs (k + m)"
  by (cases dst) (simp_all add: take_add)

lemma store_append: "store (p + length as) bs (store p as m) = store p (as @ bs) m"
  by (auto simp: store_def nth_append fun_eq_iff)

lemma landed_after:
  assumes "k \<le> length bs"
  shows "landed (take m (drop k bs)) (buf_after dst bs k) (mem_after dst (take k bs) mem) = mem_after dst (take (k + m) bs) mem"
proof (cases dst)
  case (Dest_Into p len)
  have "store (p + length (take k bs)) (take m (drop k bs)) (store p (take k bs) mem) = store p (take k bs @ take m (drop k bs)) mem"
    by (rule store_append)
  with assms Dest_Into show ?thesis by (simp add: take_add min_absorb2)
qed simp

lemma drive_settled: "drive_task env (Settled r, fs) w = Some (r, fs, w)"
  by (simp add: drive_task.simps)

lemma drive_read:
  assumes "env (Rq_read_at f buf off) w = (An_read (Inr n) buf', w')"
  shows "drive_task env (Awaits (Rq_read_at f buf off) (T_reading f pos len), fs) w =
    drive_task env (read_done f pos len (Inr n) buf' False, fs) w'"
  using assms by (subst drive_task.simps) simp

text \<open>One read on a buffer that lacks something: more is in place, or all there is.\<close>

lemma drive_chunk:
  assumes env: "reads_on env mm f data" and pos: "unat pos < 2 ^ 63"
    and bs: "bs = take (dest_len dst) (rest_of data pos)" and k: "k \<le> length bs" "k < dest_len dst"
    and mem: "mm w = mem_after dst (take k bs) mem"
  shows "\<exists>m w'. k + m \<le> length bs \<and> (m = 0 \<longrightarrow> k = length bs) \<and> mm w' = mem_after dst (take (k + m) bs) mem \<and>
    drive_task env (read_more f pos (dest_len dst) (buf_after dst bs k) False, fs) w =
    drive_task env (read_done f pos (dest_len dst) (Inr m) (buf_after dst bs (k + m)) False, fs) w'"
proof -
  from env have small: "length data < 2 ^ 63" by (simp add: reads_on_def)
  let ?off = "pos + of_nat k" and ?buf = "buf_after dst bs k"
  from k bs have rest: "k \<le> length (rest_of data pos)" by simp
  have "unat ?off < 2 ^ 63"
  proof (cases "k = 0")
    case False
    with rest small have "unat pos + k < 2 ^ 63" by (auto simp: rest_of_def)
    then show ?thesis by (simp add: unat_pos_add)
  qed (use pos in simp)
  with env obtain m new w' where ans: "env (Rq_read_at f ?buf ?off) w = (An_read (Inr m) (advance_buf new ?buf), w')"
    and chunk: "chunk_ok data ?off (buf_cap ?buf - buf_len ?buf) m new" and mem': "mm w' = landed new ?buf (mm w)"
    unfolding reads_on_def by blast
  have left: "rest_of data ?off = drop k (rest_of data pos)" by (rule rest_of_later [OF small rest])
  with chunk k bs have m: "k + m \<le> length bs" "m = 0 \<longrightarrow> k = length bs"
    by (auto simp: chunk_ok_def buf_after_len)
  have "new = take m (drop k bs)"
    using chunk left m(1) by (auto simp: chunk_ok_def bs drop_take buf_after_len min_absorb1)
  with mem' mem k(1) m(1) have "mm w' = mem_after dst (take (k + m) bs) mem" "advance_buf new ?buf = buf_after dst bs (k + m)"
    by (simp_all add: landed_after advance_after)
  moreover have "read_more f pos (dest_len dst) ?buf False = Awaits (Rq_read_at f ?buf ?off) (T_reading f pos (dest_len dst))"
    using k by (simp add: read_more_def buf_after_len)
  ultimately show ?thesis using m drive_read [where env = env and pos = pos and fs = fs, OF ans]
    by (intro exI [of _ m] exI [of _ w']) simp
qed

lemma drive_sized_read:
  assumes env: "reads_on env mm f data" and pos: "unat pos < 2 ^ 63"
    and bs: "bs = take (dest_len dst) (rest_of data pos)"
  shows "k \<le> length bs \<Longrightarrow> mm w = mem_after dst (take k bs) mem \<Longrightarrow>
    \<exists>w'. drive_task env (read_more f pos (dest_len dst) (buf_after dst bs k) False, fs) w =
      Some (Inr (sized_reply dst bs), fs, w') \<and> mm w' = mem_after dst bs mem"
proof (induction "length bs - k" arbitrary: k w rule: less_induct)
  case less
  show ?case
  proof (cases "k < dest_len dst")
    case False
    with less.prems bs have "k = length bs" by simp
    with False less.prems(2) show ?thesis
      by (simp add: read_more_def buf_after_len buf_after_reply drive_settled)
  next
    case True
    from drive_chunk [OF env pos bs less.prems(1) True less.prems(2)] obtain m w1 where
      m: "k + m \<le> length bs" "m = 0 \<longrightarrow> k = length bs" "mm w1 = mem_after dst (take (k + m) bs) mem"
      and run: "drive_task env (read_more f pos (dest_len dst) (buf_after dst bs k) False, fs) w =
        drive_task env (read_done f pos (dest_len dst) (Inr m) (buf_after dst bs (k + m)) False, fs) w1" by blast
    show ?thesis
    proof (cases "m = 0")
      case True
      with m run show ?thesis by (simp add: read_done_def buf_after_reply drive_settled)
    next
      case False
      with m(1) less.hyps [OF _ m(1,3)] run show ?thesis by (simp add: read_done_def)
    qed
  qed
qed

lemma start_sized_read:
  assumes "fs h = Some f"
  shows "start_task (Op_ReadAt h pos dst) oid False fs = (read_more f pos (dest_len dst) (buf_after dst bs 0) False, fs)"
  using assms by (cases dst) (simp_all add: start_task_def lookup_def dest_buf_def)

text \<open>A sized read delivers the bytes of the file from the position on.\<close>

lemma compio_sized_read:
  assumes "reads_on env mm f data" and "unat pos < 2 ^ 63" and "fs h = Some f"
    and "bs = take (dest_len dst) (rest_of data pos)"
  shows "\<exists>w'. drive_task env (start_task (Op_ReadAt h pos dst) oid False fs) w =
    Some (Inr (sized_reply dst bs), fs, w') \<and> mm w' = mem_after dst bs (mm w)"
proof -
  have "mm w = mem_after dst (take 0 bs) (mm w)" by (cases dst) (auto simp: store_def fun_eq_iff)
  from drive_sized_read [OF assms(1,2,4) _ this] show ?thesis
    unfolding start_sized_read [where fs = fs and h = h and bs = bs, OF assms(3)] by simp
qed

section \<open>A compio to try it on\<close>

text \<open>
  The file \<open>data\<close> behind every descriptor, at most \<open>most\<close> bytes a read; the state is the
  memory of the process.
\<close>

definition piecewise :: "nat \<Rightarrow> byte list \<Rightarrow> request \<Rightarrow> mem \<Rightarrow> answer \<times> mem" where
  "piecewise most data rq w = (case rq of
       Rq_read_at f buf pos \<Rightarrow>
         (let bs = take (min most (buf_cap buf - buf_len buf)) (rest_of data pos)
          in (An_read (Inr (length bs)) (advance_buf bs buf), landed bs buf w))
     | _ \<Rightarrow> (An_unit (Inr ()), w))"

lemma piecewise_reads:
  assumes "0 < most" and "length data < 2 ^ 63"
  shows "reads_on (piecewise most data) (\<lambda>w. w) f data"
proof -
  have "chunk_ok data pos room (length (take (min most room) (rest_of data pos))) (take (min most room) (rest_of data pos))" for pos room
    using assms(1) by (auto simp: chunk_ok_def min_def)
  with assms(2) show ?thesis by (simp add: reads_on_def piecewise_def Let_def) blast
qed

end
