(* ===== verification/Probes.thy ===== *)
theory Probes
  imports Frontend Fast_Path
begin

text \<open>
  The calibration probes of \<open>crates/turbofile-py/src/lib.rs\<close> that do not go through the driver.
  The ring of \<open>probe_inline_read\<close> belongs to the \<open>io_uring\<close> crate and is a parameter (\<open>uring\<close>).
\<close>

definition probe_ffi :: u64 where
  "probe_ffi = 0"

text \<open>The bytes object is allocated, filled with zeros, at \<open>base\<close>.\<close>

definition probe_pread_nowait ::
  "'k page_kernel \<Rightarrow> fd \<Rightarrow> addr \<Rightarrow> nat \<Rightarrow> 'k proc \<Rightarrow> (py_error + py_value) \<times> 'k proc" where
  "probe_pread_nowait K f base len s =
     (case call (nowait K f len 0) (put_bytes base (replicate len 0) s) of
        (Inl e, s1) \<Rightarrow> (Inl (io_err_to_pyerr (Os e)), s1)
      | (Inr (n, bs), s1) \<Rightarrow>
          (let s2 = put_bytes base bs s1 in (Inr (Py_bytes (get_bytes base len s2)), s2)))"

text \<open>
  What \<open>probe_inline_read\<close> calls of \<open>io_uring\<close>: a new ring with room for so many entries, the
  push of a read at offset 0, which fails on a full queue, the submission that waits for a
  completion (and puts bytes into memory, at an address each), and the next completion's result,
  an errno where it is negative.
\<close>

record ('r, 'k) uring =
  ur_new :: "nat \<Rightarrow> 'k \<Rightarrow> (io_error + 'r) \<times> 'k"
  ur_push :: "fd \<Rightarrow> addr \<Rightarrow> u32 \<Rightarrow> 'r \<Rightarrow> 'r option"
  ur_wait :: "'r \<Rightarrow> 'k \<Rightarrow> (io_error + unit) \<times> (addr \<times> byte list) list \<times> 'r \<times> 'k"
  ur_next :: "'r \<Rightarrow> ((errno + nat) \<times> 'r) option"

text \<open>The thread's ring is made by the first call and kept for the next ones.\<close>

definition probe_ring :: "('r, 'k) uring \<Rightarrow> 'r option \<Rightarrow> 'k proc \<Rightarrow> (io_error + 'r) \<times> 'k proc" where
  "probe_ring U ring s = (case ring of
       Some r \<Rightarrow> (Inr r, s)
     | None \<Rightarrow> (case ur_new U 64 (proc_world s) of (r, w) \<Rightarrow> (r, s\<lparr>proc_world := w\<rparr>)))"

definition inline_read ::
  "('r, 'k) uring \<Rightarrow> fd \<Rightarrow> addr \<Rightarrow> nat \<Rightarrow> 'r \<Rightarrow> 'k proc \<Rightarrow> (py_error + unit) \<times> 'r \<times> 'k proc" where
  "inline_read U f base len r s = (case ur_push U f base (of_nat len) r of
       None \<Rightarrow> (Inl (Py_RuntimeError ''probe submission queue full''), r, s)
     | Some r1 \<Rightarrow>
         (case ur_wait U r1 (proc_world s) of
            (res, writes, r2, w) \<Rightarrow>
              (let s2 = fold (\<lambda>(p, bs). put_bytes p bs) writes (s\<lparr>proc_world := w\<rparr>)
               in case res of
                    Inl e \<Rightarrow> (Inl (io_err_to_pyerr e), r2, s2)
                  | Inr _ \<Rightarrow>
                      (case ur_next U r2 of
                         None \<Rightarrow> (Inl (Py_RuntimeError ''probe completion missing''), r2, s2)
                       | Some (Inl n, r3) \<Rightarrow> (Inl (io_err_to_pyerr (Os n)), r3, s2)
                       | Some (Inr _, r3) \<Rightarrow> (Inr (), r3, s2)))))"

definition probe_inline_read ::
  "('r, 'k) uring \<Rightarrow> fd \<Rightarrow> addr \<Rightarrow> nat \<Rightarrow> 'r option \<Rightarrow> 'k proc \<Rightarrow> (py_error + py_value) \<times> 'r option \<times> 'k proc" where
  "probe_inline_read U f base len ring s =
     (case probe_ring U ring (put_bytes base (replicate len 0) s) of
        (Inl e, s1) \<Rightarrow> (Inl (io_err_to_pyerr e), None, s1)
      | (Inr r, s1) \<Rightarrow>
          (case inline_read U f base len r s1 of
             (Inl e, r', s2) \<Rightarrow> (Inl e, Some r', s2)
           | (Inr _, r', s2) \<Rightarrow> (Inr (Py_bytes (get_bytes base len s2)), Some r', s2)))"

definition probe_resolved_future ::
  "'k posix \<Rightarrow> (nat \<Rightarrow> bool option) \<Rightarrow> (fd \<Rightarrow> bool) \<Rightarrow> nat \<Rightarrow> nat \<Rightarrow> 'k front \<Rightarrow> 'x py
     \<Rightarrow> (py_error + nat) \<times> 'k front \<times> 'x py" where
  "probe_resolved_future K is_closed add_reader key fut s p =
     (case bridge_for K is_closed add_reader key s of
        (b, s) \<Rightarrow>
          (case set_result fut Py_None p of
             (Inl e, p) \<Rightarrow> (Inl e, s, p)
           | (Inr _, p) \<Rightarrow> (Inr fut, s, p)))"

text \<open>A short read is not cut off: the rest of the bytes object stays zero.\<close>

lemma probe_pread_padded:
  assumes "nowait K f len 0 (proc_world s) = (Inr (n, bs), w)" and "length bs = n" and "n \<le> len"
  shows "fst (probe_pread_nowait K f base len s) = Inr (Py_bytes (bs @ replicate (len - n) 0))"
proof -
  have "map (\<lambda>i. if i < n then bs ! i else 0) [0..<len] = bs @ replicate (len - n) 0"
    using assms(2,3) by (intro nth_equalityI) (auto simp: nth_append)
  moreover have "map (\<lambda>i. proc_mem (put_bytes base bs ((put_bytes base (replicate len 0) s)\<lparr>proc_world := w\<rparr>)) (base + i)) [0..<len] =
      map (\<lambda>i. if i < n then bs ! i else 0) [0..<len]"
    using assms(2) by (intro map_cong) (auto simp: put_bytes_def)
  ultimately show ?thesis
    using assms(1) by (simp add: probe_pread_nowait_def call_def put_bytes_def get_bytes_def Let_def)
qed

text \<open>
  The comment in \<open>probe_inline_read\<close> says that its wait does not return before the kernel is
  done with the buffer.  It returns at once when the wait fails: the error goes to Python,
  which drops the bytes object, and the ring keeps whatever it has submitted, so that the
  next call takes the completion of this one for its own.
\<close>

lemma probe_wait_fails:
  assumes "ur_push U f base (of_nat len) r = Some r1" and "ur_wait U r1 (proc_world s) = (Inl e, [], r2, w)"
    and "ur_push U f' base' (of_nat len') r2 = Some r3" and "ur_wait U r3 w = (Inr (), [], r4, w')"
    and "ur_next U r4 = Some (Inr n, r5)"
  shows "\<exists>s' s''. probe_inline_read U f base len (Some r) s = (Inl (io_err_to_pyerr e), Some r2, s') \<and>
    probe_inline_read U f' base' len' (Some r2) s' = (Inr (Py_bytes (replicate len' 0)), Some r5, s'')"
proof -
  let ?s = "(put_bytes base (replicate len 0) s)\<lparr>proc_world := w\<rparr>"
  have "probe_inline_read U f base len (Some r) s = (Inl (io_err_to_pyerr e), Some r2, ?s)"
    using assms(1,2) by (simp add: probe_inline_read_def probe_ring_def inline_read_def Let_def put_bytes_def)
  moreover have "get_bytes base' len' ((put_bytes base' (replicate len' 0) ?s)\<lparr>proc_world := w'\<rparr>) = replicate len' 0"
    by (intro nth_equalityI) (simp_all add: get_bytes_def put_bytes_def)
  with assms(3-5) have "\<exists>s''. probe_inline_read U f' base' len' (Some r2) ?s =
      (Inr (Py_bytes (replicate len' 0)), Some r5, s'')"
    by (simp add: probe_inline_read_def probe_ring_def inline_read_def Let_def put_bytes_def)
  ultimately show ?thesis by blast
qed

end
