(* ===== verification/Spec2Isabelle.thy ===== *)
theory Spec2Isabelle
  imports Aio_Correct Aio_Bounds Aio_Memory Aio_Read Aio_Write Aio_Typed Fast_Claims Bridge_Correct
    Front_Correct Compio_Correct Backends Probes
begin

text \<open>
  Turbofile, asynchronous file I/O for Python's asyncio: a model of its Rust code and the
  theorems that make it correct.  Paths are relative to \<open>src/\<close>.

  \<^bold>\<open>The program.\<close>  Python calls a function of the extension module
  (\<open>crates/turbofile-py/src/lib.rs\<close>), which makes a future and submits an op with a callback
  over a channel to one driver thread (\<open>crates/turbofile-core/src/lib.rs\<close>).  The thread runs
  one of two backends: POSIX AIO with a file table, a queue and helper threads for opens and
  closes (\<open>darwin_aio.rs\<close>), or compio, a task per op on one thread (\<open>compio_backend.rs\<close>).
  When an op is done the backend calls the callback, which pushes a completion into the
  queue of the event loop it came from and rings the loop's doorbell (\<open>LoopBridge\<close>); the
  loop's drain takes the queue and settles the futures.  Before any of that Python may try
  the page cache on its own thread (\<open>crates/turbofile-py/src/fast_path\<close>).

  \<^bold>\<open>Where it is modelled.\<close>
  \<^item> \<open>Prelude\<close>: number types, \<open>Vec\<close>, \<open>VecDeque\<close> and integer operations of Rust's standard library.
  \<^item> \<open>Core\<close>: \<open>turbofile-core/src/lib.rs\<close>; errors as values (\<open>io_error\<close>, \<open>cancelled_error\<close>, \<open>bad_handle\<close>),
    \<open>op\<close>, \<open>reply\<close>, \<open>payload\<close>, \<open>dest\<close>, \<open>open_spec\<close>; channels of \<open>flume\<close>; \<open>submit\<close> and \<open>cancel\<close>; the
    kernel as a record of functions (\<open>kernel\<close>).  \<open>answers\<close> says which reply an op asks for.
  \<^item> \<open>Aio_Job\<close>: \<open>ReadJob\<close>, \<open>WriteJob\<close>, \<open>FsyncJob\<close>, \<open>step\<close>, the control block of a chunk
    (\<open>control_block\<close>), and \<open>execute_sync\<close>'s loop (\<open>sync_chunk\<close>, \<open>sync_loop\<close>).
  \<^item> \<open>Aio_Driver\<close>: the state of \<open>Driver\<close> (\<open>aio\<close>) and its operations, each a definition of the
    same name: \<open>handle_op\<close>, \<open>open_then\<close>, \<open>handle_opened\<close>, \<open>enqueue\<close>, \<open>submit_ready\<close>, \<open>finish\<close>,
    \<open>close\<close>, \<open>cancel_op\<close> and the rest.  \<open>None\<close> is a call that does not return.
  \<^item> \<open>Aio_Run\<close>: \<open>Driver::run\<close> with \<open>wait_idle\<close> and \<open>drain_channel\<close> (\<open>run_step\<close>), \<open>helper_loop\<close>
    (\<open>helper_body\<close>) and the submitting threads as one transition system, \<open>sys_step\<close>, with every
    interleaving, for any number of helpers (the source starts \<open>open_threads\<close> of them);
    \<open>reachable\<close> are its states.  \<open>Aio_Play\<close> runs it on a small executable kernel.
  \<^item> \<open>Compio\<close>: \<open>compio_backend.rs\<close>; a task is the await it stands at (\<open>task\<close>), \<open>start_op\<close> and
    \<open>resume_task\<close> run it from one await to the next, \<open>handle_message\<close> is a turn of \<open>run\<close>,
    \<open>run_ends\<close> its end; \<open>csys_step\<close> interleaves submitters, messages and tasks.  \<open>Compio_Play\<close>
    runs it, with the answers of compio as part of the script.
  \<^item> \<open>Fast_Path\<close>: \<open>fast_path/mod.rs\<close> over the \<open>Inner\<close> of \<open>linux.rs\<close>, \<open>darwin.rs\<close> and \<open>none.rs\<close>
    (the record \<open>inner\<close> with one instance per platform), and \<open>try_read_file\<close>.
  \<^item> \<open>Python\<close>, \<open>Settle\<close>: futures, exceptions and values; \<open>deliver\<close>, \<open>settle\<close>, \<open>build_value\<close> and what
    each exported function submits (\<open>py_open\<close>, \<open>py_read\<close>, ...).
  \<^item> \<open>Read_Group\<close>: \<open>read_parallel\<close> and \<open>ReadGroup::chunk_done\<close>, cut in two at its lock.
  \<^item> \<open>Bridge\<close>: \<open>LoopBridge::complete\<close>, the doorbell and \<open>DrainHandle::__call__\<close> as threads that
    interleave at each access to the queue, the armed flag or the doorbell (\<open>bridge_step\<close>).
  \<^item> \<open>Frontend\<close>: the driver of the process, the bridge of the running loop and its pipe,
    \<open>submit\<close>, \<open>cancel_ops\<close>, \<open>backend_name\<close>.  \<open>Probes\<close>: the calibration probes.
  \<^item> \<open>Composition\<close>: the whole program, \<open>prog_step\<close>.  A step of a backend starts a call of \<open>complete\<close>
    for every callback it invokes, on the bridge of the loop the op came from; a step of a
    drain delivers to the futures; submissions by exported functions make new ones.

  \<^bold>\<open>How the proofs are built.\<close>
  \<^item> \<open>Aio_Ledger\<close>: every operation conserves callbacks and descriptors, held or spent.
    \<open>Aio_Table\<close>: the \<open>ops\<close> counters of the file table count the jobs.  \<open>Aio_Slots\<close>: the slots.
    \<open>Aio_System\<close> puts the books of all threads together; \<open>Aio_Progress\<close> shows that nothing gets
    stuck.  Their theorems are in \<open>Aio_Correct\<close>.
  \<^item> Interfaces are locales.  \<open>driver_frame\<close> (\<open>Aio_Frame\<close>) and its extensions \<open>msg_frame\<close> and
    \<open>run_frame\<close> (\<open>Aio_Reach\<close>): a relation that holds across the few updates the operations are
    made of holds across every operation, message and run; interpreted for what links a
    driver to its threads, for handles that are gone, for the pace of the wait, for mail and
    for the log, which only grows.
    \<open>job_law\<close> (\<open>Aio_Bounds\<close>): a law of jobs kept by \<open>step\<close>, and one of memory kept by their
    transfers, hold across everything the driver does; interpreted for the bounds of transfers and,
    in \<open>Aio_Memory\<close>, for staying inside memory on loan.
    \<open>fast_inner\<close> and \<open>fast_keeps\<close> (\<open>Fast_Correct\<close>, \<open>Fast_Views\<close>): what \<open>FastPath\<close> needs of an \<open>Inner\<close>; interpreted for all three platforms.  \<open>backend\<close>
    (\<open>Futures\<close>) and its extension \<open>program\<close> (\<open>Composition\<close>): what the bridges and futures
    need of a driver, and what the program then does; interpreted for both backends, in
    \<open>Aio_Typed\<close> and \<open>Compio_Correct\<close>.
  \<^item> \<open>Aio_Read\<close> and \<open>Aio_Write\<close>: what reads return and writes leave behind, on kernels that make
    the promises \<open>serves\<close> (prefixes of what is left of a regular file, empty only at its end,
    at positions \<open>off_t\<close> can hold) and \<open>takes\<close> (a nonempty prefix of what they were handed, or an error).
  \<^item> \<open>Aio_Typed\<close>: type soundness of the AIO backend.  \<open>Aio_Memory\<close>: it writes only into buffers
    it has been lent.  \<open>Compio_Correct\<close>: the same properties but the last for compio.
    \<open>Compio_Read\<close>: what \<open>read_up_to\<close> reads when compio reads short (\<open>reads_on\<close>).  \<open>Backends\<close>:
    \<open>execute_sync\<close> and compio agree on sized reads, and call for call on appends.
  \<^item> \<open>Bridge_Correct\<close>: tokens that count wakes, and the refinement of a mailbox.
    \<open>Front_Correct\<close>: replies fit their consumers; read groups amount to one read.
  \<^item> \<open>Composition\<close>: the books of the program (what has arrived at a bridge is what the backend
    replied for its loop; what was delivered has settled its future), how it comes to rest,
    and that every run of a backend is part of a run of the program.  This theory: futures
    hold replies to their own ops, and every op ends as a settled future, on either backend.
    Ops of \<open>read_parallel\<close>, whose callbacks go to a read group, and \<open>read_file\<close> with a
    continuation have their own theorems (\<open>Front_Correct\<close>) and are not part of \<open>prog_step\<close>.

  \<^bold>\<open>Loops.\<close>  \<open>submit_ready\<close>, \<open>step_by\<close> and \<open>resident_loop\<close> end by a measure.  Loops that the kernel
  can keep going (\<open>sync_loop\<close>, \<open>fill_loop\<close>, \<open>probe_loop\<close>, \<open>append_loop\<close>, \<open>drive_task\<close>) are partial
  functions in the option type: \<open>None\<close> is not returning, and that they return is part of the
  theorems about them.  There is no fuel.  A write the kernel answers with zero for ever
  does not return; \<open>zero_write_never_returns\<close> in \<open>Aio_Write\<close> shows it, and \<open>takes\<close> rules it out.

  \<^bold>\<open>Parameters.\<close>  The kernel (\<open>kernel\<close>, \<open>page_kernel\<close>, \<open>posix\<close>), the ring of the \<open>io_uring\<close> crate
  (\<open>uring\<close>), compio's answers to awaits, the event loop's \<open>is_closed\<close> and \<open>add_reader\<close>, and the
  continuation of \<open>read_file\<close> in Python.  What a theorem relies on is a hypothesis: \<open>bounded\<close>
  (a transfer never exceeds what was asked for), \<open>serves\<close>, \<open>takes\<close>, \<open>sane\<close> (compio hands back the
  buffer it was given), \<open>reads_on\<close> (its reads append a prefix of what is left of the file),
  \<open>bell_ok\<close> (a pipe holds at least a byte), and so on.  Two things are built in: a dropped compio
  runtime drops its tasks (\<open>run_ends\<close>), and the bytes of an AIO read reach memory when the
  request is reaped (\<open>deliver_bytes\<close> stands for the kernel's copy and models no line of the
  source).  Callbacks, futures and Python objects are named by numbers, memory is a function
  from addresses to bytes.

  \<^bold>\<open>Not modelled.\<close>  Failures to create threads after the first; the instant at which the last
  reference to a replaced bridge goes away; \<open>EINTR\<close> inside the one-byte write of the doorbell,
  whose retry has no effect of its own; Rust's globals (\<open>OnceLock\<close>), the registration of the
  module and conversions to Python objects that cannot fail; what Python and compio do
  inside; \<open>append_all\<close> on systems other than Unix; the Python package around the extension, tests and benchmarks.
\<close>

section \<open>From an op to its future\<close>

text \<open>Runs to try the properties on: an open, a size and a close; and an op that does nothing.\<close>

definition three_ops :: "disk system" where
  "three_ops = play (disk_kernel 2) 1 (disk_os [1, 2, 3, 4, 5, 6])
     [Submit (Op_Open ''a'' read_spec) 10, Drive 20, Submit (Op_Size 1) 11, Submit (Op_Close 1) 12, Drive 20,
      Drop_driver, Drive 20]"

lemma three_ops_run:
  "at three_ops = Halted \<and> asked three_ops = [(10, Op_Open ''a'' read_spec), (11, Op_Size 1), (12, Op_Close 1)] \<and>
   aio_replied three_ops = [(10, Inr (Reply_Handle 1 6 3)), (11, Inr (Reply_Size 6)), (12, Inr Reply_Unit)]"
  by code_simp

lemma three_ops_plain: "\<forall>(c, oper) \<in> set (asked three_ops). plain_op oper"
proof -
  have "plain_op (Op_Open ''a'' read_spec)"
    unfolding plain_op_def by (rule exI [of _ "E_open ''a'' True False False False False False"])
      (simp add: py_open_def read_spec_def default_spec_def)
  moreover have "plain_op (Op_Size 1)"
    unfolding plain_op_def by (rule exI [of _ "E_size 1"]) (simp add: py_size_def)
  moreover have "plain_op (Op_Close 1)"
    unfolding plain_op_def by (rule exI [of _ "E_close 1"]) (simp add: py_close_def)
  ultimately show ?thesis using three_ops_run by simp
qed

abbreviation no_hook :: "unit hook" where
  "no_hook \<equiv> (\<lambda>_ _ _ _ s. (Inr (), s))"

lemma three_ops_hosted:
  "\<exists>s. prog_reach (aio_view (disk_kernel 2) 1) no_hook (\<lambda>_. Pipe 4) s \<and> hosts (aio_view (disk_kernel 2) 1) three_ops s"
proof (rule hosted)
  have "reachable (disk_kernel 2) 1 three_ops" by (simp add: three_ops_def reachable_play)
  then show "bk_reach (aio_view (disk_kernel 2) 1) three_ops" by (rule aio_reach)
  show "asks_one_by_one (aio_view (disk_kernel 2) 1)" by (rule aio_asks)
  show "distinct (map fst (bk_asked (aio_view (disk_kernel 2) 1) three_ops))" using three_ops_run by simp
  show "\<forall>(c, oper) \<in> set (bk_asked (aio_view (disk_kernel 2) 1) three_ops). plain_op oper"
    using three_ops_plain by simp
qed

lemma nop_done_hosted: "\<exists>s. prog_reach compio_view no_hook (\<lambda>_. CallSoon) s \<and> hosts compio_view nop_done s"
proof (rule hosted)
  show "bk_reach compio_view nop_done" by (rule compio_reach [OF nop_done_reach])
  show "asks_one_by_one compio_view" by (rule compio_asks)
  show "distinct (map fst (bk_asked compio_view nop_done))" by (simp add: nop_done_def)
  have "plain_op Op_Nop"
    unfolding plain_op_def by (rule exI [of _ E_probe_nop]) (simp add: probe_nop_def)
  then show "\<forall>(c, oper) \<in> set (bk_asked compio_view nop_done). plain_op oper" by (simp add: nop_done_def)
qed

text \<open>
  C4: No future is ever settled with anything but a reply to its own op.  In every state the
  whole program on the AIO backend can reach (its driver and helper threads, the callbacks on
  their way to the bridges of any number of event loops, the drains of these loops and the
  futures, however they interleave), the future of an op is pending or holds what one reply
  the backend gave to that very op stands for, and a successful one is of the kind the op asks for.
\<close>

theorem futures_follow_replies:
  assumes "prog_reach (aio_view K n) hk bells s" and "bounded K" and "\<forall>k. bell_ok (bells k)"
    and "(c, oper) \<in> set (asked (pg_backend s))"
  shows "futures (pg_py s) (pc_fut (pg_calls s c)) = Pending \<or>
    (\<exists>m r. (c, r) \<in> set (aio_replied (pg_backend s)) \<and> (\<forall>x. r = Inr x \<longrightarrow> answers oper x) \<and>
       futures (pg_py s) (pc_fut (pg_calls s c)) = outcome m (callback_of (pg_calls s c) r))"
  using aio_program.safe_typed [of K n hk bells s c oper] assms by simp

theorem futures_follow_replies_witness:
  "\<exists>s. hosts (aio_view (disk_kernel 2) 1) three_ops s \<and> (futures (pg_py s) 111 = Pending \<or>
     (\<exists>m. futures (pg_py s) 111 = outcome m (callback_of (plain_calls 11) (Inr (Reply_Size 6)))))"
proof -
  obtain s where reach: "prog_reach (aio_view (disk_kernel 2) 1) no_hook (\<lambda>_. Pipe 4) s"
    and hosts: "hosts (aio_view (disk_kernel 2) 1) three_ops s" using three_ops_hosted by blast
  have bells: "\<forall>k :: nat. bell_ok (Pipe 4)" by (simp add: bell_ok_def)
  have asked: "(11, Op_Size 1) \<in> set (asked (pg_backend s))" using hosts three_ops_run by (simp add: hosts_def)
  have "pg_calls s 11 = plain_calls 11" using hosts three_ops_run by (simp add: hosts_def)
  with futures_follow_replies [OF reach disk_bounded bells asked] hosts three_ops_run
  show ?thesis by (auto simp: hosts_def plain_calls_def)
qed

text \<open>
  C3: From an op to its future, on the AIO backend.  Let the driver thread have returned, or
  wait with nothing left to do, while interpreter and event loops are alive and open.  Then the
  program can go on, without another step of the backend, until every call of \<open>complete\<close> has
  returned, every queue is empty and every drain idle, and then the future of every op it was
  asked for is settled with what a reply to that op stands for.  And there is no other way
  to come to rest: whenever all bridges are in that state, no future is pending.
\<close>

theorem aio_futures_settle:
  assumes "prog_reach (aio_view K n) hk bells s" and "bounded K" and "\<forall>k. bell_ok (bells k)"
    and "aio_idle (pg_backend s)" and "\<forall>k. br_alive (pg_bridges s k) \<and> br_open (pg_bridges s k)"
  shows "(\<exists>s'. (prog_step (aio_view K n) hk)\<^sup>*\<^sup>* s s' \<and> pg_backend s' = pg_backend s \<and> pg_calls s' = pg_calls s \<and>
      (\<forall>k. at_rest (pg_bridges s' k)) \<and>
      (\<forall>c \<in> fst ` set (asked (pg_backend s)). settled_by (aio_view K n) s' c)) \<and>
    ((\<forall>k. at_rest (pg_bridges s k)) \<longrightarrow>
      (\<forall>c \<in> fst ` set (asked (pg_backend s)). settled_by (aio_view K n) s c))"
proof
  show "\<exists>s'. (prog_step (aio_view K n) hk)\<^sup>*\<^sup>* s s' \<and> pg_backend s' = pg_backend s \<and> pg_calls s' = pg_calls s \<and>
      (\<forall>k. at_rest (pg_bridges s' k)) \<and>
      (\<forall>c \<in> fst ` set (asked (pg_backend s)). settled_by (aio_view K n) s' c)"
    using aio_program.settles [OF assms(1) _ assms(4,5)] assms(2,3) by simp
  show "(\<forall>k. at_rest (pg_bridges s k)) \<longrightarrow>
      (\<forall>c \<in> fst ` set (asked (pg_backend s)). settled_by (aio_view K n) s c)"
    using aio_program.rest_settled [OF assms(1) _ assms(4)] assms(2,3,5) by simp
qed

theorem aio_futures_settle_witness:
  "\<exists>s' :: disk system program. pg_backend s' = three_ops \<and> (\<forall>k. at_rest (pg_bridges s' k)) \<and>
     futures (pg_py s') 111 = Resolved (Py_int 6) \<and> futures (pg_py s') 112 = Resolved Py_None"
proof -
  let ?B = "aio_view (disk_kernel 2) 1"
  obtain s where reach: "prog_reach ?B no_hook (\<lambda>_. Pipe 4) s" and hosts: "hosts ?B three_ops s"
    using three_ops_hosted by blast
  then have idle: "aio_idle (pg_backend s)" and live: "\<forall>k. br_alive (pg_bridges s k) \<and> br_open (pg_bridges s k)"
    using three_ops_run by (simp_all add: hosts_def aio_idle_def)
  have bells: "\<forall>k :: nat. bell_ok (Pipe 4)" by (simp add: bell_ok_def)
  from aio_futures_settle [OF reach disk_bounded bells idle live] obtain s' where s': "pg_backend s' = pg_backend s"
    "pg_calls s' = pg_calls s" "\<forall>k. at_rest (pg_bridges s' k)"
    "\<forall>c \<in> fst ` set (asked (pg_backend s)). settled_by ?B s' c" by blast
  have "pg_calls s 11 = plain_calls 11" "pg_calls s 12 = plain_calls 12" "pg_backend s = three_ops"
    using hosts three_ops_run by (simp_all add: hosts_def)
  with s' three_ops_run have "futures (pg_py s') 111 = Resolved (Py_int 6)" "futures (pg_py s') 112 = Resolved Py_None"
    by (auto simp: settled_by_def plain_calls_def outcome_def callback_of_def)
  with s' \<open>pg_backend s = three_ops\<close> show ?thesis by (intro exI [of _ s']) simp
qed

text \<open>
  C25: The same on the compio backend: once no task and no message is left while the driver is
  in use, the rest of the program settles the future of every op with what compio's backend
  answered to it.
\<close>

theorem compio_futures_settle:
  assumes "prog_reach compio_view hk bells s" and "\<forall>k. bell_ok (bells k)"
    and "senders (cs_rx (pg_backend s))" and "co_tasks (cs_co (pg_backend s)) = []" and "pending (cs_rx (pg_backend s)) = []"
    and "\<forall>k. br_alive (pg_bridges s k) \<and> br_open (pg_bridges s k)"
  shows "\<exists>s'. (prog_step compio_view hk)\<^sup>*\<^sup>* s s' \<and> pg_backend s' = pg_backend s \<and> pg_calls s' = pg_calls s \<and>
    (\<forall>c \<in> fst ` set (cs_submitted (pg_backend s)). settled_by compio_view s' c)"
proof -
  obtain s' where "(prog_step compio_view hk)\<^sup>*\<^sup>* s s'" "pg_backend s' = pg_backend s" "pg_calls s' = pg_calls s"
    "\<forall>c \<in> fst ` set (bk_asked compio_view (pg_backend s)). settled_by compio_view s' c"
    using compio_program.settles [OF assms(1) _ _ assms(6)] assms(2-5) by (auto simp: compio_idle_def)
  then show ?thesis by (intro exI [of _ s']) simp
qed

theorem compio_futures_settle_witness:
  "\<exists>s' :: csys program. pg_backend s' = nop_done \<and> futures (pg_py s') 105 = Resolved Py_None"
proof -
  obtain s where reach: "prog_reach compio_view no_hook (\<lambda>_. CallSoon) s" and hosts: "hosts compio_view nop_done s"
    using nop_done_hosted by blast
  then have "senders (cs_rx (pg_backend s))" "co_tasks (cs_co (pg_backend s)) = []" "pending (cs_rx (pg_backend s)) = []"
    "\<forall>k. br_alive (pg_bridges s k) \<and> br_open (pg_bridges s k)"
    by (simp_all add: hosts_def nop_done_def new_channel_def)
  from compio_futures_settle [OF reach _ this] obtain s' where s': "pg_backend s' = pg_backend s"
    "pg_calls s' = pg_calls s" "\<forall>c \<in> fst ` set (cs_submitted (pg_backend s)). settled_by compio_view s' c"
    by (auto simp: bell_ok_def)
  have "pg_calls s 5 = plain_calls 5" "pg_backend s = nop_done" using hosts by (simp_all add: hosts_def nop_done_def)
  with s' have "futures (pg_py s') 105 = Resolved Py_None"
    by (auto simp: settled_by_def plain_calls_def outcome_def callback_of_def nop_done_def compio_replied_def)
  with s' \<open>pg_backend s = nop_done\<close> show ?thesis by (intro exI [of _ s']) simp
qed

end
